(* ===== verification/Bloom_Prelude.thy ===== *)
theory Bloom_Prelude
  imports Main "HOL-Library.Word" "HOL-Library.Multiset" "HOL-Library.Signed_Division" "HOL-Library.Sublist"
begin

text \<open>
  Shared vocabulary of the development: the machine types of the Go program (\<open>byte\<close>,
  \<open>uint32\<close>, \<open>uint64\<close>/\<open>uint\<close> on a 64-bit target), the three ways a Go call can end
  (a value, an \<open>error\<close>, a run-time panic), the big- and little-endian accessors of
  \<open>encoding/binary\<close>, the iteration \<open>for i := uint(0); i < k; i++\<close>, and the reading of
  a byte slice as a set of bit positions, on which every statement about a bit array rests.
  Slice lengths are natural numbers (a Go length is below $2^{63}$, so \<open>uint(len(x))\<close>
  is the length itself).
\<close>

unbundle bit_operations_syntax

named_theorems bitset_simps \<open>how byte-subslice updates act on the set of bit positions\<close>
named_theorems endian_simps \<open>round trips of the fixed-width integer encodings\<close>
named_theorems wf_intros \<open>preservation of the representation invariants\<close>

declare push_bit_of_1 [simp del] \<comment> \<open>keep \<open>1 << n\<close> as it is written\<close>
declare of_nat_unat [simp del] \<comment> \<open>keep \<open>of_nat (unat w)\<close> as it is written\<close>

section \<open>Machine types and outcomes\<close>

type_synonym byte = "8 word"
type_synonym u32 = "32 word"
type_synonym u64 = "64 word"
type_synonym bytes = "byte list"

text \<open>A Go call returns a value, returns an error, or panics.\<close>

datatype ('e, 'a) outcome = Ok 'a | Err 'e | Panic

fun and_then :: "('e, 'a) outcome \<Rightarrow> ('a \<Rightarrow> ('e, 'b) outcome) \<Rightarrow> ('e, 'b) outcome" where
  "and_then (Ok x) g = g x"
| "and_then (Err e) g = Err e"
| "and_then Panic g = Panic"

fun wrap_err :: "('e \<Rightarrow> 'd) \<Rightarrow> ('e, 'a) outcome \<Rightarrow> ('d, 'a) outcome" where
  "wrap_err w (Ok x) = Ok x"
| "wrap_err w (Err e) = Err (w e)"
| "wrap_err w Panic = Panic"

lemma and_then_Ok_iff:
  "and_then r g = Ok y \<longleftrightarrow> (\<exists>x. r = Ok x \<and> g x = Ok y)"
  by (cases r) auto

lemma wrap_err_Ok_iff [simp]: "wrap_err w r = Ok x \<longleftrightarrow> r = Ok x"
  by (cases r) auto

section \<open>Words as numbers\<close>

lemma unat_less_u64: "unat (w :: u64) < 18446744073709551616"
  using unsigned_less [of w, where 'a = nat] by simp

lemma unat_less_u32: "unat (w :: u32) < 4294967296"
  using unsigned_less [of w, where 'a = nat] by simp

lemma even_unat [simp]: "even (unat (w :: 'a::len word)) = even w"
  using bit_0 [of w] bit_0 [of "unat w"] bit_unsigned_iff [of w 0, where 'a = nat] by simp

lemma unat_ucast_u32 [simp]: "unat (ucast (w :: u32) :: u64) = unat w"
  by (simp add: unsigned_ucast_eq take_bit_nat_eq_self_iff unat_less_u32
      order_less_trans [OF unat_less_u32])

text \<open>Go's \<open>/\<close> and \<open>%\<close> on \<open>int\<close> truncate; on non-negative operands they are \<open>div\<close> and \<open>mod\<close>.\<close>

lemma smod_pos: "0 \<le> a \<Longrightarrow> 0 < b \<Longrightarrow> a smod b = a mod (b :: int)"
  by (cases "a = 0") (simp_all add: smod_int_alt_def sgn_if)

lemma sdiv_pos: "0 \<le> a \<Longrightarrow> 0 < b \<Longrightarrow> a sdiv b = a div (b :: int)"
  by (cases "a = 0") (simp_all add: signed_divide_int_def sgn_if)

text \<open>A \<open>uint\<close> below $2^{63}$ keeps its value when converted to \<open>int\<close>.\<close>

lemma sint_of_small: "unat (w :: u64) < 2 ^ 63 \<Longrightarrow> sint w = int (unat w)"
proof -
  assume a: "unat w < 2 ^ 63"
  have "int (unat w) < int (2 ^ 63)" using a by (simp only: of_nat_less_iff)
  then have "uint w < 2 ^ 63" by (simp add: of_nat_unat)
  moreover have "- (2 ^ 63) \<le> uint w" by (rule order_trans [of _ 0]) simp_all
  ultimately have "signed_take_bit 63 (uint w) = uint w"
    by (simp add: signed_take_bit_int_eq_self_iff)
  then show ?thesis by (simp add: sint_uint of_nat_unat)
qed

section \<open>Counting loops over \<open>uint\<close>\<close>

text \<open>The values of \<open>i\<close> in \<open>for i := uint(0); i < k; i++\<close>, in order.\<close>

definition u64_range :: "u64 \<Rightarrow> u64 list" where
  "u64_range k = map word_of_nat [0..<unat k]"

lemma length_u64_range [simp]: "length (u64_range k) = unat k"
  by (simp add: u64_range_def)

lemma nth_u64_range [simp]: "i < unat k \<Longrightarrow> u64_range k ! i = word_of_nat i"
  by (simp add: u64_range_def)

lemma unat_word_of_nat_lt:
  "i < unat (k :: 'a::len word) \<Longrightarrow> unat (word_of_nat i :: 'a word) = i"
  by (rule le_unat_uoi [of _ k]) simp

lemma set_u64_range [simp]: "set (u64_range k) = {..<k}"
proof (rule set_eqI)
  fix x :: u64
  have "x \<in> set (u64_range k) \<longleftrightarrow> (\<exists>i < unat k. x = word_of_nat i)"
    by (auto simp: u64_range_def)
  also have "\<dots> \<longleftrightarrow> unat x < unat k"
  proof
    assume "unat x < unat k"
    then show "\<exists>i < unat k. x = word_of_nat i" by (intro exI [of _ "unat x"]) (simp add: of_nat_unat)
  qed (auto simp: unat_word_of_nat_lt)
  finally show "x \<in> set (u64_range k) \<longleftrightarrow> x \<in> {..<k}"
    by (simp add: word_less_nat_alt)
qed

section \<open>Fixed-width integers in byte order\<close>

text \<open>\<open>binary.BigEndian.PutUint32\<close> and \<open>Uint32\<close>, on the four bytes they touch.\<close>

definition put_be32 :: "u32 \<Rightarrow> bytes" where
  "put_be32 v = [ucast (drop_bit 24 v), ucast (drop_bit 16 v), ucast (drop_bit 8 v), ucast v]"

definition be32 :: "bytes \<Rightarrow> u32" where
  "be32 b = ucast (b ! 3) OR push_bit 8 (ucast (b ! 2)) OR push_bit 16 (ucast (b ! 1))
     OR push_bit 24 (ucast (b ! 0))"

text \<open>\<open>binary.BigEndian.PutUint64\<close> and \<open>Uint64\<close>.\<close>

definition put_be64 :: "u64 \<Rightarrow> bytes" where
  "put_be64 v = [ucast (drop_bit 56 v), ucast (drop_bit 48 v), ucast (drop_bit 40 v),
     ucast (drop_bit 32 v), ucast (drop_bit 24 v), ucast (drop_bit 16 v),
     ucast (drop_bit 8 v), ucast v]"

definition be64 :: "bytes \<Rightarrow> u64" where
  "be64 b = ucast (b ! 7) OR push_bit 8 (ucast (b ! 6)) OR push_bit 16 (ucast (b ! 5))
     OR push_bit 24 (ucast (b ! 4)) OR push_bit 32 (ucast (b ! 3)) OR push_bit 40 (ucast (b ! 2))
     OR push_bit 48 (ucast (b ! 1)) OR push_bit 56 (ucast (b ! 0))"

text \<open>\<open>binary.LittleEndian.PutUint64\<close>.\<close>

definition put_le64 :: "u64 \<Rightarrow> bytes" where
  "put_le64 v = rev (put_be64 v)"

lemma length_put_be32 [simp]: "length (put_be32 v) = 4"
  by (simp add: put_be32_def)

lemma length_put_be64 [simp]: "length (put_be64 v) = 8"
  by (simp add: put_be64_def)

lemma length_put_le64 [simp]: "length (put_le64 v) = 8"
  by (simp add: put_le64_def)

text \<open>A byte shifted into place, and a byte cut out of a word, bit by bit.\<close>

lemma bit_lane:
  "bit (push_bit s (ucast (x :: byte)) :: 'a::len word) n
     \<longleftrightarrow> n < LENGTH('a) \<and> s \<le> n \<and> n - s < 8 \<and> bit x (n - s)"
  by (auto simp: bit_simps dest: bit_imp_le_length)

lemma bit_lane0:
  "bit (ucast (x :: byte) :: 'a::len word) n \<longleftrightarrow> n < LENGTH('a) \<and> n < 8 \<and> bit x n"
  by (auto simp: bit_simps dest: bit_imp_le_length)

lemma bit_lane_out:
  "bit (ucast (drop_bit s (v :: 'a::len word)) :: byte) n \<longleftrightarrow> n < 8 \<and> bit v (s + n)"
  by (auto simp: bit_simps)

lemma bit_lane_out0:
  "bit (ucast (v :: 'a::len word) :: byte) n \<longleftrightarrow> n < 8 \<and> bit v n"
  by (auto simp: bit_simps)

lemmas lane_simps = bit_or_iff bit_drop_bit_eq o_def bit_lane bit_lane0 bit_lane_out bit_lane_out0

lemma be32_put_be32 [endian_simps, simp]: "be32 (put_be32 v @ r) = v"
proof (rule bit_word_eqI)
  fix n assume "n < LENGTH(32)"
  then have "n < 8 \<or> 8 \<le> n \<and> n < 16 \<or> 16 \<le> n \<and> n < 24 \<or> 24 \<le> n \<and> n < 32" by auto
  then show "bit (be32 (put_be32 v @ r)) n \<longleftrightarrow> bit v n"
    by (elim disjE) (simp_all add: be32_def put_be32_def lane_simps less_diff_conv2)
qed

lemma be32_put_be32_exact [endian_simps, simp]: "be32 (put_be32 v) = v"
  using be32_put_be32 [of v "[]"] by simp

lemma be64_put_be64 [endian_simps, simp]: "be64 (put_be64 v @ r) = v"
proof (rule bit_word_eqI)
  fix n assume "n < LENGTH(64)"
  then have "n < 8 \<or> 8 \<le> n \<and> n < 16 \<or> 16 \<le> n \<and> n < 24 \<or> 24 \<le> n \<and> n < 32
      \<or> 32 \<le> n \<and> n < 40 \<or> 40 \<le> n \<and> n < 48 \<or> 48 \<le> n \<and> n < 56 \<or> 56 \<le> n \<and> n < 64"
    by auto
  then show "bit (be64 (put_be64 v @ r)) n \<longleftrightarrow> bit v n"
    by (elim disjE) (simp_all add: be64_def put_be64_def lane_simps less_diff_conv2)
qed

lemma be64_put_be64_exact [endian_simps, simp]: "be64 (put_be64 v) = v"
  using be64_put_be64 [of v "[]"] by simp

lemma length_4_conv: "length b = 4 \<longleftrightarrow> (\<exists>w x y z. b = [w, x, y, z])"
  by (auto simp: length_Suc_conv eval_nat_numeral)

lemma put_be32_be32 [endian_simps]:
  assumes "length b = 4"
  shows "put_be32 (be32 b) = b"
proof -
  from assms obtain w x y z where b: "b = [w, x, y, z]"
    by (auto simp: length_4_conv)
  have "n < 8 \<Longrightarrow> bit (ucast (be32 b) :: byte) n = bit z n"
    "n < 8 \<Longrightarrow> bit (ucast (drop_bit 8 (be32 b)) :: byte) n = bit y n"
    "n < 8 \<Longrightarrow> bit (ucast (drop_bit 16 (be32 b)) :: byte) n = bit x n"
    "n < 8 \<Longrightarrow> bit (ucast (drop_bit 24 (be32 b)) :: byte) n = bit w n" for n
    by (simp_all add: b be32_def lane_simps)
  then show ?thesis
    by (auto simp: b put_be32_def intro!: bit_word_eqI)
qed

section \<open>Sub-slices\<close>

text \<open>The Go slice expression \<open>b[i:j]\<close>, for \<open>i \<le> j \<le> len(b)\<close>.\<close>

definition subslice :: "bytes \<Rightarrow> nat \<Rightarrow> nat \<Rightarrow> bytes" where
  "subslice b i j = take (j - i) (drop i b)"

lemma length_subslice [simp]: "length (subslice b i j) = min (j - i) (length b - i)"
  by (simp add: subslice_def min.commute)

lemma subslice_append_skip [simp]: "length a \<le> i \<Longrightarrow> subslice (a @ b) i j = subslice b (i - length a) (j - length a)"
  by (simp add: subslice_def)

lemma subslice_Cons [simp]: "0 < i \<Longrightarrow> subslice (x # b) i j = subslice b (i - 1) (j - 1)"
  by (cases i; cases j) (simp_all add: subslice_def)

lemma subslice_append_whole [simp]: "j \<le> length a \<Longrightarrow> subslice (a @ b) i j = subslice a i j"
  by (cases "i \<le> j") (simp_all add: subslice_def)

lemma subslice_all: "j = length b \<Longrightarrow> subslice b 0 j = b"
  by (simp add: subslice_def)

lemma subslice_update_outside:
  "k < i \<or> j \<le> k \<Longrightarrow> subslice (b[k := y]) i j = subslice b i j"
  by (rule nth_equalityI) (auto simp: subslice_def nth_list_update)

lemma be32_subslice4: "length a = 4 \<Longrightarrow> be32 (subslice (a @ b) 0 4) = be32 a"
  by (simp add: subslice_all)

section \<open>Byte slices as sets of bit positions\<close>

text \<open>Position \<open>p\<close> of a bit array is bit \<open>p mod 8\<close> of byte \<open>p div 8\<close>.\<close>

definition bits_of :: "bytes \<Rightarrow> nat set" where
  "bits_of bs = {p. p < 8 * length bs \<and> bit (bs ! (p div 8)) (p mod 8)}"

lemma mem_bits_of [bitset_simps]:
  "p \<in> bits_of bs \<longleftrightarrow> p < 8 * length bs \<and> bit (bs ! (p div 8)) (p mod 8)"
  by (simp add: bits_of_def)

lemma byte_index [simp]: "p < 8 * n \<Longrightarrow> p div 8 < (n::nat)"
  by (simp add: less_mult_imp_div_less mult.commute)

lemma bits_of_bound: "bits_of bs \<subseteq> {..<8 * length bs}"
  by (auto simp: bits_of_def)

lemma finite_bits_of [simp]: "finite (bits_of bs)"
  by (rule finite_subset [OF bits_of_bound]) simp

lemma bits_of_Nil [simp]: "bits_of [] = {}"
  by (simp add: bits_of_def)

lemma bits_of_zeros [bitset_simps, simp]: "bits_of (replicate n 0) = {}"
  by (auto simp: bits_of_def)

lemma mem_bits_of_update [bitset_simps]:
  "i < length bs \<Longrightarrow> p \<in> bits_of (bs[i := v]) \<longleftrightarrow>
     p < 8 * length bs \<and> bit (if p div 8 = i then v else bs ! (p div 8)) (p mod 8)"
  by (auto simp: bits_of_def nth_list_update)

lemma div_mod_8_eq_iff: "(p::nat) div 8 = q div 8 \<Longrightarrow> p mod 8 = q mod 8 \<longleftrightarrow> p = q"
  by (metis mult_div_mod_eq)

lemma same_byte_bound: "p div 8 = q div 8 \<Longrightarrow> q < 8 * n \<Longrightarrow> p < 8 * (n::nat)"
  using div_less_iff_less_mult [of 8 p n] div_less_iff_less_mult [of 8 q n]
  by (simp add: mult.commute)

lemma bits_of_set [bitset_simps]:
  assumes "q < 8 * length bs"
  shows "bits_of (bs[q div 8 := bs ! (q div 8) OR push_bit (q mod 8) 1]) = insert q (bits_of bs)"
proof (rule set_eqI)
  fix p
  show "p \<in> bits_of (bs[q div 8 := bs ! (q div 8) OR push_bit (q mod 8) 1])
      \<longleftrightarrow> p \<in> insert q (bits_of bs)"
  proof (cases "p div 8 = q div 8")
    case True
    then have "p < 8 * length bs" using assms by (rule same_byte_bound)
    with assms True div_mod_8_eq_iff [OF True] show ?thesis
      by (auto simp: mem_bits_of bit_simps)
  next
    case False
    then show ?thesis by (auto simp: mem_bits_of)
  qed
qed

lemma bits_of_clear [bitset_simps]:
  assumes "q < 8 * length bs"
  shows "bits_of (bs[q div 8 := bs ! (q div 8) AND NOT (push_bit (q mod 8) 1)])
     = bits_of bs - {q}"
proof (rule set_eqI)
  fix p
  show "p \<in> bits_of (bs[q div 8 := bs ! (q div 8) AND NOT (push_bit (q mod 8) 1)])
      \<longleftrightarrow> p \<in> bits_of bs - {q}"
  proof (cases "p div 8 = q div 8")
    case True
    then have "p < 8 * length bs" using assms by (rule same_byte_bound)
    with assms True div_mod_8_eq_iff [OF True] show ?thesis
      by (auto simp: mem_bits_of bit_simps)
  next
    case False
    then show ?thesis by (auto simp: mem_bits_of)
  qed
qed

lemma and_single_bit [bitset_simps]: "(b :: byte) AND push_bit n 1 \<noteq> 0 \<longleftrightarrow> bit b n"
proof -
  have "b AND push_bit n 1 = of_bool (bit b n) * push_bit n 1"
    by (rule bit_word_eqI) (auto simp: bit_simps)
  moreover have "bit b n \<Longrightarrow> bit (push_bit n 1 :: byte) n"
    by (auto simp: bit_simps dest: bit_imp_le_length)
  ultimately show ?thesis by auto
qed

lemma bits_of_map2:
  assumes "length a = length b"
    and "\<And>x y n. n < 8 \<Longrightarrow> bit (f x y) n \<longleftrightarrow> g (bit (x :: byte) n) (bit (y :: byte) n)"
    and "\<not> g False False"
  shows "bits_of (map2 f a b) = {p. g (p \<in> bits_of a) (p \<in> bits_of b)}"
proof (rule set_eqI)
  fix p
  show "p \<in> bits_of (map2 f a b) \<longleftrightarrow> p \<in> {p. g (p \<in> bits_of a) (p \<in> bits_of b)}"
    using assms by (cases "p < 8 * length b") (simp_all add: mem_bits_of)
qed

lemma bits_of_or [bitset_simps]:
  "length a = length b \<Longrightarrow> bits_of (map2 (OR) a b) = bits_of a \<union> bits_of b"
  by (subst bits_of_map2 [where g = "(\<or>)"]) (auto simp: bit_simps)

lemma bits_of_and [bitset_simps]:
  "length a = length b \<Longrightarrow> bits_of (map2 (AND) a b) = bits_of a \<inter> bits_of b"
  by (subst bits_of_map2 [where g = "(\<and>)"]) (auto simp: bit_simps)

lemma bits_of_andnot [bitset_simps]:
  "length a = length b \<Longrightarrow> bits_of (map2 (\<lambda>x y. x AND NOT y) a b) = bits_of a - bits_of b"
  by (subst bits_of_map2 [where g = "\<lambda>x y. x \<and> \<not> y"]) (auto simp: bit_simps)

lemma bits_of_xor [bitset_simps]:
  "length a = length b \<Longrightarrow>
     bits_of (map2 (XOR) a b) = (bits_of a - bits_of b) \<union> (bits_of b - bits_of a)"
  by (subst bits_of_map2 [where g = "(\<noteq>)"]) (auto simp: bit_simps)

lemma bits_of_inject:
  assumes "length a = length b"
  shows "bits_of a = bits_of b \<longleftrightarrow> a = b"
proof
  assume eq: "bits_of a = bits_of b"
  show "a = b"
  proof (rule nth_equalityI)
    fix i assume i: "i < length a"
    show "a ! i = b ! i"
    proof (rule bit_word_eqI)
      fix n assume "n < LENGTH(8)"
      then have n: "n < 8" by simp
      have "8 * i + n \<in> bits_of a \<longleftrightarrow> 8 * i + n \<in> bits_of b" using eq by simp
      with i n assms show "bit (a ! i) n \<longleftrightarrow> bit (b ! i) n" by (simp add: mem_bits_of)
    qed
  qed (rule assms)
qed simp

lemma bits_of_Cons:
  "bits_of (x # xs) = {n. bit x n} \<union> (\<lambda>p. p + 8) ` bits_of xs"
proof (rule set_eqI)
  fix p
  show "p \<in> bits_of (x # xs) \<longleftrightarrow> p \<in> {n. bit x n} \<union> (\<lambda>p. p + 8) ` bits_of xs"
  proof (cases "p < 8")
    case True
    then show ?thesis by (auto simp: mem_bits_of)
  next
    case False
    then obtain q where q: "p = q + 8" by (metis add.commute le_Suc_ex not_less)
    then have "(q + 8) div 8 = Suc (q div 8)" by simp
    with q show ?thesis by (auto simp: mem_bits_of dest: bit_imp_le_length)
  qed
qed

section \<open>Counting set bits\<close>

text \<open>
  The loop \<open>for b != 0 { b &= b - 1; count++ }\<close> that four packages use: each turn clears
  the lowest set bit.
\<close>

lemma and_minus_one_less: "b \<noteq> 0 \<Longrightarrow> unat (b AND (b - 1)) < unat (b :: byte)"
proof -
  assume "b \<noteq> 0"
  have "b AND (b - 1) \<le> b - 1" by (simp add: word_and_le1)
  also have "b - 1 < b" using \<open>b \<noteq> 0\<close> by (simp add: measure_unat word_less_nat_alt)
  finally show ?thesis by (simp add: word_less_nat_alt)
qed

function kernighan :: "byte \<Rightarrow> nat \<Rightarrow> nat" where
  "kernighan b cnt = (if b = 0 then cnt else kernighan (b AND (b - 1)) (cnt + 1))"
  by pat_completeness auto
termination
  by (relation "measure (\<lambda>(b, cnt). unat b)") (auto simp: and_minus_one_less)

declare kernighan.simps [simp del]

text \<open>Clearing the lowest set bit removes exactly one element from the set of bits.\<close>

lemma bit_double_nat: "bit (2 * k :: nat) i \<longleftrightarrow> i \<noteq> 0 \<and> bit k (i - 1)"
  by (simp add: bit_double_iff)

lemma bit_Suc_double_nat: "bit (Suc (2 * k)) i \<longleftrightarrow> i = 0 \<or> bit k (i - 1)"
  by (cases i) (simp_all add: bit_0 bit_Suc)

lemma bits_double_nat: "{i. bit (2 * k :: nat) i} = Suc ` {i. bit k i}"
proof (rule set_eqI)
  fix i
  show "i \<in> {i. bit (2 * k) i} \<longleftrightarrow> i \<in> Suc ` {i. bit k i}"
    by (cases i) (auto simp: bit_double_nat)
qed

lemma finite_bits_nat: "finite {i. bit (n :: nat) i}"
proof (induction n rule: nat_bit_induct)
  case (odd n)
  have "{i. bit (Suc (2 * n)) i} \<subseteq> insert 0 (Suc ` {i. bit n i})"
    by (auto simp: bit_Suc_double_nat image_iff) (metis Suc_pred not_gr0)
  with odd show ?case by (meson finite_imageI finite_insert finite_subset)
qed (simp_all add: bits_double_nat)

lemma nat_clear_lowest:
  "(n::nat) \<noteq> 0 \<Longrightarrow> card {i. bit n i} = Suc (card {i. bit (n AND (n - 1)) i})"
proof (induction n rule: nat_bit_induct)
  case zero
  then show ?case by simp
next
  case (even n)
  then obtain k where k: "2 * n - 1 = Suc (2 * k)" "n - 1 = k"
    by (cases n) auto
  have "2 * n AND Suc (2 * k) = 2 * (n AND k)"
    by (rule bit_eqI) (auto simp: bit_and_iff bit_double_nat bit_Suc_double_nat)
  then have "2 * n AND (2 * n - 1) = 2 * (n AND (n - 1))"
    by (simp only: k)
  then show ?case
    using even by (simp add: bits_double_nat card_image)
next
  case (odd n)
  have "Suc (2 * n) AND (Suc (2 * n) - 1) = 2 * n"
    by (rule bit_eqI) (auto simp: bit_and_iff bit_double_nat bit_Suc_double_nat)
  moreover have "{i. bit (Suc (2 * n)) i} = insert 0 {i. bit (2 * n) i}"
    by (auto simp: bit_double_nat bit_Suc_double_nat)
  moreover have "finite {i. bit (2 * n) i}"
    by (rule finite_bits_nat)
  moreover have "0 \<notin> {i. bit (2 * n) i}"
    by (simp add: bit_double_nat)
  ultimately show ?case by simp
qed

lemma byte_clear_lowest:
  assumes "(b :: byte) \<noteq> 0"
  shows "card {i. bit b i} = Suc (card {i. bit (b AND (b - 1)) i})"
proof -
  have unat_bits: "{i. bit (unat x) i} = {i. bit x i}" for x :: byte
    by (auto simp: bit_unsigned_iff)
  have "unat (b AND (b - 1)) = unat b AND unat (b - 1)"
    by (rule bit_eqI) (simp add: bit_unsigned_iff bit_and_iff)
  then have "unat (b AND (b - 1)) = unat b AND (unat b - 1)"
    by (simp only: unat_minus_one [OF assms])
  then show ?thesis
    using nat_clear_lowest [of "unat b"] assms by (simp add: unat_bits unat_eq_zero flip: unat_bits)
qed

theorem kernighan_correct: "kernighan b cnt = cnt + card {i. bit b i}"
proof (induction b cnt rule: kernighan.induct)
  case (1 b cnt)
  then show ?case
    by (cases "b = 0")
      (simp_all add: kernighan.simps [of 0 cnt] kernighan.simps [of b cnt] byte_clear_lowest)
qed

definition popcount :: "byte \<Rightarrow> nat" where
  "popcount b = kernighan b 0"

lemma popcount_card: "popcount b = card {i. bit b i}"
  by (simp add: popcount_def kernighan_correct)

lemma popcount_le_8: "popcount b \<le> 8"
proof -
  have "{i. bit b i} \<subseteq> {..<8}" by (auto dest: bit_imp_le_length)
  then have "card {i. bit b i} \<le> card {..<8::nat}" by (rule card_mono [rotated]) simp
  then show ?thesis by (simp add: popcount_card)
qed

text \<open>Summing the counts of all bytes counts the set positions of the slice.\<close>

lemma sum_popcount: "sum_list (map popcount bs) = card (bits_of bs)"
proof (induction bs)
  case Nil
  then show ?case by simp
next
  case (Cons x xs)
  have "card (bits_of (x # xs)) = card {n. bit x n} + card ((\<lambda>p. p + 8) ` bits_of xs)"
    unfolding bits_of_Cons
    by (rule card_Un_disjoint) (auto dest: bit_imp_le_length)
  also have "card ((\<lambda>p. p + 8) ` bits_of xs) = card (bits_of xs)"
    by (simp add: card_image)
  finally show ?case using Cons by (simp add: popcount_card)
qed

text \<open>The accumulating loop \<open>for _, v := range b { n += popcount(v) }\<close>.\<close>

lemma foldl_popcount: "foldl (\<lambda>n v. n + popcount v) n0 bs = n0 + card (bits_of bs)"
proof -
  have "foldl (\<lambda>n v. n + popcount v) n0 bs = n0 + sum_list (map popcount bs)"
    by (induction bs arbitrary: n0) auto
  then show ?thesis by (simp add: sum_popcount)
qed

end
