(* ===== verification/Checksums.thy ===== *)
theory Checksums
  imports Bloom_Prelude
begin

text \<open>
  The checksums of the Go standard library that the program calls: \<open>hash/fnv\<close> (64-bit FNV-1
  and FNV-1a, called in \<open>internal/hash\<close>) and \<open>hash/crc32\<close> (\<open>ChecksumIEEE\<close>, called in
  \<open>codec\<close>, \<open>store\<close> and \<open>counting\<close>). All three absorb a byte slice one byte at a time, and
  each absorbing step is injective in the state and in the byte; the locale \<open>mixing\<close> derives
  from this that replacing a single byte always changes the result.
\<close>

section \<open>Byte-wise mixing\<close>

locale mixing =
  fixes step :: "'s \<Rightarrow> byte \<Rightarrow> 's"
  assumes inj_state: "step s x = step t x \<Longrightarrow> s = t"
    and inj_byte: "step s x = step s y \<Longrightarrow> x = y"
begin

lemma absorb_inj: "foldl step s xs = foldl step t xs \<Longrightarrow> s = t"
  by (induction xs arbitrary: s t) (auto dest: inj_state)

lemma substitution_detected:
  assumes "x \<noteq> y"
  shows "foldl step s (xs @ x # ys) \<noteq> foldl step s (xs @ y # ys)"
  using assms by (auto dest!: absorb_inj inj_byte)

end

section \<open>FNV-1 and FNV-1a\<close>

definition prime64 :: u64 where "prime64 = 1099511628211"
definition offset64 :: u64 where "offset64 = 14695981039346656037"

definition fnv1_step :: "u64 \<Rightarrow> byte \<Rightarrow> u64" where
  "fnv1_step h b = (h * prime64) XOR ucast b"

definition fnv1a_step :: "u64 \<Rightarrow> byte \<Rightarrow> u64" where
  "fnv1a_step h b = (h XOR ucast b) * prime64"

text \<open>The FNV prime is odd, so multiplying by it can be undone modulo $2^{64}$.\<close>

lemma prime64_cancel: "a * prime64 = b * prime64 \<Longrightarrow> a = b"
proof -
  assume eq: "a * prime64 = b * prime64"
  have inv: "prime64 * 0xce965057aff6957b = 1" by (simp add: prime64_def)
  have "a = a * prime64 * 0xce965057aff6957b" by (simp add: mult.assoc inv)
  also have "\<dots> = b" by (simp add: eq mult.assoc inv)
  finally show ?thesis .
qed

lemma ucast_byte_inj:
  assumes "(ucast (x :: byte) :: 'a::len word) = ucast y" "8 \<le> LENGTH('a)"
  shows "x = y"
proof (rule bit_word_eqI)
  fix n assume "n < LENGTH(8)"
  moreover have "bit (ucast x :: 'a word) n = bit (ucast y :: 'a word) n"
    by (simp only: assms(1))
  ultimately show "bit x n = bit y n"
    using assms(2) by (simp add: bit_lane0)
qed

lemma xor_cancel_left: "(a :: 'a::len word) XOR b = a XOR c \<Longrightarrow> b = c"
  by (metis xor.assoc xor_self_eq xor.left_neutral)

lemma xor_cancel_right: "(b :: 'a::len word) XOR a = c XOR a \<Longrightarrow> b = c"
  by (metis xor_cancel_left xor.commute)

interpretation fnv1: mixing fnv1_step
proof unfold_locales
  fix s t :: u64 and x y :: byte
  show "fnv1_step s x = fnv1_step t x \<Longrightarrow> s = t"
    unfolding fnv1_step_def by (blast dest: xor_cancel_right prime64_cancel)
  show "fnv1_step s x = fnv1_step s y \<Longrightarrow> x = y"
    unfolding fnv1_step_def by (auto dest!: xor_cancel_left ucast_byte_inj)
qed

interpretation fnv1a: mixing fnv1a_step
proof unfold_locales
  fix s t :: u64 and x y :: byte
  show "fnv1a_step s x = fnv1a_step t x \<Longrightarrow> s = t"
    unfolding fnv1a_step_def by (blast dest: xor_cancel_right prime64_cancel)
  show "fnv1a_step s x = fnv1a_step s y \<Longrightarrow> x = y"
    unfolding fnv1a_step_def by (auto dest!: prime64_cancel xor_cancel_left ucast_byte_inj)
qed

section \<open>CRC-32 (IEEE)\<close>

text \<open>The reflected polynomial, one bit per shift; a byte takes eight shifts.\<close>

definition crc_poly :: u32 where "crc_poly = 0xEDB88320"

definition crc_shift :: "u32 \<Rightarrow> u32" where
  "crc_shift c = (if bit c 0 then drop_bit 1 c XOR crc_poly else drop_bit 1 c)"

definition crc_update :: "u32 \<Rightarrow> byte \<Rightarrow> u32" where
  "crc_update c b =
     crc_shift (crc_shift (crc_shift (crc_shift (crc_shift (crc_shift (crc_shift (crc_shift
       (c XOR ucast b))))))))"

definition crc32_ieee :: "bytes \<Rightarrow> u32" where
  "crc32_ieee data = NOT (foldl crc_update (NOT 0) data)"

lemma crc_shift_top: "bit (crc_shift c) 31 \<longleftrightarrow> bit c 0"
proof -
  have "\<not> bit (drop_bit 1 c) 31"
    by (auto simp: bit_drop_bit_eq dest: bit_imp_le_length)
  moreover have "bit crc_poly 31"
    by (simp add: crc_poly_def)
  ultimately show ?thesis by (simp add: crc_shift_def bit_xor_iff)
qed

lemma crc_shift_inj: "crc_shift c = crc_shift d \<Longrightarrow> c = d"
proof (rule bit_word_eqI)
  fix n assume eq: "crc_shift c = crc_shift d"
  then have low: "bit c 0 = bit d 0" by (metis crc_shift_top)
  with eq have high: "drop_bit 1 c = drop_bit 1 d"
    by (auto simp: crc_shift_def split: if_splits dest: xor_cancel_right)
  show "bit c n = bit d n"
  proof (cases n)
    case 0
    with low show ?thesis by simp
  next
    case (Suc k)
    from high have "bit (drop_bit 1 c) k = bit (drop_bit 1 d) k" by simp
    with Suc show ?thesis by (simp add: bit_drop_bit_eq)
  qed
qed

interpretation crc: mixing crc_update
proof unfold_locales
  fix s t :: u32 and x y :: byte
  show "crc_update s x = crc_update t x \<Longrightarrow> s = t"
    unfolding crc_update_def by (blast dest: crc_shift_inj xor_cancel_right)
  show "crc_update s x = crc_update s y \<Longrightarrow> x = y"
    unfolding crc_update_def by (auto dest!: crc_shift_inj xor_cancel_left ucast_byte_inj)
qed

lemma not_word_cancel: "NOT (a :: 'a::len word) = NOT b \<longleftrightarrow> a = b"
  by (metis bit.double_compl)

theorem crc32_substitution:
  "x \<noteq> y \<Longrightarrow> crc32_ieee (xs @ x # ys) \<noteq> crc32_ieee (xs @ y # ys)"
  unfolding crc32_ieee_def not_word_cancel by (rule crc.substitution_detected)

end
