(* ===== verification/Hashing.thy ===== *)
theory Hashing
  imports Checksums
begin

text \<open>
  \<open>internal/hash\<close>: the bit-index functions. \<open>Hash\<close> is Kirsch-Mitzenmacher double hashing
  over FNV-1a and FNV-1 (\<open>hash.go\<close>); \<open>Murmur3Hash\<close> uses the 128-bit Murmur3 variant of
  \<open>murmur3.go\<close>; \<open>enhanced.go\<close> adds the quadratic and triple variants, the strategy switch,
  the batch \<open>MultiHash\<close>, \<open>IndependentHashes\<close>, and the in-place insertion sort at the start of
  \<open>Dispersion\<close>. All arithmetic is modulo $2^{64}$ as in the code.
\<close>

section \<open>Double hashing (hash.go)\<close>

definition fnv64a :: "bytes \<Rightarrow> u64" where
  "fnv64a data = foldl fnv1a_step offset64 data"

definition fnv64 :: "bytes \<Rightarrow> u64" where
  "fnv64 data = foldl fnv1_step offset64 data"

definition Hash :: "bytes \<Rightarrow> u64 \<Rightarrow> u64 \<Rightarrow> u64" where
  "Hash data i m =
     (if m = 0 then 0
      else let h1 = fnv64a data; h2 = fnv64 data in (h1 + i * h2) mod m)"

section \<open>Murmur3 (murmur3.go)\<close>

definition c1_128 :: u64 where "c1_128 = 0x87c37b91114253d5"
definition c2_128 :: u64 where "c2_128 = 0x4cf5ad432745937f"

definition rotl64 :: "u64 \<Rightarrow> nat \<Rightarrow> u64" where
  "rotl64 x r = push_bit r x OR drop_bit (64 - r) x"

definition fmix64 :: "u64 \<Rightarrow> u64" where
  "fmix64 k0 =
     (let k1 = k0 XOR drop_bit 33 k0;
          k2 = k1 * 0xff51afd7ed558ccd;
          k3 = k2 XOR drop_bit 33 k2;
          k4 = k3 * 0xc4ceb9fe1a85ec53
      in k4 XOR drop_bit 33 k4)"

definition getBlock64 :: "bytes \<Rightarrow> nat \<Rightarrow> u64" where
  "getBlock64 data idx =
     (let off = idx * 8
      in if off + 8 > length data then 0
         else ucast (data ! off)
           OR push_bit 8 (ucast (data ! (off + 1)))
           OR push_bit 16 (ucast (data ! (off + 2)))
           OR push_bit 24 (ucast (data ! (off + 3)))
           OR push_bit 32 (ucast (data ! (off + 4)))
           OR push_bit 40 (ucast (data ! (off + 5)))
           OR push_bit 48 (ucast (data ! (off + 6)))
           OR push_bit 56 (ucast (data ! (off + 7))))"

text \<open>One turn of the 16-byte block loop, on the pair \<open>(h1, h2)\<close>.\<close>

definition murmur_block :: "bytes \<Rightarrow> u64 \<times> u64 \<Rightarrow> nat \<Rightarrow> u64 \<times> u64" where
  "murmur_block data h i =
     (let k1 = getBlock64 data (i * 2);
          k2 = getBlock64 data (i * 2 + 1);
          k1 = rotl64 (k1 * c1_128) 31 * c2_128;
          h1 = (rotl64 (fst h XOR k1) 27 + snd h) * 5 + 0x52dce729;
          k2 = rotl64 (k2 * c2_128) 33 * c1_128;
          h2 = (rotl64 (snd h XOR k2) 31 + h1) * 5 + 0x38495ab5
      in (h1, h2))"

text \<open>
  The \<open>switch len(tail) & 15\<close> falls through from its case down to case 1: byte \<open>j\<close> of the
  tail is absorbed exactly when \<open>j < len(tail)\<close>, highest index first.
\<close>

definition absorb_lanes :: "bytes \<Rightarrow> (nat \<times> nat) list \<Rightarrow> u64" where
  "absorb_lanes tail lanes =
     foldl (\<lambda>k (j, s). if j < length tail then k XOR push_bit s (ucast (tail ! j)) else k) 0 lanes"

definition murmur_tail :: "bytes \<Rightarrow> u64 \<times> u64 \<Rightarrow> u64 \<times> u64" where
  "murmur_tail tail h =
     (let k2 = absorb_lanes tail [(14, 48), (13, 40), (12, 32), (11, 24), (10, 16), (9, 8), (8, 0)];
          h2 = (if 9 \<le> length tail then snd h XOR rotl64 (k2 * c2_128) 33 * c1_128 else snd h);
          k1 = absorb_lanes tail
                 [(7, 56), (6, 48), (5, 40), (4, 32), (3, 24), (2, 16), (1, 8), (0, 0)];
          h1 = (if 1 \<le> length tail then fst h XOR rotl64 (k1 * c1_128) 31 * c2_128 else fst h)
      in (h1, h2))"

definition murmur_finish :: "u64 \<Rightarrow> u64 \<times> u64 \<Rightarrow> u64 \<times> u64" where
  "murmur_finish len h =
     (let h1 = fst h XOR len; h2 = snd h XOR len;
          h1 = h1 + h2; h2 = h2 + h1;
          h1 = fmix64 h1; h2 = fmix64 h2;
          h1 = h1 + h2; h2 = h2 + h1
      in (h1, h2))"

definition murmur3Sum128 :: "bytes \<Rightarrow> u64 \<Rightarrow> u64 \<times> u64" where
  "murmur3Sum128 data seed =
     (let nblocks = length data div 16;
          h = foldl (murmur_block data) (seed, seed) [0..<nblocks];
          h = murmur_tail (drop (nblocks * 16) data) h
      in murmur_finish (word_of_nat (length data)) h)"

definition Murmur3Hash :: "bytes \<Rightarrow> u64 \<Rightarrow> u64 \<Rightarrow> u64" where
  "Murmur3Hash data i m =
     (if m = 0 then 0
      else case murmur3Sum128 data 0 of (h1, h2) \<Rightarrow> (h1 + i * h2) mod m)"

section \<open>Strategies (enhanced.go)\<close>

datatype Strategy = StrategyFNV | StrategyMurmur3 | StrategyEnhancedDouble | StrategyTriple

definition EnhancedDoubleHash :: "bytes \<Rightarrow> u64 \<Rightarrow> u64 \<Rightarrow> u64" where
  "EnhancedDoubleHash data i m =
     (if m = 0 then 0
      else let h1 = fnv64a data; h2 = fnv64 data; correction = i * (i - 1) div 2
           in (h1 + i * h2 + correction) mod m)"

definition seededFNV64a :: "bytes \<Rightarrow> byte \<Rightarrow> u64" where
  "seededFNV64a data seed = foldl fnv1a_step (foldl fnv1a_step offset64 [seed]) data"

definition TripleHash :: "bytes \<Rightarrow> u64 \<Rightarrow> u64 \<Rightarrow> u64" where
  "TripleHash data i m =
     (if m = 0 then 0
      else let h1 = fnv64a data; h2 = fnv64 data; h3 = seededFNV64a data 0x9E
           in (h1 + i * h2 + i * i * h3) mod m)"

fun HashWithStrategy :: "bytes \<Rightarrow> u64 \<Rightarrow> u64 \<Rightarrow> Strategy \<Rightarrow> u64" where
  "HashWithStrategy data i m StrategyMurmur3 = Murmur3Hash data i m"
| "HashWithStrategy data i m StrategyEnhancedDouble = EnhancedDoubleHash data i m"
| "HashWithStrategy data i m StrategyTriple = TripleHash data i m"
| "HashWithStrategy data i m StrategyFNV = Hash data i m"

definition MultiHash :: "bytes \<Rightarrow> u64 \<Rightarrow> u64 \<Rightarrow> Strategy \<Rightarrow> u64 list" where
  "MultiHash data k m s =
     (if m = 0 \<or> k = 0 then [] else map (\<lambda>i. HashWithStrategy data i m s) (u64_range k))"

definition IndependentHashes :: "bytes \<Rightarrow> u64 \<Rightarrow> u64 \<Rightarrow> u64 list" where
  "IndependentHashes data k m =
     (if m = 0 \<or> k = 0 then []
      else map (\<lambda>i. foldl fnv1a_step offset64 (data @ put_le64 i) mod m) (u64_range k))"

text \<open>
  The insertion sort in \<open>Dispersion\<close>: \<open>shift_down ps key j\<close> is the inner loop with \<open>j\<close>
  standing for the code's \<open>j + 1\<close>, so that \<open>j = 0\<close> is the exit at \<open>j < 0\<close>.
\<close>

fun shift_down :: "u64 list \<Rightarrow> u64 \<Rightarrow> nat \<Rightarrow> u64 list" where
  "shift_down ps key 0 = ps[0 := key]"
| "shift_down ps key (Suc j) =
     (if ps ! j > key then shift_down (ps[Suc j := ps ! j]) key j else ps[Suc j := key])"

definition sort_positions :: "u64 list \<Rightarrow> u64 list" where
  "sort_positions ps = foldl (\<lambda>ps i. shift_down ps (ps ! i) i) ps [1..<length ps]"

section \<open>Range of the bit indices\<close>

lemma Hash_less: "m \<noteq> 0 \<Longrightarrow> Hash data i m < m"
  by (simp add: Hash_def Let_def word_mod_less_divisor word_gt_0)

lemma Hash_zero [simp]: "Hash data i 0 = 0"
  by (simp add: Hash_def)

lemma strategy_in_range:
  assumes "m \<noteq> 0"
  shows "HashWithStrategy data i m s < m"
  using assms
  by (cases s)
    (simp_all add: Hash_less Murmur3Hash_def EnhancedDoubleHash_def TripleHash_def Let_def
      word_mod_less_divisor word_gt_0 split: prod.split)

section \<open>Double hashing against its formula\<close>

lemma unat_mod_pow2:
  assumes "unat (m :: u64) = 2 ^ e"
  shows "unat (x mod m) = unat x mod 2 ^ e" "e < 64"
proof -
  show "unat (x mod m) = unat x mod 2 ^ e" by (simp add: unat_mod assms)
  have "unat m < 2 ^ 64" using unat_less_u64 [of m] by simp
  with assms have "(2::nat) ^ e < 2 ^ 64" by simp
  then show "e < 64" by (rule power_less_imp_less_exp [rotated]) simp
qed

text \<open>
  The code reduces \<open>h1 + i*h2\<close> modulo $2^{64}$ before it reduces modulo \<open>m\<close>. For a power of
  two \<open>m\<close> that is the formula of the package comment.
\<close>

lemma Hash_formula_pow2:
  assumes "unat m = 2 ^ e"
  shows "unat (Hash data i m) = (unat (fnv64a data) + unat i * unat (fnv64 data)) mod 2 ^ e"
proof -
  have "m \<noteq> 0" using assms by auto
  have dvd: "(2::nat) ^ e dvd 2 ^ 64"
    by (rule le_imp_power_dvd) (use unat_mod_pow2(2) [OF assms] in simp)
  have "unat (fnv64a data + i * fnv64 data)
      = (unat (fnv64a data) + unat i * unat (fnv64 data)) mod 2 ^ 64"
    by (simp add: unat_word_ariths mod_simps)
  with \<open>m \<noteq> 0\<close> show ?thesis
    unfolding Hash_def Let_def
    by (simp only: if_False unat_mod_pow2(1) [OF assms] mod_mod_cancel [OF dvd])
qed

lemma progression_inj:
  fixes a b i j :: nat
  assumes "odd b" "i < 2 ^ e" "j < 2 ^ e" "(a + i * b) mod 2 ^ e = (a + j * b) mod 2 ^ e"
  shows "i = j"
proof -
  have "(int a + int i * int b) mod 2 ^ e = (int a + int j * int b) mod 2 ^ e"
    using arg_cong [OF assms(4), of int] by (simp add: of_nat_mod)
  then have "(2::int) ^ e dvd (int a + int i * int b) - (int a + int j * int b)"
    by (simp only: mod_eq_dvd_iff)
  then have "(2::int) ^ e dvd (int i - int j) * int b"
    by (simp add: algebra_simps)
  moreover have "coprime ((2::int) ^ e) (int b)"
    using assms(1) by (cases "e = 0") (simp_all add: coprime_left_2_iff_odd)
  ultimately have "(2::int) ^ e dvd int i - int j"
    by (simp add: coprime_dvd_mult_left_iff)
  moreover have "int i < 2 ^ e" "int j < 2 ^ e"
    using assms(2,3) by simp_all
  then have "\<bar>int i - int j\<bar> < 2 ^ e" by linarith
  ultimately have "int i - int j = 0"
    using dvd_imp_le_int [of "int i - int j" "2 ^ e"] by fastforce
  then show "i = j" by simp
qed

lemma Hash_inj_pow2:
  assumes "unat m = 2 ^ e" "odd (fnv64 data)" "i < m" "j < m" "Hash data i m = Hash data j m"
  shows "i = j"
proof -
  have "unat (Hash data i m) = unat (Hash data j m)" by (simp add: assms(5))
  then have "(unat (fnv64a data) + unat i * unat (fnv64 data)) mod 2 ^ e
      = (unat (fnv64a data) + unat j * unat (fnv64 data)) mod 2 ^ e"
    by (simp add: Hash_formula_pow2 [OF assms(1)])
  moreover have "odd (unat (fnv64 data))"
    using assms(2) by simp
  moreover have "unat i < 2 ^ e" "unat j < 2 ^ e"
    using assms(1,3,4) by (simp_all add: word_less_nat_alt)
  ultimately have "unat i = unat j" by (blast intro: progression_inj)
  then show ?thesis by (simp add: word_unat_eq_iff)
qed

section \<open>The two base hashes share their lowest bit\<close>

lemma odd_prime64: "odd prime64"
  by (simp add: prime64_def)

lemma even_xor_word: "even (a XOR b) \<longleftrightarrow> even a = even (b :: 'a::len word)"
  using bit_xor_iff [of a b 0] by (auto simp: bit_0)

lemma fnv_parity:
  "even a = even b \<Longrightarrow> even (foldl fnv1_step a data) = even (foldl fnv1a_step b data)"
  by (induction data arbitrary: a b)
    (simp_all add: fnv1_step_def fnv1a_step_def odd_prime64 even_mult_iff even_xor_word)

lemma base_hashes_parity: "even (fnv64 data) = even (fnv64a data)"
  unfolding fnv64_def fnv64a_def by (rule fnv_parity) simp

lemma even_mod_word: "even (m :: u64) \<Longrightarrow> even (x mod m) = even x"
  by (metis dvd_mod_iff even_unat unat_mod)

lemma Hash_parity:
  assumes "m \<noteq> 0" "even m"
  shows "odd (Hash data i m) \<longleftrightarrow> odd (fnv64 data) \<and> even i"
  using assms base_hashes_parity [of data]
  by (auto simp: Hash_def Let_def even_mod_word even_add even_mult_iff)

section \<open>Sensitivity of the base hashes, injectivity of the finalisers\<close>

lemma base_hash_substitution:
  assumes "x \<noteq> y"
  shows "fnv64a (xs @ x # ys) \<noteq> fnv64a (xs @ y # ys)"
    and "fnv64 (xs @ x # ys) \<noteq> fnv64 (xs @ y # ys)"
  unfolding fnv64a_def fnv64_def
  using assms by (rule fnv1a.substitution_detected, rule fnv1.substitution_detected)

text \<open>\<open>k ^= k >> 33\<close> is its own inverse on 64 bits.\<close>

lemma xorshift33_inverse: "(k XOR drop_bit 33 k) XOR drop_bit 33 (k XOR drop_bit 33 k) = (k :: u64)"
proof -
  have "drop_bit 33 (drop_bit 33 k) = 0"
    by (rule bit_word_eqI) (auto simp: bit_drop_bit_eq dest: bit_imp_le_length)
  then show ?thesis
    by (simp add: drop_bit_xor xor.assoc xor.left_commute)
qed

lemma xorshift33_inj: "k XOR drop_bit 33 k = l XOR drop_bit 33 l \<Longrightarrow> k = (l :: u64)"
  by (metis xorshift33_inverse)

lemma unit_cancel:
  fixes a b c d :: u64
  assumes "c * d = 1" "a * c = b * c"
  shows "a = b"
proof -
  have "a = a * c * d" by (simp add: assms(1) mult.assoc)
  also have "\<dots> = b * c * d" by (simp only: assms(2))
  also have "\<dots> = b" by (simp add: assms(1) mult.assoc)
  finally show ?thesis .
qed

lemma fmix64_inj: "fmix64 a = fmix64 b \<longleftrightarrow> a = b"
proof
  have u1: "0xff51afd7ed558ccd * 0x4f74430c22a54005 = (1 :: u64)" by simp
  have u2: "0xc4ceb9fe1a85ec53 * 0x9cb4b2f8129337db = (1 :: u64)" by simp
  assume "fmix64 a = fmix64 b"
  then have "(a XOR drop_bit 33 a) * 0xff51afd7ed558ccd = (b XOR drop_bit 33 b) * 0xff51afd7ed558ccd"
    unfolding fmix64_def Let_def by (blast dest: xorshift33_inj unit_cancel [OF u2])
  then show "a = b" by (blast dest: xorshift33_inj unit_cancel [OF u1])
qed simp

lemma cross_sum_cancel:
  fixes a b c d :: u64
  assumes "a + b = c + d" "b + (a + b) = d + (c + d)"
  shows "a = c \<and> b = d"
  using assms by simp

lemma murmur_finish_inj: "murmur_finish n h = murmur_finish n h' \<longleftrightarrow> h = h'"
proof
  let ?a = "fst h XOR n" and ?b = "snd h XOR n" and ?c = "fst h' XOR n" and ?d = "snd h' XOR n"
  assume "murmur_finish n h = murmur_finish n h'"
  then have "fmix64 (?a + ?b) = fmix64 (?c + ?d)
      \<and> fmix64 (?b + (?a + ?b)) = fmix64 (?d + (?c + ?d))"
    unfolding murmur_finish_def Let_def prod.inject by (elim conjE) (rule cross_sum_cancel)
  then have "?a = ?c \<and> ?b = ?d"
    unfolding fmix64_inj by (elim conjE) (rule cross_sum_cancel)
  then have "snd h = snd h'" "fst h = fst h'" by (blast dest: xor_cancel_right)+
  then show "h = h'" by (rule prod_eqI [rotated])
qed simp

section \<open>Batches and the insertion sort\<close>

lemma MultiHash_nth:
  assumes "i < unat k" "m \<noteq> 0"
  shows "MultiHash data k m s ! i = HashWithStrategy data (word_of_nat i) m s"
  using assms by (auto simp: MultiHash_def)

lemma MultiHash_length: "length (MultiHash data k m s) = (if m = 0 then 0 else unat k)"
  by (simp add: MultiHash_def)

lemma MultiHash_in_range: "p \<in> set (MultiHash data k m s) \<Longrightarrow> p < m"
  by (auto simp: MultiHash_def strategy_in_range split: if_splits)

lemma IndependentHashes_in_range: "p \<in> set (IndependentHashes data k m) \<Longrightarrow> p < m"
  by (auto simp: IndependentHashes_def word_mod_less_divisor word_gt_0 split: if_splits)

lemma length_shift_down [simp]: "length (shift_down ps key j) = length ps"
  by (induction ps key j rule: shift_down.induct) auto

text \<open>The inner loop inserts the key into the sorted prefix and leaves the rest alone.\<close>

lemma insort_snoc_less: "key < y \<Longrightarrow> insort key (xs @ [y]) = insort key xs @ [y :: u64]"
  by (induction xs) auto

lemma insort_snoc_max:
  "sorted xs \<Longrightarrow> \<forall>x \<in> set xs. x \<le> key \<Longrightarrow> insort key xs = xs @ [key :: u64]"
proof (induction xs)
  case Nil
  then show ?case by simp
next
  case (Cons x xs)
  then have ih: "insort key xs = xs @ [key]" by simp
  show ?case
  proof (cases "key \<le> x")
    case True
    with Cons.prems have "key = x" "\<forall>y \<in> set xs. key \<le> y" by auto
    then have "insort key xs = key # xs" by (cases xs) auto
    with ih \<open>key = x\<close> show ?thesis by simp
  next
    case False
    with ih show ?thesis by simp
  qed
qed

lemma shift_down_insort:
  "j < length ps \<Longrightarrow> sorted (take j ps) \<Longrightarrow>
     shift_down ps key j = insort key (take j ps) @ drop (Suc j) ps"
proof (induction ps key j rule: shift_down.induct)
  case (1 ps key)
  then show ?case by (cases ps) auto
next
  case (2 ps key j)
  let ?p = "take j ps"
  have len: "j < length ps" and take: "take (Suc j) ps = ?p @ [ps ! j]"
    using "2.prems"(1) by (simp_all add: take_Suc_conv_app_nth)
  have srt: "sorted (?p @ [ps ! j])" using "2.prems"(2) by (simp only: take)
  then have pre: "sorted ?p" "\<forall>x \<in> set ?p. x \<le> ps ! j" by (auto simp: sorted_append)
  show ?case
  proof (cases "ps ! j > key")
    case True
    have "shift_down (ps[Suc j := ps ! j]) key j
        = insort key (take j (ps[Suc j := ps ! j])) @ drop (Suc j) (ps[Suc j := ps ! j])"
      by (rule "2.IH" [OF True]) (use len pre(1) in simp_all)
    also have "drop (Suc j) (ps[Suc j := ps ! j]) = ps ! j # drop (Suc (Suc j)) ps"
      using "2.prems"(1) by (subst Cons_nth_drop_Suc [symmetric]) simp_all
    finally show ?thesis using True by (simp add: take insort_snoc_less)
  next
    case False
    with pre have "insort key (?p @ [ps ! j]) = (?p @ [ps ! j]) @ [key]"
      by (intro insort_snoc_max srt) auto
    moreover have "ps[Suc j := key] = (?p @ [ps ! j]) @ key # drop (Suc (Suc j)) ps"
      using "2.prems"(1) by (simp add: upd_conv_take_nth_drop take)
    ultimately show ?thesis using False by (simp add: take)
  qed
qed

lemma sort_positions_prefix:
  "n \<le> length ps \<Longrightarrow>
     foldl (\<lambda>ps i. shift_down ps (ps ! i) i) ps [1..<n] = sort (take n ps) @ drop n ps"
proof (induction n)
  case 0
  then show ?case by simp
next
  case (Suc n)
  let ?f = "\<lambda>ps i. shift_down ps (ps ! i) i"
  show ?case
  proof (cases "n = 0")
    case True
    with Suc.prems show ?thesis by (cases ps) simp_all
  next
    case False
    let ?q = "sort (take n ps) @ drop n ps"
    have "foldl ?f ps [1..<Suc n] = ?f ?q n"
      using False Suc by simp
    also have "\<dots> = insort (?q ! n) (take n ?q) @ drop (Suc n) ?q"
      by (rule shift_down_insort) (use Suc.prems in simp_all)
    also have "\<dots> = insort (ps ! n) (sort (take n ps)) @ drop (Suc n) ps"
      using Suc.prems by (simp add: nth_append)
    also have "insort (ps ! n) (sort (take n ps)) = sort (take (Suc n) ps)"
      using Suc.prems
      by (intro properties_for_sort [symmetric]) (simp_all add: take_Suc_conv_app_nth sorted_insort)
    finally show ?thesis .
  qed
qed

lemma sort_positions_sort: "sort_positions ps = sort ps"
  unfolding sort_positions_def using sort_positions_prefix [of "length ps" ps] by simp

lemma distinct_u64_range: "distinct (u64_range k)"
  by (auto simp: u64_range_def distinct_map inj_on_def unat_word_of_nat_lt
      dest!: arg_cong [where f = unat])

section \<open>Properties\<close>

text \<open>C40: Every strategy yields positions inside the filter, and a batch has exactly \<open>k\<close> of
  them (none when \<open>m\<close> or \<open>k\<close> is 0), the one at index \<open>i\<close> being the single hash for \<open>i\<close>.\<close>

theorem MultiHash_positions:
  "length (MultiHash data k m s) = (if m = 0 then 0 else unat k)
    \<and> (\<forall>p \<in> set (MultiHash data k m s). p < m)
    \<and> (m \<noteq> 0 \<longrightarrow>
        (\<forall>i < unat k. MultiHash data k m s ! i = HashWithStrategy data (word_of_nat i) m s))"
  using MultiHash_nth [of _ k m data s] by (auto simp: MultiHash_length MultiHash_in_range)

theorem MultiHash_positions_witness:
  "MultiHash [97] 3 20 StrategyTriple ! 2 = HashWithStrategy [97] 2 20 StrategyTriple
    \<and> MultiHash [97] 3 20 StrategyTriple ! 2 < 20"
proof -
  have len: "2 < length (MultiHash [97] 3 20 StrategyTriple)"
    using MultiHash_positions [of "[97]" 3 20 StrategyTriple] by simp
  show ?thesis
    using MultiHash_positions [of "[97]" 3 20 StrategyTriple] nth_mem [OF len] by simp
qed

text \<open>For a power-of-two \<open>m\<close> the 64-bit wrap of \<open>h1 + i*h2\<close> does not matter: the position
  is the one of the double-hashing formula over the integers; and when \<open>h2\<close> is odd, the \<open>k \<le> m\<close>
  positions of an item are pairwise different.\<close>

lemma Hash_pow2:
  assumes "unat m = 2 ^ e"
  shows "unat (Hash data i m) = (unat (fnv64a data) + unat i * unat (fnv64 data)) mod 2 ^ e
    \<and> (odd (fnv64 data) \<and> k \<le> m \<longrightarrow> distinct (map (\<lambda>i. Hash data i m) (u64_range k)))"
proof (intro conjI impI, rule Hash_formula_pow2 [OF assms])
  assume h: "odd (fnv64 data) \<and> k \<le> m"
  then show "distinct (map (\<lambda>i. Hash data i m) (u64_range k))"
    using Hash_inj_pow2 [OF assms conjunct1 [OF h]]
    by (auto simp: distinct_map distinct_u64_range inj_on_def intro: order.strict_trans2)
qed

lemma Hash_pow2_witness:
  "distinct (map (\<lambda>i. Hash [] i 65536) (u64_range 7))"
  using Hash_pow2 [of 65536 16 "[]" _ 7] by (simp add: fnv64_def offset64_def)

text \<open>The two base hashes are not independent: for even \<open>m\<close>, the parity of every position
  of an item is fixed by the lowest bit of \<open>h2\<close> alone; an item with even \<open>h2\<close> only ever probes
  even positions, whatever the index.\<close>

lemma Hash_parity_structure:
  assumes "m \<noteq> 0" "even m"
  shows "odd (Hash data i m) \<longleftrightarrow> odd (fnv64 data) \<and> even i"
  by (rule Hash_parity [OF assms])

lemma Hash_parity_structure_witness: "odd (Hash [] 0 20) \<and> even (Hash [] 1 20)"
proof -
  have "odd (fnv64 [])" by (simp add: fnv64_def offset64_def)
  then show ?thesis
    using Hash_parity_structure [of 20 "[]" 0] Hash_parity_structure [of 20 "[]" 1] by simp
qed

text \<open>Changing one byte of the input changes both base hashes, and the finaliser of
  MurmurHash3 (with the length mixed in) loses no information about the 128-bit state.\<close>

lemma hashes_keep_differences:
  assumes "x \<noteq> y" "h \<noteq> h'"
  shows "fnv64a (xs @ x # ys) \<noteq> fnv64a (xs @ y # ys)
    \<and> fnv64 (xs @ x # ys) \<noteq> fnv64 (xs @ y # ys)
    \<and> murmur_finish n h \<noteq> murmur_finish n h'"
  using base_hash_substitution [OF assms(1)] assms(2) by (simp_all add: murmur_finish_inj)

lemma hashes_keep_differences_witness:
  "fnv64 ([1] @ 2 # [3]) \<noteq> fnv64 ([1] @ 4 # [3]) \<and> murmur_finish 3 (0, 1) \<noteq> murmur_finish 3 (1, 0)"
  using hashes_keep_differences [of 2 4 "(0, 1)" "(1, 0)" "[1]" "[3]" 3] by simp

text \<open>The insertion sort of \<open>Dispersion\<close>, with its inner shifting loop, sorts: its result is
  the ordered permutation of the positions.\<close>

lemma Dispersion_sorts: "sorted (sort_positions ps) \<and> mset (sort_positions ps) = mset ps"
  by (simp add: sort_positions_sort)

end
