(* ===== verification/Interfaces.thy ===== *)
theory Interfaces
  imports Bloom_Prelude
begin

text \<open>
  The contracts between the components, as locales. \<open>membership\<close> is what every approximate
  set of the program promises its callers (no false negatives); \<open>framing\<close> is what a
  self-delimiting, checksummed record format promises the log readers built on it. The
  providers interpret them in their own theories.
\<close>

section \<open>Approximate membership\<close>

locale membership =
  fixes inv :: "'s \<Rightarrow> bool"
    and add :: "'s \<Rightarrow> bytes \<Rightarrow> 's"
    and test :: "'s \<Rightarrow> bytes \<Rightarrow> bool"
  assumes inv_add: "inv s \<Longrightarrow> inv (add s x)"
    and test_added: "inv s \<Longrightarrow> test (add s x) x"
    and test_mono: "inv s \<Longrightarrow> test s y \<Longrightarrow> test (add s x) y"
begin

lemma inv_adds: "inv s \<Longrightarrow> inv (foldl add s xs)"
  by (induction xs arbitrary: s) (auto intro: inv_add)

lemma kept_adds: "inv s \<Longrightarrow> test s y \<Longrightarrow> test (foldl add s xs) y"
  by (induction xs arbitrary: s) (auto intro: inv_add test_mono)

lemma no_false_negative: "inv s \<Longrightarrow> x \<in> set xs \<Longrightarrow> test (foldl add s xs) x"
proof (induction xs arbitrary: s)
  case Nil
  then show ?case by simp
next
  case (Cons y ys)
  then show ?case
    using kept_adds [of "add s y" y ys] by (auto intro: inv_add test_added)
qed

end

section \<open>Record framing\<close>

text \<open>
  \<open>frame_loop\<close> is the reading loop
  \<open>for { rec, size, ok := decode(data[p:]); if !ok { break }; body; p += size }\<close>
  with the loop-carried state \<open>st\<close> and the offset \<open>p\<close>. Its fuel bounds the number of turns;
  \<open>framing.frame_loop_fuel\<close> shows that one more turn than there are bytes left is enough,
  because every record takes at least one byte.
\<close>

fun frame_loop ::
  "(bytes \<Rightarrow> ('r \<times> nat) option) \<Rightarrow> ('s \<Rightarrow> nat \<Rightarrow> 'r \<Rightarrow> 's) \<Rightarrow> nat \<Rightarrow> bytes \<Rightarrow> nat \<Rightarrow> 's
     \<Rightarrow> ('s \<times> nat) option" where
  "frame_loop dec body 0 data p st = None"
| "frame_loop dec body (Suc fuel) data p st =
     (case dec (drop p data) of
        None \<Rightarrow> Some (st, p)
      | Some (r, sz) \<Rightarrow> frame_loop dec body fuel data (p + sz) (body st p r))"

fun run_frames ::
  "('r \<Rightarrow> bytes) \<Rightarrow> ('s \<Rightarrow> nat \<Rightarrow> 'r \<Rightarrow> 's) \<Rightarrow> nat \<Rightarrow> 's \<Rightarrow> 'r list \<Rightarrow> 's" where
  "run_frames enc body p st [] = st"
| "run_frames enc body p st (r # rs) =
     run_frames enc body (p + length (enc r)) (body st p r) rs"

locale framing =
  fixes encode :: "'r \<Rightarrow> bytes"
    and dec :: "bytes \<Rightarrow> ('r \<times> nat) option"
    and ok :: "'r \<Rightarrow> bool"
  assumes dec_encode: "ok r \<Longrightarrow> dec (encode r @ rest) = Some (r, length (encode r))"
    and dec_torn: "ok r \<Longrightarrow> n < length (encode r) \<Longrightarrow> dec (take n (encode r)) = None"
    and dec_progress: "dec bs = Some (r, n) \<Longrightarrow> 0 < n \<and> n \<le> length bs"
begin

lemma dec_Nil: "dec [] = None"
  using dec_progress [of "[]"] by (cases "dec []") auto

lemma encode_pos: "ok r \<Longrightarrow> 0 < length (encode r)"
  using dec_progress [OF dec_encode [of r "[]"]] by simp

text \<open>The loop always ends by the decoder's refusal, never for lack of fuel.\<close>

lemma frame_loop_fuel:
  "p \<le> length data \<Longrightarrow> length data - p < fuel \<Longrightarrow>
     \<exists>st' q. frame_loop dec body fuel data p st = Some (st', q)
       \<and> p \<le> q \<and> q \<le> length data \<and> dec (drop q data) = None"
proof (induction fuel arbitrary: p st)
  case 0
  then show ?case by simp
next
  case (Suc fuel)
  show ?case
  proof (cases "dec (drop p data)")
    case None
    with Suc.prems show ?thesis by simp
  next
    case (Some rn)
    obtain r n where rn: "rn = (r, n)" by (cases rn)
    with Some dec_progress [of "drop p data" r n] have n: "0 < n" "n \<le> length data - p"
      by simp_all
    have "\<exists>st' q. frame_loop dec body fuel data (p + n) (body st p r) = Some (st', q)
        \<and> p + n \<le> q \<and> q \<le> length data \<and> dec (drop q data) = None"
      by (rule Suc.IH) (use n Suc.prems in arith)+
    then show ?thesis using Some rn by fastforce
  qed
qed

text \<open>Whatever the body keeps at every offset from the start on, the loop keeps.\<close>

lemma frame_loop_inv:
  assumes "frame_loop dec body fuel data p st = Some (st', q)" "P st" "lo \<le> p"
    and "\<And>st p r. P st \<Longrightarrow> lo \<le> p \<Longrightarrow> p \<le> length data \<Longrightarrow> P (body st p r)"
  shows "P st'"
  using assms(1-3)
proof (induction fuel arbitrary: p st)
  case (Suc fuel)
  show ?case
  proof (cases "dec (drop p data)")
    case None
    with Suc.prems show ?thesis by simp
  next
    case (Some rn)
    obtain r n where rn: "rn = (r, n)" by (cases rn)
    with Some dec_progress [of "drop p data" r n] have "0 < n" "n \<le> length data - p"
      by simp_all
    then have "p \<le> length data" by arith
    with Suc.prems(2,3) have "P (body st p r)" by (intro assms(4))
    moreover have "frame_loop dec body fuel data (p + n) (body st p r) = Some (st', q)"
      using Suc.prems(1) Some rn by simp
    ultimately show ?thesis using Suc.prems(3) by (intro Suc.IH [of "p + n"]) simp_all
  qed
qed simp

text \<open>
  Over a log of well-formed records followed by bytes that do not decode, the loop runs its
  body on exactly these records, at their offsets, and stops at the end of the last one.
\<close>

lemma frame_loop_log:
  "list_all ok rs \<Longrightarrow> dec t = None \<Longrightarrow> length rs < fuel \<Longrightarrow>
     frame_loop dec body fuel (pre @ concat (map encode rs) @ t) (length pre) st
       = Some (run_frames encode body (length pre) st rs,
               length pre + length (concat (map encode rs)))"
proof (induction rs arbitrary: fuel pre st)
  case Nil
  then show ?case by (cases fuel) auto
next
  case (Cons r rs)
  then obtain fuel' where fuel: "fuel = Suc fuel'" and len: "length rs < fuel'"
    by (cases fuel) auto
  have "dec (drop (length pre) (pre @ concat (map encode (r # rs)) @ t))
      = Some (r, length (encode r))"
    using Cons.prems(1) dec_encode [of r "concat (map encode rs) @ t"] by simp
  moreover have "frame_loop dec body fuel' ((pre @ encode r) @ concat (map encode rs) @ t)
        (length (pre @ encode r)) (body st (length pre) r)
      = Some (run_frames encode body (length (pre @ encode r)) (body st (length pre) r) rs,
          length (pre @ encode r) + length (concat (map encode rs)))"
    by (rule Cons.IH) (use Cons.prems len in simp_all)
  ultimately show ?case by (simp add: fuel)
qed

lemma length_log: "list_all ok rs \<Longrightarrow> length rs \<le> length (concat (map encode rs))"
proof (induction rs)
  case (Cons r rs)
  then have "0 < length (encode r)" by (intro encode_pos) simp
  with Cons show ?case by (simp add: Suc_le_eq add_less_le_mono del: length_greater_0_conv)
qed simp

end

section \<open>Packed counters\<close>

text \<open>Truncation to the low bits commutes with addition modulo 256.\<close>

lemma take_bit_add_left: "take_bit n (take_bit n a + (b :: byte)) = take_bit n (a + b)"
proof -
  have plus: "uint (take_bit n (x + y)) = take_bit n (take_bit n (uint x) + take_bit n (uint y))
      \<or> 8 \<le> n" for x y :: byte
    by (cases "8 \<le> n") (simp_all add: unsigned_take_bit_eq uint_word_ariths min_def
        take_bit_add flip: take_bit_eq_mod [of 8, simplified])
  show ?thesis
  proof (cases "8 \<le> n")
    case True
    then show ?thesis by (simp add: take_bit_word_eq_self)
  next
    case False
    then have "uint (take_bit n (take_bit n a + b)) = uint (take_bit n (a + b))"
      using plus [of "take_bit n a" b] plus [of a b] by (simp add: unsigned_take_bit_eq)
    then show ?thesis by (simp only: word_uint_eq_iff)
  qed
qed

text \<open>
  What the counting filter relies on: an array of \<open>w\<close>-bit counters with independent cells.
  Writing keeps the low \<open>w\<close> bits of the value. The two loops of the client, incrementing and
  decrementing along a list of positions that may repeat, are computed here once and for all.
\<close>

locale counters =
  fixes inv :: "'s \<Rightarrow> bool"
    and cell :: "'s \<Rightarrow> u64 \<Rightarrow> bool"
    and get :: "'s \<Rightarrow> u64 \<Rightarrow> byte"
    and put :: "'s \<Rightarrow> u64 \<Rightarrow> byte \<Rightarrow> 's"
    and w :: "'s \<Rightarrow> nat"
  assumes inv_put: "inv s \<Longrightarrow> cell s p \<Longrightarrow> inv (put s p v)"
    and cell_put: "cell (put s p v) q = cell s q"
    and w_put: "w (put s p v) = w s"
    and get_same: "inv s \<Longrightarrow> cell s p \<Longrightarrow> get (put s p v) p = take_bit (w s) v"
    and get_other: "inv s \<Longrightarrow> cell s p \<Longrightarrow> cell s q \<Longrightarrow> p \<noteq> q \<Longrightarrow> get (put s p v) q = get s q"
    and get_range: "inv s \<Longrightarrow> cell s p \<Longrightarrow> take_bit (w s) (get s p) = get s p"
begin

lemma bump_all:
  assumes "inv s" "list_all (cell s) ps" "cell s q"
  shows "inv (foldl (\<lambda>s p. put s p (get s p + d)) s ps)
    \<and> get (foldl (\<lambda>s p. put s p (get s p + d)) s ps) q
      = take_bit (w s) (get s q + of_nat (count_list ps q) * d)
    \<and> w (foldl (\<lambda>s p. put s p (get s p + d)) s ps) = w s
    \<and> cell (foldl (\<lambda>s p. put s p (get s p + d)) s ps) = cell s"
  using assms
proof (induction ps arbitrary: s)
  case Nil
  then show ?case by (simp add: get_range)
next
  case (Cons p ps)
  let ?s = "put s p (get s p + d)"
  have p: "cell s p" using Cons.prems(2) by simp
  have cells: "cell ?s = cell s" by (rule ext) (rule cell_put)
  have "get ?s q = (if q = p then take_bit (w s) (get s q + d) else get s q)"
    using Cons.prems(1,3) p get_same get_other by auto
  moreover have "inv ?s" using Cons.prems(1) p by (rule inv_put)
  moreover have "list_all (cell ?s) ps" "cell ?s q" using Cons.prems by (simp_all add: cells)
  ultimately show ?case
    using Cons.IH [of ?s] cells
    by (auto simp: w_put take_bit_add_left distrib_right add.assoc [symmetric])
qed

end

end
