(* ===== verification/Bloom.thy ===== *)
theory Bloom
  imports Hashing Interfaces
begin

text \<open>
  \<open>internal/filter/filter.go\<close>: the Bloom filter itself. The struct is the record
  \<open>BloomFilter\<close>; a method that changes its receiver returns the new record. \<open>abs_bloom\<close> reads
  a filter as its parameters and the set of set bit positions, and \<open>spec_add\<close>/\<open>spec_test\<close> say
  what \<open>Add\<close> and \<open>Test\<close> promise on that view. \<open>make\<close> is assumed to have the memory it asks for.
\<close>

datatype filter_error = ErrInvalidParams | ErrBitsLength | ErrNilFilter | ErrParamMismatch

record BloomFilter =
  bf_m :: u64
  bf_k :: u64
  bf_bits :: bytes

section \<open>Operations\<close>

definition bf_New :: "u64 \<Rightarrow> u64 \<Rightarrow> (filter_error, BloomFilter) outcome" where
  "bf_New m k =
     (if m = 0 \<or> k = 0 then Err ErrInvalidParams
      else Ok \<lparr>bf_m = m, bf_k = k, bf_bits = replicate (unat ((m + 7) div 8)) 0\<rparr>)"

definition bf_NewFromParts :: "u64 \<Rightarrow> u64 \<Rightarrow> bytes \<Rightarrow> (filter_error, BloomFilter) outcome" where
  "bf_NewFromParts m k bits =
     (if m = 0 \<or> k = 0 then Err ErrInvalidParams
      else let need = (m + 7) div 8
           in if length bits \<noteq> unat need then Err ErrBitsLength
              else Ok \<lparr>bf_m = m, bf_k = k, bf_bits = bits\<rparr>)"

definition bf_set :: "BloomFilter \<Rightarrow> u64 \<Rightarrow> BloomFilter" where
  "bf_set f idx =
     (let bi = unat (idx div 8)
      in if bi \<ge> length (bf_bits f) then f
         else f\<lparr>bf_bits := (bf_bits f)[bi := bf_bits f ! bi OR push_bit (unat (idx mod 8)) 1]\<rparr>)"

definition bf_get :: "BloomFilter \<Rightarrow> u64 \<Rightarrow> bool" where
  "bf_get f idx =
     (let bi = unat (idx div 8)
      in if bi \<ge> length (bf_bits f) then False
         else bf_bits f ! bi AND push_bit (unat (idx mod 8)) 1 \<noteq> 0)"

definition bf_Add :: "BloomFilter \<Rightarrow> bytes \<Rightarrow> BloomFilter" where
  "bf_Add f data = foldl (\<lambda>f i. bf_set f (Hash data i (bf_m f))) f (u64_range (bf_k f))"

definition bf_Test :: "BloomFilter \<Rightarrow> bytes \<Rightarrow> bool" where
  "bf_Test f data = list_all (\<lambda>i. bf_get f (Hash data i (bf_m f))) (u64_range (bf_k f))"

section \<open>Invariant and abstract view\<close>

text \<open>The bit array has exactly the bytes that \<open>m\<close> bits need.\<close>

definition wf_bloom :: "BloomFilter \<Rightarrow> bool" where
  "wf_bloom f \<longleftrightarrow> bf_m f \<noteq> 0 \<and> bf_k f \<noteq> 0 \<and> length (bf_bits f) = (unat (bf_m f) + 7) div 8"

text \<open>No bit beyond position \<open>m\<close> is set in the padding of the last byte.\<close>

definition clean_bloom :: "BloomFilter \<Rightarrow> bool" where
  "clean_bloom f \<longleftrightarrow> bits_of (bf_bits f) \<subseteq> {..<unat (bf_m f)}"

text \<open>The positions an item probes, and the abstract filter: parameters and a set.\<close>

definition probes :: "u64 \<Rightarrow> u64 \<Rightarrow> bytes \<Rightarrow> nat set" where
  "probes m k data = (\<lambda>i. unat (Hash data i m)) ` set (u64_range k)"

type_synonym abs_filter = "u64 \<times> u64 \<times> nat set"

definition abs_bloom :: "BloomFilter \<Rightarrow> abs_filter" where
  "abs_bloom f = (bf_m f, bf_k f, bits_of (bf_bits f))"

fun spec_add :: "abs_filter \<Rightarrow> bytes \<Rightarrow> abs_filter" where
  "spec_add (m, k, S) x = (m, k, S \<union> probes m k x)"

fun spec_test :: "abs_filter \<Rightarrow> bytes \<Rightarrow> bool" where
  "spec_test (m, k, S) x \<longleftrightarrow> probes m k x \<subseteq> S"

section \<open>Single bits\<close>

lemma unat_div_mod_8 [simp]:
  "unat ((idx :: u64) div 8) = unat idx div 8" "unat (idx mod 8) = unat idx mod 8"
  by (simp_all add: unat_div unat_mod)

lemma bf_get_iff: "bf_get f idx \<longleftrightarrow> unat idx \<in> bits_of (bf_bits f)"
  by (auto simp: bf_get_def Let_def bitset_simps div_less_iff_less_mult mult.commute)

lemma bf_set_m [simp]: "bf_m (bf_set f idx) = bf_m f"
  and bf_set_k [simp]: "bf_k (bf_set f idx) = bf_k f"
  and bf_set_length [simp]: "length (bf_bits (bf_set f idx)) = length (bf_bits f)"
  by (simp_all add: bf_set_def Let_def)

lemma bf_set_bits:
  assumes "unat idx < 8 * length (bf_bits f)"
  shows "bits_of (bf_bits (bf_set f idx)) = insert (unat idx) (bits_of (bf_bits f))"
  using bits_of_set [OF assms] byte_index [OF assms] by (simp add: bf_set_def Let_def)

section \<open>Representation invariant\<close>

lemma wf_bloom_room:
  assumes "wf_bloom f" "p < bf_m f"
  shows "unat p < 8 * length (bf_bits f)"
proof -
  have "unat p < unat (bf_m f)" using assms(2) by (simp add: word_less_nat_alt)
  also have "\<dots> \<le> 8 * ((unat (bf_m f) + 7) div 8)" by presburger
  finally show ?thesis using assms(1) by (simp add: wf_bloom_def)
qed

lemma need_bytes:
  assumes "unat (m :: u64) < 2 ^ 64 - 7"
  shows "unat ((m + 7) div 8) = (unat m + 7) div 8"
proof -
  have "unat (m + 7) = unat m + 7"
    using assms by (simp add: unat_word_ariths)
  then show ?thesis by (simp add: unat_div)
qed

lemma bf_New_wf [wf_intros]:
  assumes "bf_New m k = Ok f" "unat m < 2 ^ 64 - 7"
  shows "wf_bloom f \<and> clean_bloom f \<and> bf_m f = m \<and> bf_k f = k \<and> bits_of (bf_bits f) = {}"
  using assms need_bytes [OF assms(2)]
  by (auto simp: bf_New_def wf_bloom_def clean_bloom_def split: if_splits)

lemma bf_New_Ok_iff: "(\<exists>f. bf_New m k = Ok f) \<longleftrightarrow> m \<noteq> 0 \<and> k \<noteq> 0"
  by (simp add: bf_New_def)

lemma bf_NewFromParts_wf [wf_intros]:
  assumes "bf_NewFromParts m k bits = Ok f" "unat m < 2 ^ 64 - 7"
  shows "wf_bloom f" "bf_m f = m" "bf_k f = k" "bf_bits f = bits"
  using assms need_bytes [OF assms(2)]
  by (auto simp: bf_NewFromParts_def wf_bloom_def Let_def split: if_splits)

lemma bf_NewFromParts_id:
  assumes "wf_bloom f" "unat (bf_m f) < 2 ^ 64 - 7"
  shows "bf_NewFromParts (bf_m f) (bf_k f) (bf_bits f) = Ok f"
  using assms need_bytes [OF assms(2)]
  by (simp add: bf_NewFromParts_def wf_bloom_def Let_def)

section \<open>Add and Test\<close>

lemma bf_Add_params [simp]: "bf_m (bf_Add f x) = bf_m f" "bf_k (bf_Add f x) = bf_k f"
  "length (bf_bits (bf_Add f x)) = length (bf_bits f)"
proof -
  have "bf_m (foldl (\<lambda>f i. bf_set f (Hash x i (bf_m f))) f is) = bf_m f
      \<and> bf_k (foldl (\<lambda>f i. bf_set f (Hash x i (bf_m f))) f is) = bf_k f
      \<and> length (bf_bits (foldl (\<lambda>f i. bf_set f (Hash x i (bf_m f))) f is)) = length (bf_bits f)"
    for "is" by (induction "is" arbitrary: f) simp_all
  then show "bf_m (bf_Add f x) = bf_m f" "bf_k (bf_Add f x) = bf_k f"
    "length (bf_bits (bf_Add f x)) = length (bf_bits f)"
    by (simp_all add: bf_Add_def)
qed

lemma bf_Add_wf [wf_intros]: "wf_bloom f \<Longrightarrow> wf_bloom (bf_Add f x)"
  by (simp add: wf_bloom_def)

lemma bf_Add_bits:
  assumes "wf_bloom f"
  shows "bits_of (bf_bits (bf_Add f x)) = bits_of (bf_bits f) \<union> probes (bf_m f) (bf_k f) x"
proof -
  let ?step = "\<lambda>f i. bf_set f (Hash x i (bf_m f))"
  have "wf_bloom g \<Longrightarrow> bits_of (bf_bits (foldl ?step g is))
      = bits_of (bf_bits g) \<union> (\<lambda>i. unat (Hash x i (bf_m g))) ` set is" for g "is"
  proof (induction "is" arbitrary: g)
    case Nil
    then show ?case by simp
  next
    case (Cons i "is")
    let ?g = "bf_set g (Hash x i (bf_m g))"
    have "wf_bloom ?g" using Cons.prems by (simp add: wf_bloom_def)
    moreover have "Hash x i (bf_m g) < bf_m g"
      using Cons.prems by (intro Hash_less) (simp add: wf_bloom_def)
    ultimately show ?case
      using Cons.IH [of ?g] Cons.prems by (auto simp: bf_set_bits wf_bloom_room)
  qed
  then show ?thesis using assms by (simp add: bf_Add_def probes_def)
qed

lemma bf_Test_iff: "bf_Test f x \<longleftrightarrow> probes (bf_m f) (bf_k f) x \<subseteq> bits_of (bf_bits f)"
  by (auto simp: bf_Test_def probes_def list_all_iff bf_get_iff)

lemma probes_bound: "m \<noteq> 0 \<Longrightarrow> probes m k x \<subseteq> {..<unat m}"
  using Hash_less by (auto simp: probes_def word_less_nat_alt)

lemma bf_Add_clean [wf_intros]: "wf_bloom f \<Longrightarrow> clean_bloom f \<Longrightarrow> clean_bloom (bf_Add f x)"
  using probes_bound [of "bf_m f" "bf_k f" x]
  by (auto simp: clean_bloom_def bf_Add_bits wf_bloom_def)

text \<open>The concrete operations refine the abstract ones.\<close>

lemma bf_Add_refines: "wf_bloom f \<Longrightarrow> abs_bloom (bf_Add f x) = spec_add (abs_bloom f) x"
  by (simp add: abs_bloom_def bf_Add_bits)

lemma bf_Test_refines: "bf_Test f x \<longleftrightarrow> spec_test (abs_bloom f) x"
  by (simp add: abs_bloom_def bf_Test_iff)

lemma abs_bloom_inject:
  assumes "wf_bloom f" "wf_bloom g"
  shows "abs_bloom f = abs_bloom g \<longleftrightarrow> f = g"
proof
  assume eq: "abs_bloom f = abs_bloom g"
  with assms have "length (bf_bits f) = length (bf_bits g)"
    by (simp add: abs_bloom_def wf_bloom_def)
  with eq have "bf_bits f = bf_bits g"
    by (simp add: abs_bloom_def bits_of_inject)
  with eq show "f = g" by (simp add: abs_bloom_def)
qed simp

interpretation bloom: membership wf_bloom bf_Add bf_Test
  by unfold_locales (auto intro: bf_Add_wf simp: bf_Test_iff bf_Add_bits)

lemma bf_adds_params [simp]: "bf_m (foldl bf_Add f xs) = bf_m f" "bf_k (foldl bf_Add f xs) = bf_k f"
  by (induction xs arbitrary: f) simp_all

lemma bf_adds_bits:
  "wf_bloom f \<Longrightarrow> bits_of (bf_bits (foldl bf_Add f xs))
     = bits_of (bf_bits f) \<union> (\<Union>x \<in> set xs. probes (bf_m f) (bf_k f) x)"
  by (induction xs arbitrary: f) (auto simp: bf_Add_bits bf_Add_wf)

lemma bf_adds_clean: "wf_bloom f \<Longrightarrow> clean_bloom f \<Longrightarrow> clean_bloom (foldl bf_Add f xs)"
  by (induction xs arbitrary: f) (auto intro: wf_intros)

section \<open>Properties\<close>

lemma bf_adds_wf: "wf_bloom f \<Longrightarrow> wf_bloom (foldl bf_Add f xs)"
  by (rule bloom.inv_adds)

text \<open>C3: An item that was added is always reported as present, whatever else was added before
  or after it and whatever the filter held at the start.\<close>

theorem bloom_no_false_negative:
  assumes "wf_bloom f" "x \<in> set xs"
  shows "bf_Test (foldl bf_Add f xs) x"
  by (rule bloom.no_false_negative [OF assms])

theorem bloom_no_false_negative_witness:
  "bf_Test (foldl bf_Add \<lparr>bf_m = 20, bf_k = 3, bf_bits = [0, 0, 0]\<rparr> [[97], [98, 99]]) [97]"
  by (rule bloom_no_false_negative) (simp_all add: wf_bloom_def)

lemma replicate_3: "replicate 3 x = [x, x, x]"
  by (simp add: numeral_3_eq_3)

text \<open>C30: A filter made by \<open>New\<close> answers \<open>Test\<close> with yes exactly when every position the item
  probes is probed by some item that was added: this characterises the false positives too.\<close>

theorem Test_after_Adds:
  assumes "bf_New m k = Ok f" "unat m < 2 ^ 64 - 7"
  shows "bf_Test (foldl bf_Add f xs) x
    \<longleftrightarrow> probes m k x \<subseteq> (\<Union>y \<in> set xs. probes m k y)"
  using bf_New_wf [OF assms] bf_adds_bits [of f xs] by (simp add: bf_Test_iff)

theorem Test_after_Adds_witness:
  "bf_New 20 3 = Ok \<lparr>bf_m = 20, bf_k = 3, bf_bits = [0, 0, 0]\<rparr>
   \<and> (bf_Test (foldl bf_Add \<lparr>bf_m = 20, bf_k = 3, bf_bits = [0, 0, 0]\<rparr> [[97]]) [98]
       \<longleftrightarrow> probes 20 3 [98] \<subseteq> (\<Union>y \<in> set [[97]]. probes 20 3 y))"
proof -
  have new: "bf_New 20 3 = Ok \<lparr>bf_m = 20, bf_k = 3, bf_bits = [0, 0, 0]\<rparr>"
    using replicate_3 [of 0] by (simp add: bf_New_def)
  then show ?thesis by (intro conjI Test_after_Adds) simp_all
qed

text \<open>C11: The operations refine the abstract filter \<open>(m, k, S)\<close>: \<open>Add\<close> adds the probed
  positions to \<open>S\<close>, \<open>Test\<close> asks whether they are all in \<open>S\<close>, and no step breaks the
  representation invariant or sets a padding bit.\<close>

theorem filter_refines_spec:
  assumes "wf_bloom f"
  shows "abs_bloom (foldl bf_Add f xs) = foldl spec_add (abs_bloom f) xs
    \<and> (bf_Test (foldl bf_Add f xs) x \<longleftrightarrow> spec_test (foldl spec_add (abs_bloom f) xs) x)
    \<and> wf_bloom (foldl bf_Add f xs) \<and> (clean_bloom f \<longrightarrow> clean_bloom (foldl bf_Add f xs))"
proof -
  have "abs_bloom (foldl bf_Add f xs) = foldl spec_add (abs_bloom f) xs"
    using assms by (induction xs arbitrary: f) (simp_all add: bf_Add_refines bf_Add_wf)
  then show ?thesis
    using assms bf_Test_refines [of "foldl bf_Add f xs" x] by (simp add: bf_adds_wf bf_adds_clean)
qed

theorem filter_refines_spec_witness:
  "abs_bloom (foldl bf_Add \<lparr>bf_m = 9, bf_k = 2, bf_bits = [1, 0]\<rparr> [[1], [2]])
    = foldl spec_add (abs_bloom \<lparr>bf_m = 9, bf_k = 2, bf_bits = [1, 0]\<rparr>) [[1], [2]]"
  using filter_refines_spec [of "\<lparr>bf_m = 9, bf_k = 2, bf_bits = [1, 0]\<rparr>" "[[1], [2]]"]
  by (simp add: wf_bloom_def)

text \<open>The state of a filter depends only on the set of items added: the order of the
  additions and repetitions leave every byte of it unchanged.\<close>

lemma Add_order_irrelevant:
  assumes "wf_bloom f" "set xs = set ys"
  shows "foldl bf_Add f xs = foldl bf_Add f ys"
proof -
  have "abs_bloom (foldl bf_Add f xs) = abs_bloom (foldl bf_Add f ys)"
    using assms by (simp add: abs_bloom_def bf_adds_bits)
  then show ?thesis using assms(1) by (simp add: abs_bloom_inject bf_adds_wf)
qed

lemma Add_order_irrelevant_witness:
  "foldl bf_Add \<lparr>bf_m = 9, bf_k = 2, bf_bits = [0, 0]\<rparr> [[1], [2], [1]]
    = foldl bf_Add \<lparr>bf_m = 9, bf_k = 2, bf_bits = [0, 0]\<rparr> [[2], [1]]"
  by (rule Add_order_irrelevant) (auto simp: wf_bloom_def)

text \<open>For \<open>m\<close> within 7 of $2^{64}$ the byte count \<open>(m + 7) / 8\<close> wraps to 0: \<open>New\<close>
  succeeds with no bits at all, \<open>Add\<close> has no effect and every \<open>Test\<close> is negative.\<close>

lemma New_wraps:
  assumes "2 ^ 64 - 7 \<le> unat m" "k \<noteq> 0"
  shows "\<exists>f. bf_New m k = Ok f \<and> bf_bits f = [] \<and> (\<forall>xs x. \<not> bf_Test (foldl bf_Add f xs) x)"
proof -
  let ?f = "\<lparr>bf_m = m, bf_k = k, bf_bits = []\<rparr>"
  have "unat (m + 7) = unat m + 7 - 2 ^ 64"
    using assms(1) unat_less_u64 [of m] by (simp add: unat_word_ariths mod_if)
  then have "unat ((m + 7) div 8) = 0"
    using unat_less_u64 [of m] by (simp add: unat_div)
  moreover have "m \<noteq> 0" using assms(1) by auto
  ultimately have new: "bf_New m k = Ok ?f" using assms(2) by (simp add: bf_New_def)
  have add: "bf_Add g x = g" if "bf_bits g = []" for g x
  proof -
    have "bf_set g i = g" for i using that by (simp add: bf_set_def)
    then have "foldl (\<lambda>f i. bf_set f (Hash x i (bf_m f))) g is = g" for "is"
      by (induction "is") simp_all
    then show ?thesis by (simp add: bf_Add_def)
  qed
  have "foldl bf_Add ?f xs = ?f" for xs by (induction xs) (simp_all add: add)
  moreover have "\<not> bf_Test ?f x" for x
  proof -
    have "0 \<in> {..<k}" using assms(2) by (simp add: word_gt_0)
    then show ?thesis unfolding bf_Test_iff probes_def by auto
  qed
  ultimately show ?thesis using new by auto
qed

lemma New_wraps_witness:
  "\<exists>f. bf_New 0xFFFFFFFFFFFFFFFF 7 = Ok f \<and> bf_bits f = [] \<and> (\<forall>xs x. \<not> bf_Test (foldl bf_Add f xs) x)"
  by (rule New_wraps) simp_all

end
