(* ===== verification/Bloom_Ops.thy ===== *)
theory Bloom_Ops
  imports Bloom
begin

text \<open>
  \<open>internal/filter/ops.go\<close>: whole-filter operations. A pointer argument that may be nil is an
  \<open>option\<close>; an operation that changes its receiver returns the new receiver inside the outcome.
  The loops \<open>for i := range f.bits { f.bits[i] op= other.bits[i] }\<close> panic when \<open>other\<close> has
  fewer bytes, which \<open>bytewise\<close> keeps as a branch; for well-formed filters of equal \<open>m\<close> it is
  never taken. Every operation is then read off as a set operation on bit positions.
\<close>

section \<open>Operations\<close>

definition bf_Reset :: "BloomFilter \<Rightarrow> BloomFilter" where
  "bf_Reset f = f\<lparr>bf_bits := map (\<lambda>_. 0) (bf_bits f)\<rparr>"

definition bf_Clone :: "BloomFilter \<Rightarrow> BloomFilter" where
  "bf_Clone f = \<lparr>bf_m = bf_m f, bf_k = bf_k f, bf_bits = bf_bits f\<rparr>"

definition bytewise :: "(byte \<Rightarrow> byte \<Rightarrow> byte) \<Rightarrow> bytes \<Rightarrow> bytes \<Rightarrow> ('e, bytes) outcome" where
  "bytewise g a b = (if length b < length a then Panic else Ok (map2 g a b))"

fun bf_combine ::
  "(byte \<Rightarrow> byte \<Rightarrow> byte) \<Rightarrow> BloomFilter \<Rightarrow> BloomFilter option
     \<Rightarrow> (filter_error, BloomFilter) outcome" where
  "bf_combine g f None = Err ErrNilFilter"
| "bf_combine g f (Some h) =
     (if bf_m f \<noteq> bf_m h \<or> bf_k f \<noteq> bf_k h then Err ErrParamMismatch
      else and_then (bytewise g (bf_bits f) (bf_bits h)) (\<lambda>bs. Ok (f\<lparr>bf_bits := bs\<rparr>)))"

definition bf_Union :: "BloomFilter \<Rightarrow> BloomFilter option \<Rightarrow> (filter_error, BloomFilter) outcome" where
  "bf_Union = bf_combine (OR)"

definition bf_Intersection ::
  "BloomFilter \<Rightarrow> BloomFilter option \<Rightarrow> (filter_error, BloomFilter) outcome" where
  "bf_Intersection = bf_combine (AND)"

definition bf_Difference ::
  "BloomFilter \<Rightarrow> BloomFilter option \<Rightarrow> (filter_error, BloomFilter) outcome" where
  "bf_Difference = bf_combine (\<lambda>x y. x AND NOT y)"

definition bf_XOR :: "BloomFilter \<Rightarrow> BloomFilter option \<Rightarrow> (filter_error, BloomFilter) outcome" where
  "bf_XOR = bf_combine (XOR)"

fun bf_Equals :: "BloomFilter \<Rightarrow> BloomFilter option \<Rightarrow> bool" where
  "bf_Equals f None = False"
| "bf_Equals f (Some h) =
     (if bf_m f \<noteq> bf_m h \<or> bf_k f \<noteq> bf_k h then False
      else if length (bf_bits f) \<noteq> length (bf_bits h) then False
      else list_all2 (=) (bf_bits f) (bf_bits h))"

definition bf_IsEmpty :: "BloomFilter \<Rightarrow> bool" where
  "bf_IsEmpty f = list_all (\<lambda>b. b = 0) (bf_bits f)"

definition bf_PopCount :: "BloomFilter \<Rightarrow> nat" where
  "bf_PopCount f = foldl (\<lambda>cnt b. cnt + popcount b) 0 (bf_bits f)"

definition bf_SetBit :: "BloomFilter \<Rightarrow> u64 \<Rightarrow> (filter_error, BloomFilter) outcome" where
  "bf_SetBit f pos =
     (if pos \<ge> bf_m f then Ok f
      else let i = unat (pos div 8)
           in if i \<ge> length (bf_bits f) then Panic
              else Ok (f\<lparr>bf_bits := (bf_bits f)
                     [i := bf_bits f ! i OR push_bit (unat (pos mod 8)) 1]\<rparr>))"

definition bf_ClearBit :: "BloomFilter \<Rightarrow> u64 \<Rightarrow> (filter_error, BloomFilter) outcome" where
  "bf_ClearBit f pos =
     (if pos \<ge> bf_m f then Ok f
      else let i = unat (pos div 8)
           in if i \<ge> length (bf_bits f) then Panic
              else Ok (f\<lparr>bf_bits := (bf_bits f)
                     [i := bf_bits f ! i AND NOT (push_bit (unat (pos mod 8)) 1)]\<rparr>))"

definition bf_GetBit :: "BloomFilter \<Rightarrow> u64 \<Rightarrow> (filter_error, bool) outcome" where
  "bf_GetBit f pos =
     (if pos \<ge> bf_m f then Ok False
      else let i = unat (pos div 8)
           in if i \<ge> length (bf_bits f) then Panic
              else Ok (bf_bits f ! i AND push_bit (unat (pos mod 8)) 1 \<noteq> 0))"

section \<open>Combining two filters\<close>

lemma same_length:
  "wf_bloom f \<Longrightarrow> wf_bloom h \<Longrightarrow> bf_m f = bf_m h \<Longrightarrow> length (bf_bits f) = length (bf_bits h)"
  by (simp add: wf_bloom_def)

lemma bf_combine_Ok:
  assumes "wf_bloom f" "wf_bloom h" "bf_m f = bf_m h" "bf_k f = bf_k h"
  shows "bf_combine g f (Some h) = Ok (f\<lparr>bf_bits := map2 g (bf_bits f) (bf_bits h)\<rparr>)"
  using assms same_length [of f h] by (simp add: bytewise_def)

lemma bf_combine_OkD:
  assumes "bf_combine g f (Some h) = Ok u"
  shows "bf_m f = bf_m h" "bf_k f = bf_k h" "bf_m u = bf_m f" "bf_k u = bf_k f"
  using assms by (auto simp: and_then_Ok_iff split: if_splits)

text \<open>Combining well-formed filters ends with an error exactly on nil or a parameter mismatch.\<close>

lemma bf_combine_outcome:
  assumes "wf_bloom f" "\<And>h. other = Some h \<Longrightarrow> wf_bloom h"
  shows "case bf_combine g f other of
      Ok u \<Rightarrow> wf_bloom u \<and> (\<exists>h. other = Some h \<and> bf_m f = bf_m h \<and> bf_k f = bf_k h)
    | Err ErrNilFilter \<Rightarrow> other = None
    | Err ErrParamMismatch \<Rightarrow> (\<exists>h. other = Some h \<and> (bf_m f, bf_k f) \<noteq> (bf_m h, bf_k h))
    | Err _ \<Rightarrow> False
    | Panic \<Rightarrow> False"
proof (cases other)
  case None
  then show ?thesis by simp
next
  case (Some h)
  with assms have "wf_bloom h" by simp
  show ?thesis
  proof (cases "bf_m f = bf_m h \<and> bf_k f = bf_k h")
    case True
    with assms(1) \<open>wf_bloom h\<close> Some show ?thesis
      using bf_combine_Ok [of f h g] same_length [of f h] by (simp add: wf_bloom_def)
  next
    case False
    with Some show ?thesis by auto
  qed
qed

lemma bf_combine_wf [wf_intros]:
  "wf_bloom f \<Longrightarrow> wf_bloom h \<Longrightarrow> bf_combine g f (Some h) = Ok u \<Longrightarrow> wf_bloom u"
  using bf_combine_outcome [of f "Some h" g] by simp

lemma bf_combine_map2:
  assumes "wf_bloom f" "wf_bloom h" "bf_combine g f (Some h) = Ok u"
  shows "bf_bits u = map2 g (bf_bits f) (bf_bits h)" "length (bf_bits f) = length (bf_bits h)"
proof -
  note same = bf_combine_OkD [OF assms(3)]
  show "length (bf_bits f) = length (bf_bits h)"
    using assms(1,2) same(1) by (rule same_length)
  show "bf_bits u = map2 g (bf_bits f) (bf_bits h)"
    using assms(3) bf_combine_Ok [OF assms(1,2) same(1,2), of g] by auto
qed

lemma combine_bits:
  assumes "wf_bloom f" "wf_bloom h"
  shows "bf_Union f (Some h) = Ok u \<Longrightarrow>
      bits_of (bf_bits u) = bits_of (bf_bits f) \<union> bits_of (bf_bits h)"
    and "bf_Intersection f (Some h) = Ok u \<Longrightarrow>
      bits_of (bf_bits u) = bits_of (bf_bits f) \<inter> bits_of (bf_bits h)"
    and "bf_Difference f (Some h) = Ok u \<Longrightarrow>
      bits_of (bf_bits u) = bits_of (bf_bits f) - bits_of (bf_bits h)"
    and "bf_XOR f (Some h) = Ok u \<Longrightarrow> bits_of (bf_bits u)
      = (bits_of (bf_bits f) - bits_of (bf_bits h)) \<union> (bits_of (bf_bits h) - bits_of (bf_bits f))"
  unfolding bf_Union_def bf_Intersection_def bf_Difference_def bf_XOR_def
  using bf_combine_map2 [OF assms]
  by (simp_all only: bits_of_or bits_of_and bits_of_andnot bits_of_xor)

section \<open>Single-filter operations\<close>

lemma bf_Reset_bits: "bits_of (bf_bits (bf_Reset f)) = {}"
  by (auto simp: bf_Reset_def mem_bits_of)

lemma bf_Reset_wf [wf_intros]: "wf_bloom f \<Longrightarrow> wf_bloom (bf_Reset f)"
  by (simp add: bf_Reset_def wf_bloom_def)

lemma bf_Clone_eq: "bf_Clone f = f"
  by (simp add: bf_Clone_def)

lemma bf_Equals_iff: "bf_Equals f (Some h) \<longleftrightarrow> f = h"
  by (cases f; cases h) (auto simp: list.rel_eq)

lemma bf_IsEmpty_iff: "bf_IsEmpty f \<longleftrightarrow> bits_of (bf_bits f) = {}"
proof -
  have "bf_IsEmpty f \<longleftrightarrow> bf_bits f = replicate (length (bf_bits f)) 0"
    by (auto simp: bf_IsEmpty_def list_all_iff intro: replicate_eqI)
      (metis in_set_replicate)
  then show ?thesis
    using bits_of_inject [of "bf_bits f" "replicate (length (bf_bits f)) 0"] by simp
qed

lemma bf_PopCount_card: "bf_PopCount f = card (bits_of (bf_bits f))"
  by (simp add: bf_PopCount_def foldl_popcount)

lemma bf_PopCount_le: "clean_bloom f \<Longrightarrow> bf_PopCount f \<le> unat (bf_m f)"
  unfolding bf_PopCount_card clean_bloom_def
  by (metis card_lessThan card_mono finite_lessThan)

lemma single_bit_ops:
  assumes "wf_bloom f" "pos < bf_m f"
  shows "\<exists>g. bf_SetBit f pos = Ok g \<and> wf_bloom g
        \<and> bits_of (bf_bits g) = insert (unat pos) (bits_of (bf_bits f))"
    and "\<exists>g. bf_ClearBit f pos = Ok g \<and> wf_bloom g
        \<and> bits_of (bf_bits g) = bits_of (bf_bits f) - {unat pos}"
    and "bf_GetBit f pos = Ok (unat pos \<in> bits_of (bf_bits f))"
  using assms wf_bloom_room [OF assms] byte_index [OF wf_bloom_room [OF assms]]
    bits_of_set [of "unat pos" "bf_bits f"] bits_of_clear [of "unat pos" "bf_bits f"]
  by (auto simp: bf_SetBit_def bf_ClearBit_def bf_GetBit_def Let_def wf_bloom_def
      and_single_bit mem_bits_of)

lemma bit_255: "n < 8 \<Longrightarrow> bit (255 :: byte) n"
proof -
  have "mask 8 = (255 :: byte)" by (simp add: mask_eq_exp_minus_1)
  moreover have "bit (mask 8 :: byte) n" if "n < 8" using that by (simp add: bit_mask_iff)
  ultimately show "n < 8 \<Longrightarrow> bit (255 :: byte) n" by simp
qed

section \<open>Properties\<close>

text \<open>C25: On well-formed filters the binary operations fail exactly for a nil argument or
  different parameters, never panic, keep the invariant, and compute union, intersection,
  difference and symmetric difference of the sets of set bits.\<close>

theorem binary_operations:
  assumes "wf_bloom f" "wf_bloom h"
  shows "(if bf_m f = bf_m h \<and> bf_k f = bf_k h then
      \<exists>u i d x.
        bf_Union f (Some h) = Ok u \<and> bits_of (bf_bits u) = bits_of (bf_bits f) \<union> bits_of (bf_bits h)
      \<and> bf_Intersection f (Some h) = Ok i
      \<and> bits_of (bf_bits i) = bits_of (bf_bits f) \<inter> bits_of (bf_bits h)
      \<and> bf_Difference f (Some h) = Ok d
      \<and> bits_of (bf_bits d) = bits_of (bf_bits f) - bits_of (bf_bits h)
      \<and> bf_XOR f (Some h) = Ok x
      \<and> bits_of (bf_bits x) = (bits_of (bf_bits f) - bits_of (bf_bits h))
          \<union> (bits_of (bf_bits h) - bits_of (bf_bits f))
      \<and> list_all wf_bloom [u, i, d, x]
    else \<forall>oper \<in> {bf_Union, bf_Intersection, bf_Difference, bf_XOR}.
      oper f (Some h) = Err ErrParamMismatch \<and> oper f None = Err ErrNilFilter)"
proof (cases "bf_m f = bf_m h \<and> bf_k f = bf_k h")
  case True
  note ok = bf_combine_Ok [OF assms conjunct1 [OF True] conjunct2 [OF True]]
  show ?thesis
    unfolding if_P [OF True] bf_Union_def bf_Intersection_def bf_Difference_def bf_XOR_def ok
    using assms same_length [OF assms conjunct1 [OF True]]
    by (intro exI conjI, (rule refl | simp add: bitset_simps wf_bloom_def)+)
next
  case False
  then show ?thesis
    by (auto simp: bf_Union_def bf_Intersection_def bf_Difference_def bf_XOR_def)
qed

theorem binary_operations_witness:
  "bf_Union \<lparr>bf_m = 9, bf_k = 2, bf_bits = [1, 0]\<rparr> (Some \<lparr>bf_m = 9, bf_k = 3, bf_bits = [2, 0]\<rparr>)
    = Err ErrParamMismatch
   \<and> (\<exists>u. bf_Union \<lparr>bf_m = 9, bf_k = 2, bf_bits = [1, 0]\<rparr>
       (Some \<lparr>bf_m = 9, bf_k = 2, bf_bits = [2, 0]\<rparr>) = Ok u)"
proof -
  let ?f = "\<lparr>bf_m = 9, bf_k = 2, bf_bits = [1, 0]\<rparr>"
    and ?g = "\<lparr>bf_m = 9, bf_k = 3, bf_bits = [2, 0]\<rparr>"
    and ?h = "\<lparr>bf_m = 9, bf_k = 2, bf_bits = [2, 0]\<rparr>"
  have wf: "wf_bloom ?f" "wf_bloom ?g" "wf_bloom ?h" by (simp_all add: wf_bloom_def)
  show ?thesis
    using binary_operations [OF wf(1,2)] binary_operations [OF wf(1,3)] by (simp, blast)
qed

text \<open>C0: Taking the intersection tests exactly the items both filters report; the union reports
  every item of either; XOR with the same filter twice restores the receiver.\<close>

lemma Intersection_Test:
  assumes "wf_bloom f" "wf_bloom h" "bf_Intersection f (Some h) = Ok i"
  shows "bf_Test i x \<longleftrightarrow> bf_Test f x \<and> bf_Test h x"
proof -
  have "bf_m i = bf_m f" "bf_k i = bf_k f" "bf_m f = bf_m h" "bf_k f = bf_k h"
    using assms(3) unfolding bf_Intersection_def by (simp_all only: bf_combine_OkD)
  then show ?thesis using combine_bits(2) [OF assms] by (simp add: bf_Test_iff)
qed

lemma Union_Test:
  assumes "wf_bloom f" "wf_bloom h" "bf_Union f (Some h) = Ok u" "bf_Test f x \<or> bf_Test h x"
  shows "bf_Test u x"
proof -
  have "bf_m u = bf_m f" "bf_k u = bf_k f" "bf_m f = bf_m h" "bf_k f = bf_k h"
    using assms(3) unfolding bf_Union_def by (simp_all only: bf_combine_OkD)
  then show ?thesis using combine_bits(1) [OF assms(1-3)] assms(4) by (auto simp: bf_Test_iff)
qed

lemma XOR_involution:
  assumes "wf_bloom f" "wf_bloom h" "bf_XOR f (Some h) = Ok y"
  shows "bf_XOR y (Some h) = Ok f"
proof -
  note y = assms(3)
  note yD = bf_combine_OkD [OF y [unfolded bf_XOR_def]]
  have wf: "wf_bloom y"
    using y unfolding bf_XOR_def by (rule bf_combine_wf [OF assms(1,2)])
  obtain z where z: "bf_XOR y (Some h) = Ok z"
    using bf_combine_Ok [OF wf assms(2), of "(XOR)"] yD by (simp add: bf_XOR_def)
  have "wf_bloom z" using z unfolding bf_XOR_def by (rule bf_combine_wf [OF wf assms(2)])
  moreover have "abs_bloom z = abs_bloom f"
    using bf_combine_OkD [OF z [unfolded bf_XOR_def]] yD combine_bits(4) [OF assms(1,2) y]
      combine_bits(4) [OF wf assms(2) z]
    by (auto simp: abs_bloom_def)
  ultimately show ?thesis using assms(1) z by (simp add: abs_bloom_inject)
qed

text \<open>Taking the intersection tests exactly the items both filters report; the union reports
  every item of either; XOR with the same filter twice restores the receiver.\<close>

lemma combined_membership:
  assumes "wf_bloom f" "wf_bloom h"
    and "bf_Intersection f (Some h) = Ok i" "bf_Union f (Some h) = Ok u" "bf_XOR f (Some h) = Ok y"
  shows "(bf_Test i x \<longleftrightarrow> bf_Test f x \<and> bf_Test h x)
    \<and> (bf_Test f x \<or> bf_Test h x \<longrightarrow> bf_Test u x) \<and> bf_XOR y (Some h) = Ok f"
  using Intersection_Test [OF assms(1-3)] Union_Test [OF assms(1,2,4)]
    XOR_involution [OF assms(1,2,5)] by blast

lemma combined_membership_witness:
  "bf_XOR \<lparr>bf_m = 9, bf_k = 2, bf_bits = [1 XOR 3, 0]\<rparr> (Some \<lparr>bf_m = 9, bf_k = 2, bf_bits = [3, 0]\<rparr>)
    = Ok \<lparr>bf_m = 9, bf_k = 2, bf_bits = [1, 0]\<rparr>"
proof -
  let ?f = "\<lparr>bf_m = 9, bf_k = 2, bf_bits = [1, 0]\<rparr>" and ?h = "\<lparr>bf_m = 9, bf_k = 2, bf_bits = [3, 0]\<rparr>"
  have wf: "wf_bloom ?f" "wf_bloom ?h" by (simp_all add: wf_bloom_def)
  have "bf_Intersection ?f (Some ?h) = Ok (?f\<lparr>bf_bits := [1 AND 3, 0]\<rparr>)"
    "bf_Union ?f (Some ?h) = Ok (?f\<lparr>bf_bits := [1 OR 3, 0]\<rparr>)"
    "bf_XOR ?f (Some ?h) = Ok (?f\<lparr>bf_bits := [1 XOR 3, 0]\<rparr>)"
    by (simp_all add: bf_Intersection_def bf_Union_def bf_XOR_def bytewise_def)
  from combined_membership [OF wf this] show ?thesis by simp
qed

text \<open>\<open>PopCount\<close>, by Kernighan's loop on every byte, is the number of set positions; it is
  at most \<open>m\<close> when no padding bit is set, and exceeds \<open>m\<close> on a filter that \<open>NewFromParts\<close>
  accepts with padding bits set.\<close>

lemma PopCount_counts:
  "bf_PopCount f = card (bits_of (bf_bits f)) \<and> (clean_bloom f \<longrightarrow> bf_PopCount f \<le> unat (bf_m f))
    \<and> (\<exists>g. bf_NewFromParts 1 1 [255] = Ok g \<and> unat (bf_m g) < bf_PopCount g)"
proof (intro conjI impI)
  let ?g = "\<lparr>bf_m = 1, bf_k = 1, bf_bits = [255]\<rparr>"
  have "p \<in> bits_of [255] \<longleftrightarrow> p \<in> {..<8}" for p
  proof (cases "p < 8")
    case True
    then have "bit (255 :: byte) p" by (rule bit_255)
    with True show ?thesis by (simp add: mem_bits_of)
  qed (simp add: mem_bits_of)
  then have "bits_of [255] = {..<8}" by (rule set_eqI)
  then have "bf_PopCount ?g = 8" by (simp add: bf_PopCount_card)
  moreover have "bf_NewFromParts 1 1 [255] = Ok ?g" by (simp add: bf_NewFromParts_def)
  ultimately show "\<exists>g. bf_NewFromParts 1 1 [255] = Ok g \<and> unat (bf_m g) < bf_PopCount g" by auto
qed (simp_all add: bf_PopCount_card flip: bf_PopCount_card, simp add: bf_PopCount_le)

lemma PopCount_counts_witness:
  "bf_PopCount \<lparr>bf_m = 9, bf_k = 2, bf_bits = [1, 0]\<rparr> \<le> 9"
proof -
  have "clean_bloom \<lparr>bf_m = 9, bf_k = 2, bf_bits = [1, 0]\<rparr>"
    by (auto simp: clean_bloom_def mem_bits_of nth_Cons split: nat.splits)
  then show ?thesis
    using PopCount_counts [of "\<lparr>bf_m = 9, bf_k = 2, bf_bits = [1, 0]\<rparr>"] by simp
qed

end
