(* ===== verification/Codec.thy ===== *)
theory Codec
  imports Bloom_Ops
begin

text \<open>
  \<open>internal/codec\<close>: the two wire formats of a filter. \<open>Marshal\<close> writes version 2 (magic, version
  byte, \<open>m\<close>, \<open>k\<close>, bits, CRC-32), \<open>MarshalV1\<close> the legacy form without checksum; \<open>Unmarshal\<close>
  dispatches on the magic. A \<open>nil\<close> slice result is \<open>None\<close>. \<open>format.go\<close> adds \<open>Inspect\<close>,
  \<open>FormatString\<close>, \<open>Validate\<close> and \<open>ConvertV1ToV2\<close>.
\<close>

datatype codec_error =
    ErrTooShort | ErrBadMagic | ErrUnsupportedVersion | ErrCRCMismatch | ErrBitsTruncated
  | FilterErr filter_error

definition magicV1 :: u32 where "magicV1 = 0x424C4D01"
definition magicV2 :: u32 where "magicV2 = 0x424C4D02"

abbreviation (input) headerSizeV1 :: nat where "headerSizeV1 \<equiv> 12"
abbreviation (input) headerSizeV2 :: nat where "headerSizeV2 \<equiv> 13"
abbreviation (input) trailerV2 :: nat where "trailerV2 \<equiv> 4"

section \<open>Encoding (codec.go)\<close>

definition payloadV2 :: "BloomFilter \<Rightarrow> bytes" where
  "payloadV2 f = put_be32 magicV2 @ [2] @ put_be32 (ucast (bf_m f)) @ put_be32 (ucast (bf_k f))
     @ bf_bits f"

fun Marshal :: "BloomFilter option \<Rightarrow> bytes option" where
  "Marshal None = None"
| "Marshal (Some f) = Some (payloadV2 f @ put_be32 (crc32_ieee (payloadV2 f)))"

fun MarshalV1 :: "BloomFilter option \<Rightarrow> bytes option" where
  "MarshalV1 None = None"
| "MarshalV1 (Some f) =
     Some (put_be32 magicV1 @ put_be32 (ucast (bf_m f)) @ put_be32 (ucast (bf_k f)) @ bf_bits f)"

section \<open>Decoding (codec.go)\<close>

definition unmarshalV1 :: "bytes \<Rightarrow> (codec_error, BloomFilter) outcome" where
  "unmarshalV1 b =
     (if length b < headerSizeV1 then Err ErrTooShort
      else let m = ucast (be32 (subslice b 4 8));
               k = ucast (be32 (subslice b 8 12));
               bits = drop headerSizeV1 b;
               need = (m + 7) div 8
           in if length bits \<noteq> unat need then Err ErrBitsTruncated
              else wrap_err FilterErr (bf_NewFromParts m k bits))"

definition unmarshalV2 :: "bytes \<Rightarrow> (codec_error, BloomFilter) outcome" where
  "unmarshalV2 b =
     (if length b < headerSizeV2 + trailerV2 then Err ErrTooShort
      else if b ! 4 \<noteq> 2 then Err ErrUnsupportedVersion
      else let m = ucast (be32 (subslice b 5 9));
               k = ucast (be32 (subslice b 9 13));
               need = (m + 7) div 8;
               bitsEnd = headerSizeV2 + unat need
           in if length b < bitsEnd + trailerV2 then Err ErrBitsTruncated
              else let payload = take bitsEnd b;
                       stored = be32 (subslice b bitsEnd (bitsEnd + trailerV2));
                       computed = crc32_ieee payload
                   in if stored \<noteq> computed then Err ErrCRCMismatch
                      else wrap_err FilterErr (bf_NewFromParts m k (subslice b headerSizeV2 bitsEnd)))"

definition Unmarshal :: "bytes \<Rightarrow> (codec_error, BloomFilter) outcome" where
  "Unmarshal b =
     (if length b < 4 then Err ErrTooShort
      else let magic = be32 (subslice b 0 4)
           in if magic = magicV1 then unmarshalV1 b
              else if magic = magicV2 then unmarshalV2 b
              else Err ErrBadMagic)"

definition Version :: "bytes \<Rightarrow> (codec_error, int) outcome" where
  "Version b =
     (if length b < 4 then Err ErrTooShort
      else let magic = be32 (subslice b 0 4)
           in if magic = magicV1 then Ok 1
              else if magic = magicV2 then Ok 2
              else Err ErrBadMagic)"

section \<open>Inspection and conversion (format.go)\<close>

record FormatInfo =
  fi_Version :: int
  fi_HeaderSize :: nat
  fi_HasCRC :: bool
  fi_M :: u64
  fi_K :: u64
  fi_BitsLen :: nat
  fi_TotalLen :: nat

definition inspectV1 :: "bytes \<Rightarrow> (codec_error, FormatInfo) outcome" where
  "inspectV1 b =
     (if length b < headerSizeV1 then Err ErrTooShort
      else let m = ucast (be32 (subslice b 4 8));
               k = ucast (be32 (subslice b 8 12));
               bitsLen = length b - headerSizeV1
           in Ok \<lparr>fi_Version = 1, fi_HeaderSize = headerSizeV1, fi_HasCRC = False, fi_M = m,
                 fi_K = k, fi_BitsLen = bitsLen, fi_TotalLen = length b\<rparr>)"

definition inspectV2 :: "bytes \<Rightarrow> (codec_error, FormatInfo) outcome" where
  "inspectV2 b =
     (if length b < headerSizeV2 + trailerV2 then Err ErrTooShort
      else let m = ucast (be32 (subslice b 5 9));
               k = ucast (be32 (subslice b 9 13));
               bitsLen = unat ((m + 7) div 8)
           in Ok \<lparr>fi_Version = 2, fi_HeaderSize = headerSizeV2, fi_HasCRC = True, fi_M = m,
                 fi_K = k, fi_BitsLen = bitsLen, fi_TotalLen = length b\<rparr>)"

definition Inspect :: "bytes \<Rightarrow> (codec_error, FormatInfo) outcome" where
  "Inspect b =
     (if length b < 4 then Err ErrTooShort
      else let magic = be32 (subslice b 0 4)
           in if magic = magicV1 then inspectV1 b
              else if magic = magicV2 then inspectV2 b
              else Err ErrBadMagic)"

text \<open>
  \<open>FormatString\<close>: \<open>%d\<close> of a number that is not negative is its decimal digits, \<open>%v\<close> of a boolean is
  \<open>true\<close> or \<open>false\<close>, and \<open>%v\<close> of an error is its text.
\<close>

fun decimal :: "nat \<Rightarrow> string" where
  "decimal n = (if n < 10 then [char_of (48 + n)] else decimal (n div 10) @ [char_of (48 + n mod 10)])"

declare decimal.simps [simp del]

fun error_text :: "codec_error \<Rightarrow> string" where
  "error_text ErrTooShort = ''codec: input too short''"
| "error_text ErrBadMagic = ''codec: bad magic''"
| "error_text ErrUnsupportedVersion = ''codec: unsupported version''"
| "error_text ErrCRCMismatch = ''codec: CRC mismatch (data corrupted)''"
| "error_text ErrBitsTruncated = ''codec: bits section truncated''"
| "error_text (FilterErr ErrInvalidParams) = ''filter: m and k must be > 0''"
| "error_text (FilterErr ErrBitsLength) = ''filter: bits length mismatch''"
| "error_text (FilterErr ErrNilFilter) = ''filter: nil filter''"
| "error_text (FilterErr ErrParamMismatch) = ''filter: filters must have same m and k''"

definition FormatString :: "bytes \<Rightarrow> (codec_error, string) outcome" where
  "FormatString b =
     (case Inspect b of
        Err e \<Rightarrow> Ok (''invalid: '' @ error_text e)
      | Panic \<Rightarrow> Panic
      | Ok info \<Rightarrow> Ok (''v'' @ decimal (nat (fi_Version info)) @ '' m='' @ decimal (unat (fi_M info))
          @ '' k='' @ decimal (unat (fi_K info)) @ '' bits='' @ decimal (fi_BitsLen info)
          @ '' bytes='' @ decimal (fi_TotalLen info)
          @ '' crc='' @ (if fi_HasCRC info then ''true'' else ''false'')))"

definition Validate :: "bytes \<Rightarrow> (codec_error, unit) outcome" where
  "Validate b = and_then (Unmarshal b) (\<lambda>_. Ok ())"

definition ConvertV1ToV2 :: "bytes \<Rightarrow> (codec_error, bytes option) outcome" where
  "ConvertV1ToV2 b =
     (if length b < 4 then Err ErrTooShort
      else let magic = be32 (subslice b 0 4)
           in if magic = magicV2 then Ok (Some b)
              else if magic \<noteq> magicV1 then Err ErrBadMagic
              else and_then (unmarshalV1 b) (\<lambda>f. Ok (Marshal (Some f))))"

section \<open>The fields of an encoded filter\<close>

lemma slice_put_be32 [simp]: "subslice (put_be32 v @ r) 0 4 = put_be32 v" "subslice (put_be32 v) 0 4 = put_be32 v"
  by (simp_all add: subslice_all)

lemma magic_distinct [simp]: "magicV1 \<noteq> magicV2" "magicV2 \<noteq> magicV1"
  by (simp_all add: magicV1_def magicV2_def)

lemma unat_u64_ucast_u32: "unat (m :: u64) < 2 ^ 32 \<Longrightarrow> (ucast (ucast m :: u32) :: u64) = m"
  by (rule word_unat_eq_iff [THEN iffD2])
    (simp add: unsigned_ucast_eq unsigned_take_bit_eq take_bit_nat_eq_self_iff)

lemma ucast_u32_bound: "unat (ucast (w :: u32) :: u64) < 2 ^ 32"
  using unat_less_u32 [of w] by simp

lemma length_payloadV2 [simp]: "length (payloadV2 f) = headerSizeV2 + length (bf_bits f)"
  by (simp add: payloadV2_def)

lemma payloadV2_fields:
  "subslice (payloadV2 f @ r) 0 4 = put_be32 magicV2"
  "(payloadV2 f @ r) ! 4 = 2"
  "subslice (payloadV2 f @ r) 5 9 = put_be32 (ucast (bf_m f))"
  "subslice (payloadV2 f @ r) 9 13 = put_be32 (ucast (bf_k f))"
  "subslice (payloadV2 f @ r) 13 (13 + length (bf_bits f)) = bf_bits f"
  by (simp_all add: payloadV2_def nth_append subslice_all)

section \<open>Round trips\<close>

definition fits32 :: "BloomFilter \<Rightarrow> bool" where
  "fits32 f \<longleftrightarrow> unat (bf_m f) < 2 ^ 32 \<and> unat (bf_k f) < 2 ^ 32"

lemma fits32_fields:
  assumes "fits32 f"
  shows "(ucast (ucast (bf_m f) :: u32) :: u64) = bf_m f"
    and "(ucast (ucast (bf_k f) :: u32) :: u64) = bf_k f"
    and "unat (bf_m f) < 2 ^ 64 - 7"
  using assms by (simp_all add: fits32_def unat_u64_ucast_u32)

lemma wf_need: "wf_bloom f \<Longrightarrow> fits32 f \<Longrightarrow> unat ((bf_m f + 7) div 8) = length (bf_bits f)"
  using need_bytes [OF fits32_fields(3), of f] by (simp add: wf_bloom_def)

lemma unmarshalV2_payload:
  assumes "wf_bloom f" "fits32 f"
  shows "unmarshalV2 (payloadV2 f @ put_be32 c @ junk)
    = (if c = crc32_ieee (payloadV2 f) then Ok f else Err ErrCRCMismatch)"
  using payloadV2_fields [of f "put_be32 c @ junk"] fits32_fields [OF assms(2)] wf_need [OF assms]
    bf_NewFromParts_id [OF assms(1) fits32_fields(3) [OF assms(2)]]
  by (auto simp: unmarshalV2_def Let_def)

lemma Unmarshal_v2: "4 \<le> length b \<Longrightarrow> subslice b 0 4 = put_be32 magicV2 \<Longrightarrow> Unmarshal b = unmarshalV2 b"
  by (simp add: Unmarshal_def Let_def)

lemma Unmarshal_Marshal:
  assumes "wf_bloom f" "fits32 f" "Marshal (Some f) = Some b"
  shows "Unmarshal (b @ junk) = Ok f"
  using unmarshalV2_payload [OF assms(1,2)] assms(3)
  by (auto simp: Unmarshal_v2 payloadV2_fields)

text \<open>Every proper prefix of an encoding is refused.\<close>

lemma subslice_take: "j \<le> n \<Longrightarrow> subslice (take n b) i j = subslice b i j"
  by (rule nth_equalityI) (auto simp: subslice_def nth_take nth_drop less_diff_conv add.commute)

lemma Unmarshal_prefix:
  assumes "wf_bloom f" "fits32 f" "Marshal (Some f) = Some b" "n < length b"
  shows "\<exists>e. Unmarshal (take n b) = Err e"
proof (cases "n < 17")
  case True
  have "subslice (take n b) 0 4 = put_be32 magicV2" if "4 \<le> n"
    using assms(3) that payloadV2_fields(1) [of f] by (auto simp: subslice_take)
  then show ?thesis
    using True assms(4) by (cases "n < 4") (simp_all add: Unmarshal_def Unmarshal_v2 unmarshalV2_def)
next
  case False
  let ?r = "put_be32 (crc32_ieee (payloadV2 f))"
  have b: "b = payloadV2 f @ ?r" using assms(3) by simp
  have fields: "subslice (take n b) 0 4 = put_be32 magicV2" "take n b ! 4 = 2"
      "subslice (take n b) 5 9 = put_be32 (ucast (bf_m f))"
    using False payloadV2_fields(1-3) [of f ?r] by (simp_all add: b subslice_take del: take_append)
  have trunc: "unmarshalV2 c = Err ErrBitsTruncated"
    if "length c = n" "c ! 4 = 2" "subslice c 5 9 = put_be32 (ucast (bf_m f))" for c
    using that False assms(4) b fits32_fields(1) [OF assms(2)] wf_need [OF assms(1,2)]
    by (simp add: unmarshalV2_def Let_def)
  have "unmarshalV2 (take n b) = Err ErrBitsTruncated"
    using trunc [OF _ fields(2,3)] assms(4) by simp
  then show ?thesis using fields(1) False assms(4) by (simp add: Unmarshal_v2)
qed

lemma unmarshalV1_MarshalV1:
  assumes "wf_bloom f" "fits32 f" "MarshalV1 (Some f) = Some b"
  shows "unmarshalV1 b = Ok f"
  using assms(3) fits32_fields [OF assms(2)] wf_need [OF assms(1,2)]
    bf_NewFromParts_id [OF assms(1) fits32_fields(3) [OF assms(2)]]
  by (auto simp: unmarshalV1_def Let_def subslice_all)

lemma MarshalV1_magic: "MarshalV1 (Some f) = Some b \<Longrightarrow> 12 \<le> length b \<and> be32 (subslice b 0 4) = magicV1"
  by auto

lemma Unmarshal_MarshalV1:
  assumes "wf_bloom f" "fits32 f" "MarshalV1 (Some f) = Some b"
  shows "Unmarshal b = Ok f"
  using unmarshalV1_MarshalV1 [OF assms] MarshalV1_magic [OF assms(3)]
  by (simp add: Unmarshal_def Let_def)

section \<open>What the decoder accepts\<close>

lemma ucast_u32_room: "unat (ucast (w :: u32) :: u64) < 2 ^ 64 - 7"
  using unat_less_u32 [of w] by simp

lemma unmarshalV1_OkD:
  assumes "unmarshalV1 b = Ok f"
  shows "bf_m f = ucast (be32 (subslice b 4 8))" "bf_k f = ucast (be32 (subslice b 8 12))"
    "bf_bits f = drop 12 b" "12 \<le> length b" "wf_bloom f"
  using assms bf_NewFromParts_wf [OF _ ucast_u32_room]
  by (auto simp: unmarshalV1_def Let_def split: if_splits)

lemma unmarshalV2_OkD:
  assumes "unmarshalV2 b = Ok f"
  shows "bf_m f = ucast (be32 (subslice b 5 9))" "bf_k f = ucast (be32 (subslice b 9 13))"
    "bf_bits f = subslice b 13 (13 + length (bf_bits f))"
    "13 + length (bf_bits f) + 4 \<le> length b" "b ! 4 = 2"
    "be32 (subslice b (13 + length (bf_bits f)) (13 + length (bf_bits f) + 4))
       = crc32_ieee (take (13 + length (bf_bits f)) b)"
    "wf_bloom f"
proof -
  let ?m = "ucast (be32 (subslice b 5 9)) :: u64"
  let ?k = "ucast (be32 (subslice b 9 13)) :: u64"
  let ?fin = "13 + unat ((?m + 7) div 8)"
  from assms have ok: "bf_NewFromParts ?m ?k (subslice b 13 ?fin) = Ok f"
    and len: "?fin + 4 \<le> length b" and ver: "b ! 4 = 2"
    and crc: "be32 (subslice b ?fin (?fin + 4)) = crc32_ieee (take ?fin b)"
    by (auto simp: unmarshalV2_def Let_def split: if_splits)
  note parts = bf_NewFromParts_wf [OF ok ucast_u32_room]
  from parts(4) len have n: "length (bf_bits f) = unat ((?m + 7) div 8)" by simp
  show "bf_m f = ?m" "bf_k f = ?k" "wf_bloom f" by (rule parts)+
  show "bf_bits f = subslice b 13 (13 + length (bf_bits f))" using parts(4) n by simp
  show "13 + length (bf_bits f) + 4 \<le> length b" using len n by simp
  show "b ! 4 = 2" by (rule ver)
  show "be32 (subslice b (13 + length (bf_bits f)) (13 + length (bf_bits f) + 4))
      = crc32_ieee (take (13 + length (bf_bits f)) b)" using crc n by simp
qed

lemma Unmarshal_cases:
  assumes "Unmarshal b = Ok f"
  obtains (v1) "be32 (subslice b 0 4) = magicV1" "unmarshalV1 b = Ok f" "Version b = Ok 1"
    | (v2) "be32 (subslice b 0 4) = magicV2" "unmarshalV2 b = Ok f" "Version b = Ok 2"
  using assms by (auto simp: Unmarshal_def Version_def Let_def split: if_splits)

lemma Unmarshal_wf:
  assumes "Unmarshal b = Ok f"
  shows "wf_bloom f \<and> fits32 f"
  using assms
proof (cases rule: Unmarshal_cases)
  case v1
  then show ?thesis using unmarshalV1_OkD [OF v1(2)] ucast_u32_bound by (simp add: fits32_def)
next
  case v2
  then show ?thesis using unmarshalV2_OkD [OF v2(2)] ucast_u32_bound by (simp add: fits32_def)
qed

lemma subslice_split:
  assumes "i \<le> j" "j \<le> n"
  shows "subslice b i n = subslice b i j @ subslice b j n"
proof -
  have "n - i = (j - i) + (n - j)" using assms by simp
  then have "subslice b i n = take (j - i) (drop i b) @ take (n - j) (drop (j - i) (drop i b))"
    by (simp only: subslice_def take_add)
  then show ?thesis using assms by (simp add: subslice_def)
qed

lemma ucast_u64_back: "(ucast (ucast (w :: u32) :: u64) :: u32) = w"
  by (rule bit_word_eqI) (auto simp: bit_simps)

lemma put_ucast_be32:
  "length a = 4 \<Longrightarrow> put_be32 (ucast (ucast (be32 a) :: u64)) = a"
  by (simp add: put_be32_be32 ucast_u64_back)

text \<open>
  The decoders are injective up to what follows the encoding: an accepted version 2 input is
  the encoding of the result, followed by bytes that were not read; an accepted version 1
  input is exactly the encoding of the result.
\<close>

lemma decode_then_encode_v2:
  assumes "Unmarshal b = Ok f" "Version b = Ok 2"
  shows "\<exists>junk. b = the (Marshal (Some f)) @ junk"
  using assms(1)
proof (cases rule: Unmarshal_cases)
  case v1
  with assms(2) show ?thesis by simp
next
  case v2
  note d = unmarshalV2_OkD [OF v2(2)]
  let ?n = "13 + length (bf_bits f)"
  have magic: "subslice b 0 4 = put_be32 magicV2"
    using v2(1) d(4) put_be32_be32 [of "subslice b 0 4"] by simp
  have ver: "subslice b 4 5 = [2]"
    using d(4,5) by (simp add: subslice_def take_Suc_conv_app_nth hd_drop_conv_nth take_Suc)
  have "take ?n b = subslice b 0 4 @ subslice b 4 5 @ subslice b 5 9 @ subslice b 9 13
      @ subslice b 13 ?n"
    using subslice_split [of 0 4 ?n b] subslice_split [of 4 5 ?n b] subslice_split [of 5 9 ?n b]
      subslice_split [of 9 13 ?n b]
    by (simp add: subslice_def)
  also have "\<dots> = payloadV2 f"
    using magic ver d(1-4) by (simp add: payloadV2_def put_ucast_be32)
  finally have pay: "take ?n b = payloadV2 f" .
  have "put_be32 (crc32_ieee (take ?n b)) = subslice b ?n (?n + 4)"
    using d(4,6) put_be32_be32 [of "subslice b ?n (?n + 4)"] by simp
  then have "the (Marshal (Some f)) = subslice b 0 (?n + 4)"
    using pay subslice_split [of 0 ?n "?n + 4" b] by (simp add: subslice_def)
  then have "b = the (Marshal (Some f)) @ drop (?n + 4) b"
    by (simp add: subslice_def)
  then show ?thesis by blast
qed

lemma decode_then_encode_v1:
  assumes "Unmarshal b = Ok f" "Version b = Ok 1"
  shows "MarshalV1 (Some f) = Some b"
  using assms(1)
proof (cases rule: Unmarshal_cases)
  case v2
  with assms(2) show ?thesis by simp
next
  case v1
  note d = unmarshalV1_OkD [OF v1(2)]
  have magic: "subslice b 0 4 = put_be32 magicV1"
    using v1(1) d(4) put_be32_be32 [of "subslice b 0 4"] by simp
  have "b = subslice b 0 12 @ drop 12 b"
    by (simp add: subslice_def)
  also have "subslice b 0 12 = subslice b 0 4 @ subslice b 4 8 @ subslice b 8 12"
    using subslice_split [of 0 4 12 b] subslice_split [of 4 8 12 b] by simp
  finally show ?thesis using magic d(1-4) by (simp add: put_ucast_be32)
qed

section \<open>Corruption\<close>

text \<open>
  Changing one byte after the version byte and the \<open>m\<close> field of a version 2 encoding makes
  the stored and the computed checksum differ.
\<close>

lemma list_update_split: "i < length xs \<Longrightarrow> xs[i := y] = take i xs @ y # drop (Suc i) xs"
  by (rule upd_conv_take_nth_drop)

lemma crc_update_detected:
  "i < length p \<Longrightarrow> y \<noteq> p ! i \<Longrightarrow> crc32_ieee (p[i := y]) \<noteq> crc32_ieee p"
  using crc32_substitution [of y "p ! i" "take i p" "drop (Suc i) p"]
  by (simp add: list_update_split id_take_nth_drop [symmetric])

lemma put_be32_inject [simp]: "put_be32 v = put_be32 w \<longleftrightarrow> v = w"
  by (metis be32_put_be32_exact)

lemma Unmarshal_corrupt:
  assumes "wf_bloom f" "fits32 f" "Marshal (Some f) = Some b"
    and i: "9 \<le> i" "i < length b" and y: "y \<noteq> b ! i"
  shows "Unmarshal (b[i := y]) = Err ErrCRCMismatch"
proof -
  let ?p = "payloadV2 f" and ?b = "b[i := y]"
  let ?n = "13 + length (bf_bits f)"
  have b: "b = ?p @ put_be32 (crc32_ieee ?p)" using assms(3) by simp
  have same: "subslice ?b 0 4 = put_be32 magicV2" "?b ! 4 = 2"
    "subslice ?b 5 9 = put_be32 (ucast (bf_m f))"
    using i payloadV2_fields [of f "put_be32 (crc32_ieee ?p)"]
    by (simp_all add: subslice_update_outside b)
  have "be32 (subslice ?b ?n (?n + 4)) \<noteq> crc32_ieee (take ?n ?b)"
  proof (cases "i < ?n")
    case True
    then have "?b = ?p[i := y] @ put_be32 (crc32_ieee ?p)" "y \<noteq> ?p ! i"
      using y by (simp_all add: b list_update_append nth_append)
    then show ?thesis using crc_update_detected [of i ?p y] True by auto
  next
    case False
    then have eq: "?b = ?p @ (put_be32 (crc32_ieee ?p))[i - ?n := y]"
      by (simp add: b list_update_append)
    have "i - ?n < length (put_be32 (crc32_ieee ?p))" "put_be32 (crc32_ieee ?p) ! (i - ?n) \<noteq> y"
      using False i(2) y by (auto simp: b nth_append)
    then have "(put_be32 (crc32_ieee ?p))[i - ?n := y] \<noteq> put_be32 (crc32_ieee ?p)"
      by (metis nth_list_update_eq)
    then have "be32 ((put_be32 (crc32_ieee ?p))[i - ?n := y]) \<noteq> crc32_ieee ?p"
      by (metis length_list_update length_put_be32 put_be32_be32)
    then show ?thesis by (simp add: eq subslice_all)
  qed
  moreover have "length ?b = ?n + 4" by (simp add: b)
  ultimately have "unmarshalV2 ?b = Err ErrCRCMismatch"
    using same(2,3) fits32_fields [OF assms(2)] wf_need [OF assms(1,2)]
    by (auto simp: unmarshalV2_def Let_def)
  then show ?thesis using same(1) by (simp add: Unmarshal_v2 b)
qed

section \<open>Inspection and conversion\<close>

lemma Inspect_v1: "4 \<le> length b \<Longrightarrow> be32 (subslice b 0 4) = magicV1 \<Longrightarrow> Inspect b = inspectV1 b"
  by (simp add: Inspect_def Let_def)

lemma Inspect_v2: "4 \<le> length b \<Longrightarrow> be32 (subslice b 0 4) = magicV2 \<Longrightarrow> Inspect b = inspectV2 b"
  by (simp add: Inspect_def Let_def)

lemma Unmarshal_no_panic: "Unmarshal b \<noteq> Panic"
  by (auto simp: Unmarshal_def unmarshalV1_def unmarshalV2_def bf_NewFromParts_def Let_def)

text \<open>The decimal digits can be read back.\<close>

lemma decimal_value: "foldl (\<lambda>v c. 10 * v + (of_char c - 48)) 0 (decimal n) = n"
proof (induction n rule: decimal.induct)
  case (1 n)
  show ?case
  proof (cases "n < 10")
    case True
    then show ?thesis by (simp add: decimal.simps [of n])
  next
    case False
    then have "foldl (\<lambda>v c. 10 * v + (of_char c - 48)) 0 (decimal n)
        = 10 * (n div 10) + n mod 10"
      using 1 by (simp add: decimal.simps [of n])
    then show ?thesis by simp
  qed
qed

lemma decimal_inj: "decimal m = decimal n \<Longrightarrow> m = n"
  using decimal_value by metis

lemma FormatString_no_panic: "FormatString b \<noteq> Panic"
  by (auto simp: FormatString_def Inspect_def inspectV1_def inspectV2_def Let_def split: outcome.split)

lemma Inspect_Unmarshal:
  assumes "Unmarshal b = Ok f"
  shows "\<exists>info. Inspect b = Ok info \<and> Version b = Ok (fi_Version info)
    \<and> fi_M info = bf_m f \<and> fi_K info = bf_k f \<and> fi_BitsLen info = length (bf_bits f)
    \<and> fi_TotalLen info = length b"
  using assms
proof (cases rule: Unmarshal_cases)
  case v1
  note d = unmarshalV1_OkD [OF v1(2)]
  have "Inspect b = inspectV1 b" using d(4) v1(1) by (intro Inspect_v1) simp_all
  then show ?thesis using d v1(3) by (simp add: inspectV1_def Let_def)
next
  case v2
  note d = unmarshalV2_OkD [OF v2(2)]
  have "Inspect b = inspectV2 b" using d(4) v2(1) by (intro Inspect_v2) simp_all
  moreover have "wf_bloom f" "fits32 f" using Unmarshal_wf [OF assms] by simp_all
  ultimately show ?thesis
    using d(1,2,4) v2(3) wf_need [of f] by (simp add: inspectV2_def Let_def)
qed

lemma ConvertV1ToV2_v1:
  assumes "wf_bloom f" "fits32 f" "MarshalV1 (Some f) = Some b"
  shows "ConvertV1ToV2 b = Ok (Marshal (Some f))"
  using unmarshalV1_MarshalV1 [OF assms] MarshalV1_magic [OF assms(3)]
  by (simp add: ConvertV1ToV2_def Let_def)

lemma ConvertV1ToV2_v2: "Marshal (Some f) = Some b \<Longrightarrow> ConvertV1ToV2 b = Ok (Some b)"
  by (auto simp: ConvertV1ToV2_def Let_def payloadV2_fields)

section \<open>Properties\<close>

text \<open>C8: A well-formed filter survives encoding and decoding exactly when \<open>m\<close> and \<open>k\<close> fit the
  32-bit fields of the format; bytes after the encoding are ignored.\<close>

theorem codec_roundtrip:
  assumes "wf_bloom f" "Marshal (Some f) = Some b"
  shows "Unmarshal (b @ junk) = Ok f \<longleftrightarrow> fits32 f"
  using Unmarshal_Marshal [OF assms(1) _ assms(2)] Unmarshal_wf [of "b @ junk" f] by blast

theorem codec_roundtrip_witness:
  "Unmarshal (the (Marshal (Some \<lparr>bf_m = 9, bf_k = 2, bf_bits = [1, 0]\<rparr>)) @ [7, 7])
    = Ok \<lparr>bf_m = 9, bf_k = 2, bf_bits = [1, 0]\<rparr>"
  using codec_roundtrip [of "\<lparr>bf_m = 9, bf_k = 2, bf_bits = [1, 0]\<rparr>" _ "[7, 7]"]
  by (simp add: wf_bloom_def fits32_def)

text \<open>C7: Whatever the input, decoding does not panic; an accepted input gives a well-formed
  filter and is the encoding of that filter in the version it announces, followed in version 2
  by bytes that were not read.\<close>

theorem Unmarshal_sound:
  "Unmarshal b \<noteq> Panic \<and> (Unmarshal b = Ok f \<longrightarrow> wf_bloom f \<and> fits32 f
    \<and> (Version b = Ok 1 \<and> MarshalV1 (Some f) = Some b
      \<or> Version b = Ok 2 \<and> (\<exists>junk. b = the (Marshal (Some f)) @ junk)))"
proof (intro conjI impI)
  assume ok: "Unmarshal b = Ok f"
  then show "wf_bloom f" "fits32 f" by (simp_all add: Unmarshal_wf)
  from ok show "Version b = Ok 1 \<and> MarshalV1 (Some f) = Some b
      \<or> Version b = Ok 2 \<and> (\<exists>junk. b = the (Marshal (Some f)) @ junk)"
    by (cases rule: Unmarshal_cases) (use decode_then_encode_v1 decode_then_encode_v2 ok in blast)+
qed (rule Unmarshal_no_panic)

theorem Unmarshal_sound_witness:
  "wf_bloom \<lparr>bf_m = 9, bf_k = 2, bf_bits = [1, 0]\<rparr>"
proof -
  let ?f = "\<lparr>bf_m = 9, bf_k = 2, bf_bits = [1, 0]\<rparr>"
  have "Unmarshal (the (Marshal (Some ?f)) @ []) = Ok ?f"
    by (rule Unmarshal_Marshal) (simp_all add: wf_bloom_def fits32_def)
  then show ?thesis using Unmarshal_sound [of "the (Marshal (Some ?f)) @ []" ?f] by blast
qed

text \<open>C29: Changing any one byte of a version 2 encoding from the \<open>k\<close> field on, checksum
  included, makes the decoder report the checksum error.\<close>

theorem corruption_detected:
  assumes "wf_bloom f" "fits32 f" "Marshal (Some f) = Some b"
    and "9 \<le> i" "i < length b" "y \<noteq> b ! i"
  shows "Unmarshal (b[i := y]) = Err ErrCRCMismatch"
  by (rule Unmarshal_corrupt [OF assms])

theorem corruption_detected_witness:
  "Unmarshal ((the (Marshal (Some \<lparr>bf_m = 9, bf_k = 2, bf_bits = [1, 0]\<rparr>)))[13 := 3])
    = Err ErrCRCMismatch"
  by (rule corruption_detected [of "\<lparr>bf_m = 9, bf_k = 2, bf_bits = [1, 0]\<rparr>"])
    (simp_all add: wf_bloom_def fits32_def payloadV2_def put_be32_def nth_append)

text \<open>Legacy files: the version 1 encoding of a filter decodes to it, converts to its version 2
  encoding, and converting that again changes nothing.\<close>

lemma legacy_conversion:
  assumes "wf_bloom f" "fits32 f" "MarshalV1 (Some f) = Some b"
  shows "Unmarshal b = Ok f \<and> ConvertV1ToV2 b = Ok (Marshal (Some f))
    \<and> ConvertV1ToV2 (the (Marshal (Some f))) = Ok (Marshal (Some f))"
  using Unmarshal_MarshalV1 [OF assms] ConvertV1ToV2_v1 [OF assms] ConvertV1ToV2_v2 [of f]
  by simp

lemma legacy_conversion_witness:
  "Unmarshal (the (MarshalV1 (Some \<lparr>bf_m = 9, bf_k = 2, bf_bits = [1, 0]\<rparr>)))
    = Ok \<lparr>bf_m = 9, bf_k = 2, bf_bits = [1, 0]\<rparr>"
  using legacy_conversion [of "\<lparr>bf_m = 9, bf_k = 2, bf_bits = [1, 0]\<rparr>"]
  by (simp add: wf_bloom_def fits32_def)

text \<open>\<open>Inspect\<close>, which reads only the header, tells of every decodable input the version,
  parameters and sizes of the filter that decoding it gives.\<close>

lemma Inspect_agrees:
  assumes "Unmarshal b = Ok f"
  shows "\<exists>info. Inspect b = Ok info \<and> Version b = Ok (fi_Version info)
    \<and> fi_M info = bf_m f \<and> fi_K info = bf_k f \<and> fi_BitsLen info = length (bf_bits f)
    \<and> fi_TotalLen info = length b"
  by (rule Inspect_Unmarshal [OF assms])

lemma Inspect_agrees_witness:
  "\<exists>info. Inspect (the (Marshal (Some \<lparr>bf_m = 9, bf_k = 2, bf_bits = [1, 0]\<rparr>)) @ []) = Ok info
    \<and> fi_M info = 9"
proof -
  let ?f = "\<lparr>bf_m = 9, bf_k = 2, bf_bits = [1, 0]\<rparr>"
  have "Unmarshal (the (Marshal (Some ?f)) @ []) = Ok ?f"
    by (rule Unmarshal_Marshal) (simp_all add: wf_bloom_def fits32_def)
  from Inspect_agrees [OF this] show ?thesis by auto
qed

end
