(* ===== verification/Merge.thy ===== *)
theory Merge
  imports Bloom_Ops
begin

text \<open>
  \<open>internal/merge\<close>: combining filters into a new one. Filters are pointers, so arguments are
  \<open>option\<close>s; results go through \<open>filter.NewFromParts\<close>, whose error is wrapped. The
  estimators that end in floating point have here the integer bit counts they start from; they
  are completed in \<open>Estimates\<close>.
\<close>

datatype merge_error = MergeErrNilFilter | MergeErrParamMismatch | MergeErrEmptyList
  | MergeFilterErr filter_error

section \<open>Two filters\<close>

fun merge2 ::
  "(byte \<Rightarrow> byte \<Rightarrow> byte) \<Rightarrow> BloomFilter option \<Rightarrow> BloomFilter option
     \<Rightarrow> (merge_error, BloomFilter) outcome" where
  "merge2 g (Some a) (Some b) =
     (if bf_m a \<noteq> bf_m b \<or> bf_k a \<noteq> bf_k b then Err MergeErrParamMismatch
      else and_then (bytewise g (bf_bits a) (bf_bits b))
        (\<lambda>merged. wrap_err MergeFilterErr (bf_NewFromParts (bf_m a) (bf_k a) merged)))"
| "merge2 g _ _ = Err MergeErrNilFilter"

definition merge_Union where "merge_Union = merge2 (OR)"
definition merge_Intersection where "merge_Intersection = merge2 (AND)"
definition merge_Difference where "merge_Difference = merge2 (\<lambda>x y. x AND NOT y)"

section \<open>Many filters\<close>

fun merge_loop ::
  "(byte \<Rightarrow> byte \<Rightarrow> byte) \<Rightarrow> u64 \<Rightarrow> u64 \<Rightarrow> bytes \<Rightarrow> BloomFilter option list
     \<Rightarrow> (merge_error, bytes) outcome" where
  "merge_loop g m k merged [] = Ok merged"
| "merge_loop g m k merged (None # fs) = Err MergeErrNilFilter"
| "merge_loop g m k merged (Some f # fs) =
     (if bf_m f \<noteq> m \<or> bf_k f \<noteq> k then Err MergeErrParamMismatch
      else and_then (bytewise g merged (bf_bits f)) (\<lambda>merged. merge_loop g m k merged fs))"

fun merge_many ::
  "(byte \<Rightarrow> byte \<Rightarrow> byte) \<Rightarrow> BloomFilter option list \<Rightarrow> (merge_error, BloomFilter) outcome" where
  "merge_many g [] = Err MergeErrEmptyList"
| "merge_many g (None # fs) = Err MergeErrNilFilter"
| "merge_many g (Some f # fs) =
     and_then (merge_loop g (bf_m f) (bf_k f) (bf_bits f) fs)
       (\<lambda>merged. wrap_err MergeFilterErr (bf_NewFromParts (bf_m f) (bf_k f) merged))"

definition UnionMany where "UnionMany = merge_many (OR)"
definition IntersectionMany where "IntersectionMany = merge_many (AND)"

section \<open>Counting differences\<close>

text \<open>
  The bit counts of \<open>Similarity\<close> (\<open>andCount\<close>, \<open>orCount\<close>) and the result of
  \<open>HammingDistance\<close>; the range is over the first filter's bytes.
\<close>

fun sum_pairs :: "(byte \<Rightarrow> byte \<Rightarrow> byte) \<Rightarrow> bytes \<Rightarrow> bytes \<Rightarrow> (merge_error, nat) outcome" where
  "sum_pairs g a b =
     and_then (bytewise g a b) (\<lambda>bs. Ok (foldl (\<lambda>d v. d + popcount v) 0 bs))"

fun similarity_counts ::
  "BloomFilter option \<Rightarrow> BloomFilter option \<Rightarrow> (merge_error, nat \<times> nat) outcome" where
  "similarity_counts (Some a) (Some b) =
     (if bf_m a \<noteq> bf_m b \<or> bf_k a \<noteq> bf_k b then Err MergeErrParamMismatch
      else and_then (sum_pairs (AND) (bf_bits a) (bf_bits b)) (\<lambda>andCount.
           and_then (sum_pairs (OR) (bf_bits a) (bf_bits b)) (\<lambda>orCount. Ok (andCount, orCount))))"
| "similarity_counts _ _ = Err MergeErrNilFilter"

fun HammingDistance ::
  "BloomFilter option \<Rightarrow> BloomFilter option \<Rightarrow> (merge_error, nat) outcome" where
  "HammingDistance (Some a) (Some b) =
     (if bf_m a \<noteq> bf_m b \<or> bf_k a \<noteq> bf_k b then Err MergeErrParamMismatch
      else sum_pairs (XOR) (bf_bits a) (bf_bits b))"
| "HammingDistance _ _ = Err MergeErrNilFilter"

section \<open>The merge package computes what the in-place methods compute\<close>

definition sized :: "BloomFilter \<Rightarrow> bool" where
  "sized f \<longleftrightarrow> wf_bloom f \<and> unat (bf_m f) < 2 ^ 64 - 7"

lemma sized_parts:
  assumes "sized f" "length bs = length (bf_bits f)"
  shows "bf_NewFromParts (bf_m f) (bf_k f) bs = Ok (f\<lparr>bf_bits := bs\<rparr>)"
  using assms bf_NewFromParts_id [of "f\<lparr>bf_bits := bs\<rparr>"] by (simp add: sized_def wf_bloom_def)

fun lift_filter_error :: "filter_error \<Rightarrow> merge_error" where
  "lift_filter_error ErrNilFilter = MergeErrNilFilter"
| "lift_filter_error ErrParamMismatch = MergeErrParamMismatch"
| "lift_filter_error e = MergeFilterErr e"

lemma merge2_combine:
  assumes "sized a" "sized b"
  shows "merge2 g (Some a) (Some b) = wrap_err lift_filter_error (bf_combine g a (Some b))"
proof (cases "bf_m a = bf_m b \<and> bf_k a = bf_k b")
  case True
  then have "length (bf_bits a) = length (bf_bits b)"
    using assms by (intro same_length) (simp_all add: sized_def)
  with True sized_parts [OF assms(1), of "map2 g (bf_bits a) (bf_bits b)"]
  show ?thesis by (simp add: bytewise_def)
qed auto

lemma merge_loop_Ok:
  assumes "\<And>f. Some f \<in> set fs \<Longrightarrow> bf_m f = m \<and> bf_k f = k \<and> length (bf_bits f) = n"
    and "None \<notin> set fs" "length bs = n"
  shows "merge_loop g m k bs fs = Ok (foldl (\<lambda>bs f. map2 g bs (bf_bits (the f))) bs fs)"
  using assms
proof (induction fs arbitrary: bs)
  case Nil
  then show ?case by simp
next
  case (Cons x fs)
  from Cons.prems(2) obtain f where "x = Some f" by (cases x) auto
  moreover have "bf_m f = m" "bf_k f = k" "length (bf_bits f) = n"
    using Cons.prems(1) [of f] \<open>x = Some f\<close> by simp_all
  moreover have "merge_loop g m k (map2 g bs (bf_bits f)) fs
      = Ok (foldl (\<lambda>bs f. map2 g bs (bf_bits (the f))) (map2 g bs (bf_bits f)) fs)"
    by (rule Cons.IH) (use Cons.prems \<open>length (bf_bits f) = n\<close> in auto)
  ultimately show ?case using Cons.prems(3) by (simp add: bytewise_def)
qed

lemma foldl_or_bits:
  "\<forall>f \<in> set fs. length (bf_bits (the f)) = length bs \<Longrightarrow>
     length (foldl (\<lambda>bs f. map2 (OR) bs (bf_bits (the f))) bs fs) = length bs
     \<and> bits_of (foldl (\<lambda>bs f. map2 (OR) bs (bf_bits (the f))) bs fs)
       = bits_of bs \<union> (\<Union>f \<in> set fs. bits_of (bf_bits (the f)))"
  by (induction fs arbitrary: bs) (auto simp: bits_of_or)

lemma foldl_and_bits:
  "\<forall>f \<in> set fs. length (bf_bits (the f)) = length bs \<Longrightarrow>
     length (foldl (\<lambda>bs f. map2 (AND) bs (bf_bits (the f))) bs fs) = length bs
     \<and> bits_of (foldl (\<lambda>bs f. map2 (AND) bs (bf_bits (the f))) bs fs)
       = bits_of bs \<inter> (\<Inter>f \<in> set fs. bits_of (bf_bits (the f)))"
  by (induction fs arbitrary: bs) (auto simp: bits_of_and)

text \<open>All filters present, well-formed and with the same parameters as the first.\<close>

definition compatible :: "BloomFilter \<Rightarrow> BloomFilter list \<Rightarrow> bool" where
  "compatible f fs \<longleftrightarrow> sized f \<and> (\<forall>h \<in> set fs. sized h \<and> bf_m h = bf_m f \<and> bf_k h = bf_k f)"

lemma compatible_lengths: "compatible f fs \<Longrightarrow> h \<in> set fs \<Longrightarrow> length (bf_bits h) = length (bf_bits f)"
  by (auto simp: compatible_def sized_def wf_bloom_def)

lemma merge_many_Ok:
  assumes "compatible f fs"
    and "length (foldl (\<lambda>bs f. map2 g bs (bf_bits (the f))) (bf_bits f) (map Some fs))
      = length (bf_bits f)"
  shows "merge_many g (map Some (f # fs))
    = Ok (f\<lparr>bf_bits := foldl (\<lambda>bs f. map2 g bs (bf_bits (the f))) (bf_bits f) (map Some fs)\<rparr>)"
proof -
  have "merge_loop g (bf_m f) (bf_k f) (bf_bits f) (map Some fs)
      = Ok (foldl (\<lambda>bs f. map2 g bs (bf_bits (the f))) (bf_bits f) (map Some fs))"
    using assms(1) compatible_lengths [OF assms(1)]
    by (intro merge_loop_Ok [where n = "length (bf_bits f)"]) (auto simp: compatible_def)
  moreover have "sized f" using assms(1) by (simp add: compatible_def)
  ultimately show ?thesis using sized_parts [OF _ assms(2)] by simp
qed

lemma UnionMany_bits:
  assumes "compatible f fs"
  shows "\<exists>u. UnionMany (map Some (f # fs)) = Ok u \<and> sized u \<and> bf_m u = bf_m f \<and> bf_k u = bf_k f
    \<and> bits_of (bf_bits u) = (\<Union>h \<in> set (f # fs). bits_of (bf_bits h))"
proof -
  let ?bs = "foldl (\<lambda>bs f. map2 (OR) bs (bf_bits (the f))) (bf_bits f) (map Some fs)"
  have "length ?bs = length (bf_bits f) \<and> bits_of ?bs
      = bits_of (bf_bits f) \<union> (\<Union>h \<in> set (map Some fs). bits_of (bf_bits (the h)))"
    by (rule foldl_or_bits) (use compatible_lengths [OF assms] in auto)
  with merge_many_Ok [OF assms, of "(OR)"] assms show ?thesis
    by (auto simp: UnionMany_def compatible_def sized_def wf_bloom_def)
qed

lemma IntersectionMany_bits:
  assumes "compatible f fs"
  shows "\<exists>u. IntersectionMany (map Some (f # fs)) = Ok u \<and> sized u \<and> bf_m u = bf_m f
    \<and> bf_k u = bf_k f \<and> bits_of (bf_bits u) = (\<Inter>h \<in> set (f # fs). bits_of (bf_bits h))"
proof -
  let ?bs = "foldl (\<lambda>bs f. map2 (AND) bs (bf_bits (the f))) (bf_bits f) (map Some fs)"
  have "length ?bs = length (bf_bits f) \<and> bits_of ?bs
      = bits_of (bf_bits f) \<inter> (\<Inter>h \<in> set (map Some fs). bits_of (bf_bits (the h)))"
    by (rule foldl_and_bits) (use compatible_lengths [OF assms] in auto)
  with merge_many_Ok [OF assms, of "(AND)"] assms show ?thesis
    by (auto simp: IntersectionMany_def compatible_def sized_def wf_bloom_def)
qed

lemma HammingDistance_card:
  assumes "wf_bloom a" "wf_bloom b" "bf_m a = bf_m b" "bf_k a = bf_k b"
  shows "HammingDistance (Some a) (Some b) = Ok (card
    ((bits_of (bf_bits a) - bits_of (bf_bits b)) \<union> (bits_of (bf_bits b) - bits_of (bf_bits a))))"
  using assms same_length [of a b]
  by (simp add: bytewise_def foldl_popcount bits_of_xor)

lemma similarity_counts_card:
  assumes "wf_bloom a" "wf_bloom b" "bf_m a = bf_m b" "bf_k a = bf_k b"
  shows "similarity_counts (Some a) (Some b) = Ok
    (card (bits_of (bf_bits a) \<inter> bits_of (bf_bits b)),
     card (bits_of (bf_bits a) \<union> bits_of (bf_bits b)))"
  using assms same_length [of a b]
  by (simp add: bytewise_def foldl_popcount bits_of_and bits_of_or)

lemma Union_image_append: "(\<Union>y \<in> set (concat xss). g y) = (\<Union>ys \<in> set xss. \<Union>y \<in> set ys. g y)"
  by auto

lemma bf_adds_sized: "sized f \<Longrightarrow> sized (foldl bf_Add f xs)"
  by (simp add: sized_def bf_adds_wf)

lemma bf_New_sized: "bf_New m k = Ok f \<Longrightarrow> unat m < 2 ^ 64 - 7 \<Longrightarrow> sized f"
  using bf_New_wf [of m k f] by (simp add: sized_def)

section \<open>Properties\<close>

text \<open>On well-formed filters the functions of package \<open>merge\<close>, which build a new filter, give
  the result or the error of the in-place methods of the filter.\<close>

lemma merge_agrees_with_methods:
  assumes "sized a" "sized b"
  shows "merge_Union (Some a) (Some b) = wrap_err lift_filter_error (bf_Union a (Some b))
    \<and> merge_Intersection (Some a) (Some b) = wrap_err lift_filter_error (bf_Intersection a (Some b))
    \<and> merge_Difference (Some a) (Some b) = wrap_err lift_filter_error (bf_Difference a (Some b))"
  unfolding merge_Union_def merge_Intersection_def merge_Difference_def
    bf_Union_def bf_Intersection_def bf_Difference_def
  by (intro conjI merge2_combine [OF assms])

lemma merge_agrees_with_methods_witness:
  "merge_Union (Some \<lparr>bf_m = 9, bf_k = 2, bf_bits = [1, 0]\<rparr>) (Some \<lparr>bf_m = 9, bf_k = 2, bf_bits = [2, 1]\<rparr>)
    = wrap_err lift_filter_error (bf_Union \<lparr>bf_m = 9, bf_k = 2, bf_bits = [1, 0]\<rparr>
        (Some \<lparr>bf_m = 9, bf_k = 2, bf_bits = [2, 1]\<rparr>))"
  using merge_agrees_with_methods [of "\<lparr>bf_m = 9, bf_k = 2, bf_bits = [1, 0]\<rparr>"
      "\<lparr>bf_m = 9, bf_k = 2, bf_bits = [2, 1]\<rparr>"]
  by (simp add: sized_def wf_bloom_def)

text \<open>C15: Filters filled separately and then united are the filter filled with all the items:
  \<open>UnionMany\<close> of shards equals one filter that saw every addition.\<close>

theorem UnionMany_of_shards:
  assumes "bf_New m k = Ok f" "unat m < 2 ^ 64 - 7"
  shows "UnionMany (map (\<lambda>xs. Some (foldl bf_Add f xs)) (xs # xss))
    = Ok (foldl bf_Add f (concat (xs # xss)))"
proof -
  note f = bf_New_wf [OF assms]
  let ?s = "foldl bf_Add f"
  have "compatible (?s xs) (map ?s xss)"
    using bf_New_sized [OF assms] by (auto simp: compatible_def bf_adds_sized)
  from UnionMany_bits [OF this] obtain u
    where u: "UnionMany (map Some (?s xs # map ?s xss)) = Ok u" "sized u" "bf_m u = m" "bf_k u = k"
      and bits: "bits_of (bf_bits u) = (\<Union>h \<in> set (?s xs # map ?s xss). bits_of (bf_bits h))"
    using f by auto
  have "bits_of (bf_bits u) = (\<Union>ys \<in> set (xs # xss). \<Union>y \<in> set ys. probes m k y)"
    using f bits by (simp add: bf_adds_bits)
  also have "\<dots> = bits_of (bf_bits (?s (concat (xs # xss))))"
    using f bf_adds_bits [of f "concat (xs # xss)"] by (simp only: Union_image_append) simp
  finally have "abs_bloom u = abs_bloom (?s (concat (xs # xss)))"
    using u f by (simp add: abs_bloom_def)
  then have "u = ?s (concat (xs # xss))"
    using u(2) f by (intro abs_bloom_inject [THEN iffD1]) (simp_all add: sized_def bf_adds_wf)
  with u(1) show ?thesis by (simp add: comp_def)
qed

theorem UnionMany_of_shards_witness:
  "UnionMany (map (\<lambda>xs. Some (foldl bf_Add \<lparr>bf_m = 20, bf_k = 3, bf_bits = [0, 0, 0]\<rparr> xs)) [[[1]], [[2], [3]]])
    = Ok (foldl bf_Add \<lparr>bf_m = 20, bf_k = 3, bf_bits = [0, 0, 0]\<rparr> [[1], [2], [3]])"
proof -
  have "bf_New 20 3 = Ok \<lparr>bf_m = 20, bf_k = 3, bf_bits = [0, 0, 0]\<rparr>"
    using replicate_3 [of 0] by (simp add: bf_New_def)
  from UnionMany_of_shards [OF this, of "[[1]]" "[[[2], [3]]]"] show ?thesis by simp
qed

text \<open>\<open>HammingDistance\<close> counts the positions in which two filters differ: it is a metric on
  the well-formed filters with given parameters (zero exactly for equal filters, symmetric,
  triangle inequality), and it fails for different parameters.\<close>

lemma HammingDistance_metric:
  assumes "wf_bloom a" "wf_bloom b" "wf_bloom c"
    and "bf_m a = bf_m b" "bf_k a = bf_k b" "bf_m b = bf_m c" "bf_k b = bf_k c"
  shows "\<exists>ab bc ac. HammingDistance (Some a) (Some b) = Ok ab
    \<and> HammingDistance (Some b) (Some a) = Ok ab \<and> HammingDistance (Some b) (Some c) = Ok bc
    \<and> HammingDistance (Some a) (Some c) = Ok ac
    \<and> ac \<le> ab + bc \<and> (ab = 0 \<longleftrightarrow> a = b)"
proof -
  let ?d = "\<lambda>S T. (S - T) \<union> (T - S) :: nat set"
  let ?A = "bits_of (bf_bits a)" and ?B = "bits_of (bf_bits b)" and ?C = "bits_of (bf_bits c)"
  have "card (?d ?A ?C) \<le> card (?d ?A ?B \<union> ?d ?B ?C)"
    by (rule card_mono) auto
  also have "\<dots> \<le> card (?d ?A ?B) + card (?d ?B ?C)" by (rule card_Un_le)
  finally have tri: "card (?d ?A ?C) \<le> card (?d ?A ?B) + card (?d ?B ?C)" .
  have "card (?d ?A ?B) = 0 \<longleftrightarrow> ?A = ?B" by auto
  also have "\<dots> \<longleftrightarrow> a = b"
    using abs_bloom_inject [OF assms(1,2)] assms(4,5) by (simp add: abs_bloom_def)
  finally have zero: "card (?d ?A ?B) = 0 \<longleftrightarrow> a = b" .
  have dist: "HammingDistance (Some a) (Some b) = Ok (card (?d ?A ?B))"
    "HammingDistance (Some b) (Some a) = Ok (card (?d ?B ?A))"
    "HammingDistance (Some b) (Some c) = Ok (card (?d ?B ?C))"
    "HammingDistance (Some a) (Some c) = Ok (card (?d ?A ?C))"
    using assms by (intro HammingDistance_card; simp)+
  have "?d ?B ?A = ?d ?A ?B" by blast
  with dist tri zero show ?thesis
    by (intro exI [of _ "card (?d ?A ?B)"] exI [of _ "card (?d ?B ?C)"] exI [of _ "card (?d ?A ?C)"])
      (simp del: HammingDistance.simps)
qed

lemma HammingDistance_metric_witness:
  "\<exists>ab. HammingDistance (Some \<lparr>bf_m = 9, bf_k = 2, bf_bits = [1, 0]\<rparr>)
       (Some \<lparr>bf_m = 9, bf_k = 2, bf_bits = [2, 1]\<rparr>) = Ok ab \<and> ab \<noteq> 0"
  using HammingDistance_metric [of "\<lparr>bf_m = 9, bf_k = 2, bf_bits = [1, 0]\<rparr>"
      "\<lparr>bf_m = 9, bf_k = 2, bf_bits = [2, 1]\<rparr>" "\<lparr>bf_m = 9, bf_k = 2, bf_bits = [2, 1]\<rparr>"]
  by (auto simp: wf_bloom_def simp del: HammingDistance.simps)

end
