(* ===== verification/Disk.thy ===== *)
theory Disk
  imports Bloom_Prelude
begin

text \<open>
  The part of package \<open>os\<close> that \<open>store\<close>, \<open>wal\<close> and \<open>main\<close> use, as explicit state. A world maps
  paths to file contents and carries a quota: the number of bytes the device still accepts
  (\<open>None\<close> for unlimited). \<open>File.Write\<close> writes as much as the quota allows and reports an error
  when it wrote less than it was given, so a full disk or a crash in the middle of a write
  leaves a torn tail; \<open>w_sync\<close> says whether \<open>File.Sync\<close> succeeds. Opening fails only for a
  missing file.
\<close>

record World =
  w_files :: "string \<Rightarrow> bytes option"
  w_quota :: "nat option"
  w_sync :: bool

record File =
  fl_path :: string
  fl_pos :: nat

text \<open>\<open>os.ReadFile\<close>: \<open>None\<close> stands for the not-exist error.\<close>

definition os_ReadFile :: "World \<Rightarrow> string \<Rightarrow> bytes option" where
  "os_ReadFile w path = w_files w path"

text \<open>\<open>os.Create\<close> truncates or creates; the offset is 0.\<close>

definition os_Create :: "World \<Rightarrow> string \<Rightarrow> World \<times> File" where
  "os_Create w path =
     (w\<lparr>w_files := (w_files w)(path := Some [])\<rparr>, \<lparr>fl_path = path, fl_pos = 0\<rparr>)"

text \<open>The bytes a write of \<open>n\<close> bytes really transfers.\<close>

definition accepted :: "World \<Rightarrow> nat \<Rightarrow> nat" where
  "accepted w n = (case w_quota w of None \<Rightarrow> n | Some q \<Rightarrow> min q n)"

definition overwrite :: "bytes \<Rightarrow> nat \<Rightarrow> bytes \<Rightarrow> bytes" where
  "overwrite old pos new =
     take pos old @ replicate (pos - length old) 0 @ new @ drop (pos + length new) old"

text \<open>\<open>File.Write\<close> at the current offset; the flag says that all bytes were written.\<close>

definition file_Write :: "World \<Rightarrow> File \<Rightarrow> bytes \<Rightarrow> World \<times> File \<times> bool" where
  "file_Write w f data =
     (let n = accepted w (length data);
          old = (case w_files w (fl_path f) of None \<Rightarrow> [] | Some bs \<Rightarrow> bs);
          new = overwrite old (fl_pos f) (take n data)
      in (w\<lparr>w_files := (w_files w)(fl_path f := Some new),
             w_quota := map_option (\<lambda>q. q - n) (w_quota w)\<rparr>,
          f\<lparr>fl_pos := fl_pos f + n\<rparr>, n = length data))"

definition file_Truncate :: "World \<Rightarrow> File \<Rightarrow> nat \<Rightarrow> World" where
  "file_Truncate w f n =
     w\<lparr>w_files := (w_files w)(fl_path f :=
        map_option (\<lambda>bs. take n bs @ replicate (n - length bs) 0) (w_files w (fl_path f)))\<rparr>"

text \<open>A handle whose offset is the end of its file: writes append.\<close>

definition at_end :: "World \<Rightarrow> File \<Rightarrow> bytes \<Rightarrow> bool" where
  "at_end w f bs \<longleftrightarrow> w_files w (fl_path f) = Some bs \<and> fl_pos f = length bs"

lemma file_Write_end:
  assumes "at_end w f bs" "file_Write w f data = (w', f', ok)"
  shows "at_end w' f' (bs @ take (accepted w (length data)) data)"
    and "fl_path f' = fl_path f" "ok \<longleftrightarrow> accepted w (length data) = length data"
    and "\<And>p. p \<noteq> fl_path f \<Longrightarrow> w_files w' p = w_files w p"
  using assms
  by (auto simp: file_Write_def at_end_def overwrite_def Let_def accepted_def
      split: option.splits)

lemma file_Write_ok:
  assumes "at_end w f bs" "file_Write w f data = (w', f', True)"
  shows "at_end w' f' (bs @ data)" "fl_path f' = fl_path f"
  using file_Write_end [OF assms] by simp_all

lemma file_Write_torn:
  assumes "at_end w f bs" "file_Write w f data = (w', f', False)"
  shows "\<exists>n < length data. at_end w' f' (bs @ take n data)" "fl_path f' = fl_path f"
proof -
  have "accepted w (length data) \<le> length data"
    by (simp add: accepted_def split: option.splits)
  with file_Write_end [OF assms] show "\<exists>n < length data. at_end w' f' (bs @ take n data)"
    by (intro exI [of _ "accepted w (length data)"]) auto
  show "fl_path f' = fl_path f" by (rule file_Write_end [OF assms])
qed

text \<open>Opening with \<open>O_CREATE\<close> and without \<open>O_TRUNC\<close> creates the file if it is missing.\<close>

definition os_OpenAppend :: "World \<Rightarrow> string \<Rightarrow> World" where
  "os_OpenAppend w path =
     (case w_files w path of
        None \<Rightarrow> w\<lparr>w_files := (w_files w)(path := Some [])\<rparr>
      | Some _ \<Rightarrow> w)"

text \<open>A write to a file opened with \<open>O_APPEND\<close> goes to its end.\<close>

definition file_Append :: "World \<Rightarrow> string \<Rightarrow> bytes \<Rightarrow> World \<times> bool" where
  "file_Append w path data =
     (let old = (case w_files w path of None \<Rightarrow> [] | Some bs \<Rightarrow> bs)
      in case file_Write w \<lparr>fl_path = path, fl_pos = length old\<rparr> data of (w, _, ok) \<Rightarrow> (w, ok))"

lemma file_Append_end:
  assumes "w_files w path = Some bs" "file_Append w path data = (w', ok)"
  shows "w_files w' path = Some (bs @ take (accepted w (length data)) data)"
    and "ok \<longleftrightarrow> accepted w (length data) = length data" "w_sync w' = w_sync w"
  using assms
  by (auto simp: file_Append_def file_Write_def overwrite_def Let_def accepted_def
      split: option.splits)

lemma file_Append_ok:
  "w_files w path = Some bs \<Longrightarrow> file_Append w path data = (w', True) \<Longrightarrow>
     w_files w' path = Some (bs @ data)"
  using file_Append_end [of w path bs data w' True] by simp

end
