(* ===== verification/Store.thy ===== *)
theory Store
  imports Codec Disk
begin

text \<open>
  \<open>internal/store/store.go\<close>: the append-only store. A store file is an 8-byte header and a
  sequence of checksummed records; \<open>Open\<close> finds the last checkpoint in a first pass and
  replays from it in a second, then cuts the file at the end of the last valid record.
  \<open>replay_switch\<close> is the \<open>switch\<close> of the second pass; a filter pointer that may be nil is an
  \<open>option\<close>, and calling a method on nil panics.
\<close>

section \<open>Records\<close>

definition fileMagic :: u32 where "fileMagic = 0x424C5301"
definition recAdd :: byte where "recAdd = 1"
definition recCheckpoint :: byte where "recCheckpoint = 2"

abbreviation (input) headerSize :: nat where "headerSize \<equiv> 8"
abbreviation (input) recHeaderSize :: nat where "recHeaderSize \<equiv> 5"
abbreviation (input) recCRCSize :: nat where "recCRCSize \<equiv> 4"

record StoreRecord =
  rec_typ :: byte
  rec_payload :: bytes

definition encodeRecord :: "byte \<Rightarrow> bytes \<Rightarrow> bytes" where
  "encodeRecord typ payload =
     (let buf = [typ] @ put_be32 (word_of_nat (length payload)) @ payload
      in buf @ put_be32 (crc32_ieee buf))"

definition parseRecord :: "bytes \<Rightarrow> (StoreRecord \<times> nat) option" where
  "parseRecord data =
     (if length data < recHeaderSize then None
      else let typ = data ! 0
           in if typ \<noteq> recAdd \<and> typ \<noteq> recCheckpoint then None
              else let pLen = unat (be32 (subslice data 1 5));
                       total = recHeaderSize + pLen + recCRCSize
                   in if length data < total then None
                      else let stored = be32 (subslice data (recHeaderSize + pLen) total);
                               computed = crc32_ieee (take (recHeaderSize + pLen) data)
                           in if stored \<noteq> computed then None
                              else Some (\<lparr>rec_typ = typ,
                                     rec_payload = subslice data recHeaderSize (recHeaderSize + pLen)\<rparr>,
                                   total))"

section \<open>The store and its operations\<close>

datatype store_error = ErrNotStore | ErrCorruptHeader | StoreFilterErr filter_error
  | StoreNotExist | StoreWriteErr | StoreClosed

record Store =
  st_path :: string
  st_f :: "File option"
  st_filter :: "BloomFilter option"
  st_k :: u64

definition header_bytes :: "u64 \<Rightarrow> bytes" where
  "header_bytes m = put_be32 fileMagic @ put_be32 (ucast m)"

definition store_Create ::
  "World \<Rightarrow> string \<Rightarrow> u64 \<Rightarrow> u64 \<Rightarrow> World \<times> (store_error, Store) outcome" where
  "store_Create w path m k =
     (case bf_New m k of
        Err e \<Rightarrow> (w, Err (StoreFilterErr e))
      | Panic \<Rightarrow> (w, Panic)
      | Ok bf \<Rightarrow>
          (case os_Create w path of (w, f) \<Rightarrow>
           case file_Write w f (header_bytes m) of (w, f, ok) \<Rightarrow>
             if \<not> ok then (w, Err StoreWriteErr)
             else (w, Ok \<lparr>st_path = path, st_f = Some f, st_filter = Some bf, st_k = k\<rparr>)))"

text \<open>First pass: the offset of the last valid checkpoint record, if there is one.\<close>

definition cp_body :: "nat option \<Rightarrow> nat \<Rightarrow> StoreRecord \<Rightarrow> nat option" where
  "cp_body lastCheckpoint p rec =
     (if rec_typ rec = recCheckpoint then Some p else lastCheckpoint)"

definition find_checkpoint :: "bytes \<Rightarrow> (nat option \<times> nat) option" where
  "find_checkpoint data =
     frame_loop parseRecord cp_body (Suc (length data)) data headerSize None"

text \<open>\<open>bf, _ = filter.New(m, 7)\<close>: the error is dropped and the pointer stays nil.\<close>

definition fresh :: "u64 \<Rightarrow> BloomFilter option" where
  "fresh m = (case bf_New m 7 of Ok f \<Rightarrow> Some f | _ \<Rightarrow> None)"

type_synonym replay_state = "(store_error, BloomFilter option \<times> u64) outcome"

definition replay_switch :: "u64 \<Rightarrow> replay_state \<Rightarrow> StoreRecord \<Rightarrow> replay_state" where
  "replay_switch m st rec =
     and_then st (\<lambda>(bf, k).
       if rec_typ rec = recCheckpoint then
         (case Unmarshal (rec_payload rec) of
            Ok restored \<Rightarrow> Ok (Some restored, bf_k restored)
          | Err _ \<Rightarrow> Ok (bf, k)
          | Panic \<Rightarrow> Panic)
       else if rec_typ rec = recAdd then
         (case (if bf = None then (fresh m, 7) else (bf, k)) of
            (None, _) \<Rightarrow> Panic
          | (Some f, k) \<Rightarrow> Ok (Some (bf_Add f (rec_payload rec)), k))
       else Ok (bf, k))"

definition replay_body :: "u64 \<Rightarrow> replay_state \<Rightarrow> nat \<Rightarrow> StoreRecord \<Rightarrow> replay_state" where
  "replay_body m st pos rec = replay_switch m st rec"

definition or_fresh :: "u64 \<Rightarrow> BloomFilter option \<times> u64 \<Rightarrow> BloomFilter option \<times> u64" where
  "or_fresh m s = (case s of (None, _) \<Rightarrow> (fresh m, 7) | (Some f, k) \<Rightarrow> (Some f, k))"

definition store_Open :: "World \<Rightarrow> string \<Rightarrow> World \<times> (store_error, Store) outcome" where
  "store_Open w path =
     (case os_ReadFile w path of
        None \<Rightarrow> (w, Err StoreNotExist)
      | Some data \<Rightarrow>
          if length data < headerSize then (w, Err ErrCorruptHeader)
          else if be32 (subslice data 0 4) \<noteq> fileMagic then (w, Err ErrNotStore)
          else
            let m = ucast (be32 (subslice data 4 8))
            in case find_checkpoint data of
                 None \<Rightarrow> (w, Panic)
               | Some (lastCheckpoint, _) \<Rightarrow>
                   let pos = (case lastCheckpoint of None \<Rightarrow> headerSize | Some p \<Rightarrow> p)
                   in case frame_loop parseRecord (replay_body m) (Suc (length data)) data pos
                             (Ok (None, 0)) of
                        Some (Ok s, pos) \<Rightarrow>
                          (case or_fresh m s of (bf, k) \<Rightarrow>
                             let f = \<lparr>fl_path = path, fl_pos = pos\<rparr>
                             in (file_Truncate w f pos,
                                 Ok \<lparr>st_path = path, st_f = Some f, st_filter = bf, st_k = k\<rparr>))
                      | Some (Err e, _) \<Rightarrow> (w, Err e)
                      | Some (Panic, _) \<Rightarrow> (w, Panic)
                      | None \<Rightarrow> (w, Panic))"

definition writeRecord ::
  "World \<Rightarrow> Store \<Rightarrow> byte \<Rightarrow> bytes \<Rightarrow> World \<times> Store \<times> (store_error, unit) outcome" where
  "writeRecord w s typ payload =
     (case st_f s of
        None \<Rightarrow> (w, s, Err StoreClosed)
      | Some f \<Rightarrow>
          (case file_Write w f (encodeRecord typ payload) of (w, f, ok) \<Rightarrow>
             (w, s\<lparr>st_f := Some f\<rparr>, if ok then Ok () else Err StoreWriteErr)))"

definition store_Add ::
  "World \<Rightarrow> Store \<Rightarrow> bytes \<Rightarrow> World \<times> Store \<times> (store_error, unit) outcome" where
  "store_Add w s item =
     (case st_filter s of
        None \<Rightarrow> (w, s, Panic)
      | Some f \<Rightarrow> writeRecord w (s\<lparr>st_filter := Some (bf_Add f item)\<rparr>) recAdd item)"

definition store_Test :: "Store \<Rightarrow> bytes \<Rightarrow> (store_error, bool) outcome" where
  "store_Test s item =
     (case st_filter s of None \<Rightarrow> Panic | Some f \<Rightarrow> Ok (bf_Test f item))"

text \<open>\<open>codec.Marshal(nil)\<close> is the nil slice, written as an empty payload.\<close>

definition store_Checkpoint ::
  "World \<Rightarrow> Store \<Rightarrow> World \<times> Store \<times> (store_error, unit) outcome" where
  "store_Checkpoint w s =
     (let data = (case Marshal (st_filter s) of None \<Rightarrow> [] | Some b \<Rightarrow> b)
      in writeRecord w s recCheckpoint data)"

definition store_Close :: "Store \<Rightarrow> Store" where
  "store_Close s = s\<lparr>st_f := None\<rparr>"

section \<open>The record format is self-delimiting\<close>

definition enc_rec :: "StoreRecord \<Rightarrow> bytes" where
  "enc_rec r = encodeRecord (rec_typ r) (rec_payload r)"

definition rec_ok :: "StoreRecord \<Rightarrow> bool" where
  "rec_ok r \<longleftrightarrow> rec_typ r \<in> {recAdd, recCheckpoint} \<and> length (rec_payload r) < 2 ^ 32"

lemma length_enc_rec [simp]: "length (enc_rec r) = 9 + length (rec_payload r)"
  by (simp add: enc_rec_def encodeRecord_def Let_def)

lemma unat_len32: "n < 2 ^ 32 \<Longrightarrow> unat (word_of_nat n :: u32) = n"
  by (simp add: unsigned_of_nat take_bit_nat_eq_self_iff)

definition rec_body :: "StoreRecord \<Rightarrow> bytes" where
  "rec_body r = [rec_typ r] @ put_be32 (word_of_nat (length (rec_payload r))) @ rec_payload r"

lemma length_rec_body [simp]: "length (rec_body r) = 5 + length (rec_payload r)"
  by (simp add: rec_body_def)

lemma enc_rec_body: "enc_rec r = rec_body r @ put_be32 (crc32_ieee (rec_body r))"
  by (simp add: enc_rec_def encodeRecord_def rec_body_def Let_def)

lemma rec_body_fields:
  "(rec_body r @ x) ! 0 = rec_typ r"
  "subslice (rec_body r @ x) 1 5 = put_be32 (word_of_nat (length (rec_payload r)))"
  "subslice (rec_body r @ x) 5 (5 + length (rec_payload r)) = rec_payload r"
  by (simp_all add: rec_body_def subslice_all)

lemma parse_enc:
  assumes "rec_ok r"
  shows "parseRecord (enc_rec r @ rest) = Some (r, length (enc_rec r))"
proof -
  have kind: "rec_typ r = recAdd \<or> rec_typ r = recCheckpoint"
    and n: "length (rec_payload r) < 2 ^ 32"
    using assms by (auto simp: rec_ok_def)
  show ?thesis
    using rec_body_fields [of r "put_be32 (crc32_ieee (rec_body r)) @ rest"] unat_len32 [OF n] kind
    by (auto simp: parseRecord_def Let_def enc_rec_body)
qed

lemma parse_torn:
  assumes "rec_ok r" "n < length (enc_rec r)"
  shows "parseRecord (take n (enc_rec r)) = None"
proof (cases "n < 5")
  case True
  then show ?thesis by (simp add: parseRecord_def)
next
  case False
  have "subslice (take n (enc_rec r)) 1 5 = subslice (enc_rec r) 1 5"
    using False by (simp add: subslice_def drop_take)
  also have "\<dots> = put_be32 (word_of_nat (length (rec_payload r)))"
    using rec_body_fields(2) [of r] by (simp add: enc_rec_body)
  finally have "unat (be32 (subslice (take n (enc_rec r)) 1 5)) = length (rec_payload r)"
    using assms(1) by (simp add: rec_ok_def unat_len32)
  then show ?thesis using assms(2) False by (simp add: parseRecord_def Let_def)
qed

lemma parse_progress: "parseRecord bs = Some (r, n) \<Longrightarrow> 0 < n \<and> n \<le> length bs"
  by (auto simp: parseRecord_def Let_def split: if_splits)

interpretation recs: framing enc_rec parseRecord rec_ok
  by unfold_locales (fact parse_enc parse_torn parse_progress)+

text \<open>Everything the parser accepts is the encoding of a well-formed record.\<close>

lemma parse_OkD:
  assumes "parseRecord bs = Some (r, n_all)"
  shows "rec_ok r" "n_all = length (enc_rec r)" "bs = enc_rec r @ drop n_all bs"
proof -
  let ?n = "unat (be32 (subslice bs 1 5))"
  from assms have kind: "rec_typ r = bs ! 0" "rec_typ r \<in> {recAdd, recCheckpoint}"
    and pay: "rec_payload r = subslice bs 5 (5 + ?n)"
    and tot: "n_all = 5 + ?n + 4" "n_all \<le> length bs"
    and crc: "be32 (subslice bs (5 + ?n) n_all) = crc32_ieee (take (5 + ?n) bs)"
    by (auto simp: parseRecord_def Let_def split: if_splits)
  have n: "length (rec_payload r) = ?n" using pay tot by simp
  then show "rec_ok r" using kind unat_less_u32 [of "be32 (subslice bs 1 5)"] by (simp add: rec_ok_def)
  show len: "n_all = length (enc_rec r)" using tot n by simp
  have "subslice bs 0 1 = [rec_typ r]"
    using kind tot by (cases bs) (simp_all add: subslice_def)
  moreover have "subslice bs 1 5 = put_be32 (word_of_nat (length (rec_payload r)))"
    using tot n by (simp add: put_be32_be32 of_nat_unat)
  ultimately have body: "subslice bs 0 (5 + ?n) = rec_body r"
    using pay subslice_split [of 0 1 "5 + ?n" bs] subslice_split [of 1 5 "5 + ?n" bs]
    by (simp add: rec_body_def)
  moreover have "subslice bs (5 + ?n) n_all = put_be32 (crc32_ieee (rec_body r))"
    using crc body tot put_be32_be32 [of "subslice bs (5 + ?n) n_all"] by (simp add: subslice_def)
  ultimately have "subslice bs 0 n_all = enc_rec r"
    using subslice_split [of 0 "5 + ?n" n_all bs] tot by (simp add: enc_rec_body)
  then show "bs = enc_rec r @ drop n_all bs"
    by (metis append_take_drop_id diff_zero drop_0 subslice_def)
qed

section \<open>Replay\<close>

definition is_checkpoint :: "StoreRecord \<Rightarrow> bool" where
  "is_checkpoint r \<longleftrightarrow> rec_typ r = recCheckpoint"

text \<open>The records from the last checkpoint on, or all of them if there is none.\<close>

definition from_checkpoint :: "StoreRecord list \<Rightarrow> StoreRecord list" where
  "from_checkpoint rs = foldl (\<lambda>acc r. if is_checkpoint r then [r] else acc @ [r]) [] rs"

lemma from_checkpoint_Nil [simp]: "from_checkpoint [] = []"
  by (simp add: from_checkpoint_def)

lemma from_checkpoint_snoc [simp]:
  "from_checkpoint (rs @ [r]) = (if is_checkpoint r then [r] else from_checkpoint rs @ [r])"
  by (simp add: from_checkpoint_def)

text \<open>What \<open>Open\<close> makes of a list of records.\<close>

definition replay :: "u64 \<Rightarrow> StoreRecord list \<Rightarrow> replay_state" where
  "replay m rs = foldl (replay_switch m) (Ok (None, 0)) (from_checkpoint rs)"

lemma run_replay: "run_frames enc (replay_body m) p st rs = foldl (replay_switch m) st rs"
  by (induction rs arbitrary: p st) (simp_all add: replay_body_def)

definition log_bytes :: "StoreRecord list \<Rightarrow> bytes" where
  "log_bytes rs = concat (map enc_rec rs)"

lemma log_bytes_append [simp]: "log_bytes (rs @ rs') = log_bytes rs @ log_bytes rs'"
  and log_bytes_Nil [simp]: "log_bytes [] = []"
  and log_bytes_Cons [simp]: "log_bytes (r # rs) = enc_rec r @ log_bytes rs"
  by (simp_all add: log_bytes_def)

text \<open>The first pass yields the offset at which the records of \<open>from_checkpoint\<close> start.\<close>

lemma run_frames_append:
  "run_frames enc body p st (rs @ rs')
     = run_frames enc body (p + length (concat (map enc rs))) (run_frames enc body p st rs) rs'"
  by (induction rs arbitrary: p st) (simp_all add: add.assoc)

lemma checkpoint_split:
  "\<exists>front. rs = front @ from_checkpoint rs
     \<and> run_frames enc_rec cp_body p None rs
         = (if \<exists>r \<in> set rs. is_checkpoint r then Some (p + length (log_bytes front)) else None)
     \<and> ((\<forall>r \<in> set rs. \<not> is_checkpoint r) \<longrightarrow> front = [])"
proof (induction rs rule: rev_induct)
  case Nil
  then show ?case by simp
next
  case (snoc r rs)
  then obtain front where front: "rs = front @ from_checkpoint rs"
    "run_frames enc_rec cp_body p None rs
       = (if \<exists>r \<in> set rs. is_checkpoint r then Some (p + length (log_bytes front)) else None)"
    "(\<forall>r \<in> set rs. \<not> is_checkpoint r) \<longrightarrow> front = []" by blast
  show ?case
  proof (cases "is_checkpoint r")
    case True
    then show ?thesis
      by (intro exI [of _ rs])
        (simp add: run_frames_append cp_body_def is_checkpoint_def log_bytes_def)
  next
    case False
    then have "cp_body l q r = l" for l q by (simp add: cp_body_def is_checkpoint_def)
    with False front show ?thesis
      by (intro exI [of _ front]) (simp add: run_frames_append)
  qed
qed

section \<open>Opening a log\<close>

lemma length_header [simp]: "length (header_bytes m) = 8"
  by (simp add: header_bytes_def)

lemma header_fields:
  "subslice (header_bytes m @ x) 0 4 = put_be32 fileMagic"
  "subslice (header_bytes m @ x) 4 8 = put_be32 (ucast m)"
  by (simp_all add: header_bytes_def subslice_all)

lemma log_fuel: "list_all rec_ok rs \<Longrightarrow> length rs \<le> length (log_bytes rs)"
  unfolding log_bytes_def by (rule recs.length_log)

lemma loop_log:
  assumes "list_all rec_ok rs" "parseRecord t = None" "length rs \<le> n"
  shows "frame_loop parseRecord body (Suc n) (pre @ log_bytes rs @ t) (length pre) st
    = Some (run_frames enc_rec body (length pre) st rs, length pre + length (log_bytes rs))"
  using recs.frame_loop_log [OF assms(1,2), of "Suc n" body pre st] assms(3)
  by (simp add: log_bytes_def)

text \<open>
  The file that the records \<open>rs\<close> make after the header for \<open>m\<close>, followed by a tail \<open>t\<close>
  that does not parse; and the store that \<open>Open\<close> builds from it.
\<close>

definition store_file :: "u64 \<Rightarrow> StoreRecord list \<Rightarrow> bytes" where
  "store_file m rs = header_bytes m @ log_bytes rs"

definition header_m :: "u64 \<Rightarrow> u64" where
  "header_m m = ucast (ucast m :: u32)"

fun opened :: "World \<Rightarrow> string \<Rightarrow> u64 \<Rightarrow> StoreRecord list \<Rightarrow> World \<times> (store_error, Store) outcome" where
  "opened w path m rs =
     (case replay (header_m m) rs of
        Ok s \<Rightarrow>
          (case or_fresh (header_m m) s of (bf, k) \<Rightarrow>
            (w\<lparr>w_files := (w_files w)(path := Some (store_file m rs))\<rparr>,
             Ok \<lparr>st_path = path,
                 st_f = Some \<lparr>fl_path = path, fl_pos = length (store_file m rs)\<rparr>,
                 st_filter = bf, st_k = k\<rparr>))
      | Err e \<Rightarrow> (w, Err e)
      | Panic \<Rightarrow> (w, Panic))"

lemma Open_log:
  assumes disk: "w_files w path = Some (store_file m rs @ t)"
    and ok: "list_all rec_ok rs" and torn: "parseRecord t = None"
  shows "store_Open w path = opened w path m rs"
proof -
  let ?h = "header_bytes m" and ?data = "store_file m rs @ t"
  obtain front where front: "rs = front @ from_checkpoint rs"
    "run_frames enc_rec cp_body 8 None rs
       = (if \<exists>r \<in> set rs. is_checkpoint r then Some (8 + length (log_bytes front)) else None)"
    "(\<forall>r \<in> set rs. \<not> is_checkpoint r) \<longrightarrow> front = []"
    using checkpoint_split [of rs 8] by blast
  let ?rest = "from_checkpoint rs" and ?pre = "?h @ log_bytes front"
  have "length ?rest \<le> length rs" using front(1) by (metis length_append le_add2)
  then have len: "length rs \<le> length ?data" "length ?rest \<le> length ?data"
    using log_fuel [OF ok] by (simp_all add: store_file_def)
  have pass1: "find_checkpoint ?data = Some (run_frames enc_rec cp_body 8 None rs, 8 + length (log_bytes rs))"
    using loop_log [OF ok torn len(1), of cp_body ?h None]
    by (simp add: find_checkpoint_def store_file_def)
  have rest_ok: "list_all rec_ok ?rest"
    using ok front(1) by (metis list_all_append)
  have data: "?data = ?pre @ log_bytes ?rest @ t"
    using front(1) by (metis append.assoc log_bytes_append store_file_def)
  have pass2: "frame_loop parseRecord (replay_body (header_m m)) (Suc (length ?data)) ?data
      (length ?pre) (Ok (None, 0)) = Some (replay (header_m m) rs, length (store_file m rs))"
    using loop_log [OF rest_ok torn len(2), of "replay_body (header_m m)" ?pre "Ok (None, 0)"]
      data front(1)
    by (simp add: run_replay replay_def store_file_def add.assoc)
  have start: "(case run_frames enc_rec cp_body 8 None rs of None \<Rightarrow> 8 | Some p \<Rightarrow> p) = length ?pre"
    using front(2,3) by auto
  have "\<not> length ?data < 8" "be32 (subslice ?data 0 4) = fileMagic"
    "ucast (be32 (subslice ?data 4 8)) = header_m m"
    using header_fields [of m "log_bytes rs @ t"] by (simp_all add: store_file_def header_m_def)
  then show ?thesis
    using disk pass1 pass2 start
    by (simp add: store_Open_def os_ReadFile_def Let_def file_Truncate_def del: frame_loop.simps
        split: outcome.split prod.split)
qed

section \<open>Opening arbitrary contents\<close>

text \<open>A filter that replay has built so far is well-formed, and replay has not panicked.\<close>

definition replay_good :: "replay_state \<Rightarrow> bool" where
  "replay_good st \<longleftrightarrow> (\<exists>bf k. st = Ok (bf, k) \<and> (\<forall>f. bf = Some f \<longrightarrow> wf_bloom f))"

lemma fresh_header:
  assumes "m = ucast (h :: u32)" "m \<noteq> 0"
  shows "\<exists>f. fresh m = Some f \<and> wf_bloom f"
proof -
  have "unat m < 2 ^ 32" using ucast_u32_bound [of h] by (simp add: assms(1))
  then have "unat m < 2 ^ 64 - 7" by simp
  moreover obtain f where f: "bf_New m 7 = Ok f" using bf_New_Ok_iff [of m 7] assms(2) by auto
  ultimately show ?thesis using bf_New_wf [OF f] by (auto simp: fresh_def)
qed

lemma replay_switch_good:
  assumes "replay_good st" "m = ucast (h :: u32)" "m \<noteq> 0"
  shows "replay_good (replay_switch m st r)"
proof -
  obtain bf k where st: "st = Ok (bf, k)" "\<forall>f. bf = Some f \<longrightarrow> wf_bloom f"
    using assms(1) by (auto simp: replay_good_def)
  have "Unmarshal (rec_payload r) \<noteq> Panic" by (rule Unmarshal_no_panic)
  with st fresh_header [OF assms(2,3)] show ?thesis
    by (auto simp: replay_switch_def replay_good_def bf_Add_wf Unmarshal_wf
        split: outcome.split option.split if_split)
qed

text \<open>\<open>Open\<close> accepts every file with the magic number and a non-zero \<open>m\<close>, whatever follows.\<close>

lemma Open_arbitrary:
  assumes "w_files w path = Some data" "8 \<le> length data" "be32 (subslice data 0 4) = fileMagic"
    and "be32 (subslice data 4 8) \<noteq> 0"
  shows "\<exists>s f n. store_Open w path = (file_Truncate w \<lparr>fl_path = path, fl_pos = n\<rparr> n, Ok s)
    \<and> st_filter s = Some f \<and> wf_bloom f \<and> 8 \<le> n \<and> n \<le> length data
    \<and> parseRecord (drop n data) = None"
proof -
  let ?m = "ucast (be32 (subslice data 4 8)) :: u64" and ?fuel = "Suc (length data)"
  have m: "?m \<noteq> 0" using assms(4) by (metis ucast_0 ucast_u64_back)
  have "length data - 8 < ?fuel" by simp
  from recs.frame_loop_fuel [OF assms(2) this, of cp_body None] obtain last q
    where cp: "find_checkpoint data = Some (last, q)"
    unfolding find_checkpoint_def by blast
  define pos where "pos = (case last of None \<Rightarrow> 8 | Some p \<Rightarrow> p)"
  have "\<forall>p. last = Some p \<longrightarrow> 8 \<le> p \<and> p \<le> length data"
    by (rule recs.frame_loop_inv [OF cp [unfolded find_checkpoint_def],
          where P = "\<lambda>c. \<forall>p. c = Some p \<longrightarrow> 8 \<le> p \<and> p \<le> length data" and lo = 8])
      (auto simp: cp_body_def)
  then have pos: "8 \<le> pos" "pos \<le> length data"
    using assms(2) by (auto simp: pos_def split: option.split)
  have "length data - pos < ?fuel" by simp
  from recs.frame_loop_fuel [OF pos(2) this, of "replay_body ?m" "Ok (None, 0)"] obtain st n
    where loop: "frame_loop parseRecord (replay_body ?m) ?fuel data pos (Ok (None, 0)) = Some (st, n)"
    and n: "pos \<le> n" "n \<le> length data" "parseRecord (drop n data) = None" by blast
  have start: "replay_good (Ok (None, 0))" by (simp add: replay_good_def)
  have "replay_good st"
    by (rule recs.frame_loop_inv [OF loop, where P = replay_good and lo = 0])
      (simp_all only: start le0 replay_body_def replay_switch_good [OF _ refl m])
  then obtain bf k where st: "st = Ok (bf, k)" "\<forall>f. bf = Some f \<longrightarrow> wf_bloom f"
    by (auto simp: replay_good_def)
  obtain f k' where f: "or_fresh ?m (bf, k) = (Some f, k')" "wf_bloom f"
    using st(2) fresh_header [OF refl m] by (cases bf) (auto simp: or_fresh_def)
  let ?s = "\<lparr>st_path = path, st_f = Some \<lparr>fl_path = path, fl_pos = n\<rparr>, st_filter = Some f, st_k = k'\<rparr>"
  have "store_Open w path = (file_Truncate w \<lparr>fl_path = path, fl_pos = n\<rparr> n, Ok ?s)"
    using assms(1-3) cp loop [unfolded pos_def] st(1) f(1)
    by (simp add: store_Open_def os_ReadFile_def Let_def del: frame_loop.simps)
  with f(2) n pos show ?thesis by fastforce
qed

section \<open>The state that the log determines\<close>

definition recovered :: "u64 \<Rightarrow> StoreRecord list \<Rightarrow> replay_state" where
  "recovered m rs = and_then (replay (header_m m) rs) (\<lambda>s. Ok (or_fresh (header_m m) s))"

abbreviation add_rec :: "bytes \<Rightarrow> StoreRecord" where
  "add_rec x \<equiv> \<lparr>rec_typ = recAdd, rec_payload = x\<rparr>"

abbreviation cp_rec :: "bytes \<Rightarrow> StoreRecord" where
  "cp_rec b \<equiv> \<lparr>rec_typ = recCheckpoint, rec_payload = b\<rparr>"

lemma rec_kinds [simp]: "recAdd \<noteq> recCheckpoint" "recCheckpoint \<noteq> recAdd"
  by (simp_all add: recAdd_def recCheckpoint_def)

lemma recovered_Nil: "recovered m [] = Ok (fresh (header_m m), 7)"
  by (simp add: recovered_def replay_def or_fresh_def)

lemma recovered_add:
  assumes "recovered m rs = Ok (Some f, k)"
  shows "recovered m (rs @ [add_rec x]) = Ok (Some (bf_Add f x), k)"
proof -
  from assms obtain bf k' where r: "replay (header_m m) rs = Ok (bf, k')"
    "or_fresh (header_m m) (bf, k') = (Some f, k)"
    by (auto simp: recovered_def and_then_Ok_iff)
  have "replay (header_m m) (rs @ [add_rec x]) = replay_switch (header_m m) (Ok (bf, k')) (add_rec x)"
    using r(1) by (simp add: replay_def is_checkpoint_def)
  also have "\<dots> = Ok (Some (bf_Add f x), k)"
    using r(2) by (cases bf) (auto simp: replay_switch_def or_fresh_def)
  finally show ?thesis by (simp add: recovered_def or_fresh_def)
qed

lemma recovered_checkpoint:
  "Unmarshal b = Ok g \<Longrightarrow> recovered m (rs @ [cp_rec b]) = Ok (Some g, bf_k g)"
  by (simp add: recovered_def replay_def is_checkpoint_def replay_switch_def or_fresh_def)

lemma opened_recovered:
  "opened w path m rs =
     (case recovered m rs of
        Ok (bf, k) \<Rightarrow>
          (w\<lparr>w_files := (w_files w)(path := Some (store_file m rs))\<rparr>,
           Ok \<lparr>st_path = path, st_f = Some \<lparr>fl_path = path, fl_pos = length (store_file m rs)\<rparr>,
               st_filter = bf, st_k = k\<rparr>)
      | Err e \<Rightarrow> (w, Err e)
      | Panic \<Rightarrow> (w, Panic))"
  by (cases "replay (header_m m) rs") (auto simp: recovered_def split: prod.splits)

section \<open>Invariants of an open store\<close>

text \<open>
  The handle stands at the end of a file that holds exactly the records \<open>rs\<close>, and the
  in-memory filter is well-formed and small enough for the codec's 32-bit fields.
\<close>

definition store_log :: "World \<Rightarrow> Store \<Rightarrow> u64 \<Rightarrow> StoreRecord list \<Rightarrow> bool" where
  "store_log w s m rs \<longleftrightarrow> list_all rec_ok rs
     \<and> (\<exists>f. st_f s = Some f \<and> fl_path f = st_path s \<and> at_end w f (store_file m rs))
     \<and> (\<exists>bf. st_filter s = Some bf \<and> wf_bloom bf \<and> fits32 bf \<and> st_k s = bf_k bf)"

text \<open>Reopening the file gives the filter that is in memory.\<close>

definition store_sync :: "World \<Rightarrow> Store \<Rightarrow> u64 \<Rightarrow> StoreRecord list \<Rightarrow> bool" where
  "store_sync w s m rs \<longleftrightarrow> store_log w s m rs \<and> recovered m rs = Ok (st_filter s, st_k s)"

lemma store_file_snoc: "store_file m (rs @ [r]) = store_file m rs @ enc_rec r"
  by (simp add: store_file_def)

lemma writeRecord_Ok:
  assumes "st_f s = Some f" "fl_path f = st_path s" "at_end w f (store_file m rs)"
    and "writeRecord w s (rec_typ r) (rec_payload r) = (w', s', Ok ())"
  shows "\<exists>f'. st_f s' = Some f' \<and> fl_path f' = st_path s' \<and> at_end w' f' (store_file m (rs @ [r]))"
    and "st_filter s' = st_filter s" "st_k s' = st_k s" "st_path s' = st_path s"
proof -
  obtain w1 f1 ok where wr: "file_Write w f (enc_rec r) = (w1, f1, ok)"
    by (cases "file_Write w f (enc_rec r)") auto
  with assms have eq: "ok" "w' = w1" "s' = s\<lparr>st_f := Some f1\<rparr>"
    by (auto simp: writeRecord_def enc_rec_def split: if_splits)
  with wr file_Write_ok [OF assms(3), of "enc_rec r" w1 f1] assms(2)
  show "\<exists>f'. st_f s' = Some f' \<and> fl_path f' = st_path s' \<and> at_end w' f' (store_file m (rs @ [r]))"
    by (simp add: store_file_snoc)
  show "st_filter s' = st_filter s" "st_k s' = st_k s" "st_path s' = st_path s"
    by (simp_all add: eq)
qed

lemma fits32_add: "fits32 (bf_Add f x) = fits32 f"
  by (simp add: fits32_def)

lemma rec_ok_add: "length x < 2 ^ 32 \<Longrightarrow> rec_ok (add_rec x)"
  by (simp add: rec_ok_def)

lemma store_log_add:
  assumes "store_log w s m rs" "length x < 2 ^ 32" "store_Add w s x = (w', s', Ok ())"
  shows "store_log w' s' m (rs @ [add_rec x])"
    and "st_filter s' = map_option (\<lambda>f. bf_Add f x) (st_filter s)" "st_k s' = st_k s"
proof -
  from assms(1) obtain f bf where f: "st_f s = Some f" "fl_path f = st_path s"
      "at_end w f (store_file m rs)"
    and bf: "st_filter s = Some bf" "wf_bloom bf" "fits32 bf" "st_k s = bf_k bf"
    and ok: "list_all rec_ok rs"
    by (auto simp: store_log_def)
  let ?s = "s\<lparr>st_filter := Some (bf_Add bf x)\<rparr>"
  have wr: "writeRecord w ?s (rec_typ (add_rec x)) (rec_payload (add_rec x)) = (w', s', Ok ())"
    using assms(3) bf(1) by (simp add: store_Add_def)
  have f': "st_f ?s = Some f" "fl_path f = st_path ?s" using f by simp_all
  note res = writeRecord_Ok [OF f' f(3) wr]
  show "store_log w' s' m (rs @ [add_rec x])"
    using res ok bf assms(2) by (simp add: store_log_def rec_ok_add bf_Add_wf fits32_add)
  show "st_filter s' = map_option (\<lambda>f. bf_Add f x) (st_filter s)" "st_k s' = st_k s"
    using res bf by simp_all
qed

lemma store_sync_add:
  assumes "store_sync w s m rs" "length x < 2 ^ 32" "store_Add w s x = (w', s', Ok ())"
  shows "store_sync w' s' m (rs @ [add_rec x])"
proof -
  have log: "store_log w s m rs" and rcv: "recovered m rs = Ok (st_filter s, st_k s)"
    using assms(1) by (simp_all add: store_sync_def)
  note res = store_log_add [OF log assms(2,3)]
  obtain bf where "st_filter s = Some bf" using log by (auto simp: store_log_def)
  with res rcv recovered_add [of m rs bf "st_k s" x] show ?thesis by (simp add: store_sync_def)
qed

lemma marshal_size:
  assumes "wf_bloom bf" "fits32 bf"
  shows "length (the (Marshal (Some bf))) < 2 ^ 32"
  using assms by (simp add: wf_bloom_def fits32_def)

lemma store_sync_checkpoint:
  assumes "store_log w s m rs" "store_Checkpoint w s = (w', s', Ok ())"
  shows "\<exists>b. store_sync w' s' m (rs @ [cp_rec b])"
    and "st_filter s' = st_filter s" "st_k s' = st_k s"
proof -
  from assms(1) obtain f bf where f: "st_f s = Some f" "fl_path f = st_path s"
      "at_end w f (store_file m rs)"
    and bf: "st_filter s = Some bf" "wf_bloom bf" "fits32 bf" "st_k s = bf_k bf"
    and ok: "list_all rec_ok rs"
    by (auto simp: store_log_def)
  let ?b = "the (Marshal (Some bf))"
  have wr: "writeRecord w s (rec_typ (cp_rec ?b)) (rec_payload (cp_rec ?b)) = (w', s', Ok ())"
    using assms(2) bf(1) by (simp add: store_Checkpoint_def)
  note res = writeRecord_Ok [OF f wr]
  have "rec_ok (cp_rec ?b)" using marshal_size [OF bf(2,3)] by (simp add: rec_ok_def)
  moreover have "Unmarshal ?b = Ok bf"
    using Unmarshal_Marshal [OF bf(2,3), of ?b "[]"] by simp
  ultimately show "\<exists>b. store_sync w' s' m (rs @ [cp_rec b])"
    using res ok bf by (intro exI [of _ ?b]) (simp add: store_sync_def store_log_def recovered_checkpoint)
  show "st_filter s' = st_filter s" "st_k s' = st_k s" by (rule res)+
qed

section \<open>Creating and reopening\<close>

lemma store_Create_log:
  assumes "store_Create w path m k = (w', Ok s)" "unat m < 2 ^ 32" "unat k < 2 ^ 32"
  shows "store_log w' s m []" and "header_m m = m" "st_path s = path"
    and "\<exists>bf. bf_New m k = Ok bf \<and> st_filter s = Some bf \<and> st_k s = k"
proof -
  obtain bf where bf: "bf_New m k = Ok bf"
    using assms(1) by (auto simp: store_Create_def split: outcome.splits prod.splits if_splits)
  let ?w = "fst (os_Create w path)" and ?f = "snd (os_Create w path)"
  have at: "at_end ?w ?f []" "fl_path ?f = path" by (simp_all add: os_Create_def at_end_def)
  obtain w1 f1 ok where wr: "file_Write ?w ?f (header_bytes m) = (w1, f1, ok)"
    by (cases "file_Write ?w ?f (header_bytes m)") auto
  with assms(1) bf have eq: ok "w' = w1"
      "s = \<lparr>st_path = path, st_f = Some f1, st_filter = Some bf, st_k = k\<rparr>"
    by (auto simp: store_Create_def split: prod.splits if_splits)
  have "at_end w' f1 (store_file m [])" "fl_path f1 = path"
    using file_Write_ok [OF at(1), of "header_bytes m" w1 f1] wr eq at(2)
    by (simp_all add: store_file_def)
  moreover have "wf_bloom bf" "fits32 bf" "bf_k bf = k"
    using bf_New_wf [OF bf] assms(2,3) by (simp_all add: fits32_def)
  ultimately show "store_log w' s m []" by (simp add: store_log_def eq(3))
  show "header_m m = m" using assms(2) by (simp add: header_m_def unat_u64_ucast_u32)
  show "st_path s = path" "\<exists>bf. bf_New m k = Ok bf \<and> st_filter s = Some bf \<and> st_k s = k"
    using bf by (simp_all add: eq(3))
qed

lemma fresh_New: "m \<noteq> 0 \<Longrightarrow> bf_New m 7 = Ok f \<Longrightarrow> fresh m = Some f"
  by (simp add: fresh_def)

lemma store_Create_sync:
  assumes "store_Create w path m 7 = (w', Ok s)" "unat m < 2 ^ 32"
  shows "store_sync w' s m []"
proof -
  have seven: "unat (7 :: u64) < 2 ^ 32" by simp
  note res = store_Create_log [OF assms(1,2) seven]
  then show ?thesis
    by (auto simp: store_sync_def recovered_Nil fresh_def)
qed

text \<open>Opening a file of records with any unparsable tail yields the recovered state.\<close>

lemma Open_recovered:
  assumes "w_files w path = Some (store_file m rs @ t)" "list_all rec_ok rs"
    and "parseRecord t = None" "recovered m rs = Ok (Some bf, k)" "wf_bloom bf" "fits32 bf" "k = bf_k bf"
  shows "\<exists>w' s'. store_Open w path = (w', Ok s') \<and> store_sync w' s' m rs
    \<and> st_filter s' = Some bf \<and> st_k s' = k \<and> st_path s' = path
    \<and> w_files w' path = Some (store_file m rs)"
proof -
  let ?w = "w\<lparr>w_files := (w_files w)(path := Some (store_file m rs))\<rparr>"
  let ?s = "\<lparr>st_path = path, st_f = Some \<lparr>fl_path = path, fl_pos = length (store_file m rs)\<rparr>,
      st_filter = Some bf, st_k = k\<rparr>"
  have "store_Open w path = (?w, Ok ?s)"
    unfolding Open_log [OF assms(1-3)] opened_recovered by (simp add: assms(4))
  moreover have "store_sync ?w ?s m rs"
    using assms(2,4-) by (simp add: store_sync_def store_log_def at_end_def)
  ultimately show ?thesis
    by (intro exI [of _ ?w] exI [of _ ?s]) simp
qed

section \<open>Runs\<close>

datatype store_op = OpAdd bytes | OpCheckpoint

text \<open>A client that stops at the first error.\<close>

fun store_run ::
  "World \<Rightarrow> Store \<Rightarrow> store_op list \<Rightarrow> World \<times> Store \<times> (store_error, unit) outcome" where
  "store_run w s [] = (w, s, Ok ())"
| "store_run w s (OpAdd x # ops) =
     (case store_Add w s x of
        (w, s, Ok _) \<Rightarrow> store_run w s ops
      | (w, s, Err e) \<Rightarrow> (w, s, Err e)
      | (w, s, Panic) \<Rightarrow> (w, s, Panic))"
| "store_run w s (OpCheckpoint # ops) =
     (case store_Checkpoint w s of
        (w, s, Ok _) \<Rightarrow> store_run w s ops
      | (w, s, Err e) \<Rightarrow> (w, s, Err e)
      | (w, s, Panic) \<Rightarrow> (w, s, Panic))"

fun small_op :: "store_op \<Rightarrow> bool" where
  "small_op (OpAdd x) \<longleftrightarrow> length x < 2 ^ 32"
| "small_op OpCheckpoint \<longleftrightarrow> True"

lemma store_run_Cons_Ok:
  assumes "store_run w s (op # ops) = (w', s', Ok ())"
  obtains w1 s1 where "store_run w1 s1 ops = (w', s', Ok ())"
    "case op of OpAdd x \<Rightarrow> store_Add w s x = (w1, s1, Ok ())
       | OpCheckpoint \<Rightarrow> store_Checkpoint w s = (w1, s1, Ok ())"
  using assms by (cases op) (auto split: prod.splits outcome.splits)

lemma store_run_sync:
  assumes "store_run w s ops = (w', s', Ok ())" "list_all small_op ops" "store_log w s m rs"
    and "store_sync w s m rs \<or> OpCheckpoint \<in> set ops"
  shows "\<exists>rs'. store_sync w' s' m rs'"
  using assms
proof (induction ops arbitrary: w s rs)
  case Nil
  then show ?case by auto
next
  case (Cons op ops)
  from Cons.prems(1) obtain w1 s1 where rest: "store_run w1 s1 ops = (w', s', Ok ())"
    and step: "case op of OpAdd x \<Rightarrow> store_Add w s x = (w1, s1, Ok ())
       | OpCheckpoint \<Rightarrow> store_Checkpoint w s = (w1, s1, Ok ())"
    by (rule store_run_Cons_Ok)
  show ?case
  proof (cases op)
    case (OpAdd x)
    with step Cons.prems(2) have add: "store_Add w s x = (w1, s1, Ok ())" "length x < 2 ^ 32"
      by simp_all
    have "store_sync w1 s1 m (rs @ [add_rec x]) \<or> OpCheckpoint \<in> set ops"
      using Cons.prems(4) store_sync_add [OF _ add(2,1)] OpAdd by auto
    then show ?thesis
      using Cons.IH [OF rest _ store_log_add(1) [OF Cons.prems(3) add(2,1)]] Cons.prems(2) by simp
  next
    case OpCheckpoint
    with step have "store_Checkpoint w s = (w1, s1, Ok ())" by simp
    from store_sync_checkpoint(1) [OF Cons.prems(3) this] obtain b
      where "store_sync w1 s1 m (rs @ [cp_rec b])" by blast
    then show ?thesis
      using Cons.IH [OF rest] Cons.prems(2) by (auto simp: store_sync_def)
  qed
qed

text \<open>
  Whatever \<open>k\<close> the store was created with, both the in-memory filter and the filter that
  the log determines contain every element added.
\<close>

definition store_covers :: "World \<Rightarrow> Store \<Rightarrow> u64 \<Rightarrow> StoreRecord list \<Rightarrow> bytes set \<Rightarrow> bool" where
  "store_covers w s m rs X \<longleftrightarrow> store_log w s m rs
     \<and> (\<exists>g bf. recovered m rs = Ok (Some g, bf_k g) \<and> wf_bloom g \<and> fits32 g
          \<and> st_filter s = Some bf \<and> (\<forall>x \<in> X. bf_Test g x \<and> bf_Test bf x))"

fun op_items :: "store_op list \<Rightarrow> bytes set" where
  "op_items [] = {}"
| "op_items (OpAdd x # ops) = insert x (op_items ops)"
| "op_items (OpCheckpoint # ops) = op_items ops"

lemma store_covers_add:
  assumes "store_covers w s m rs X" "length x < 2 ^ 32" "store_Add w s x = (w', s', Ok ())"
  shows "store_covers w' s' m (rs @ [add_rec x]) (insert x X)"
proof -
  from assms(1) obtain g bf where log: "store_log w s m rs"
    and g: "recovered m rs = Ok (Some g, bf_k g)" "wf_bloom g" "fits32 g"
    and bf: "st_filter s = Some bf" "wf_bloom bf" "\<forall>x \<in> X. bf_Test g x \<and> bf_Test bf x"
    by (auto simp: store_covers_def store_log_def)
  note res = store_log_add [OF log assms(2,3)]
  have "\<forall>y \<in> insert x X. bf_Test (bf_Add g x) y \<and> bf_Test (bf_Add bf x) y"
    using g(2) bf(2,3) by (auto intro: bloom.test_added bloom.test_mono)
  then show ?thesis
    using res(1,2) bf(1) recovered_add [OF g(1), of x] g(2,3)
    by (auto simp: store_covers_def bf_Add_wf fits32_add intro!: exI [of _ "bf_Add g x"])
qed

lemma store_covers_checkpoint:
  assumes "store_covers w s m rs X" "store_Checkpoint w s = (w', s', Ok ())"
  shows "\<exists>b. store_covers w' s' m (rs @ [cp_rec b]) X"
proof -
  from assms(1) have log: "store_log w s m rs" by (simp add: store_covers_def)
  from assms(1) obtain bf where bf: "st_filter s = Some bf" "\<forall>x \<in> X. bf_Test bf x"
    by (auto simp: store_covers_def)
  note res = store_sync_checkpoint [OF log assms(2)]
  from res(1) obtain b where "store_sync w' s' m (rs @ [cp_rec b])" by blast
  with res(2,3) bf show ?thesis
    by (auto simp: store_covers_def store_sync_def store_log_def)
qed

lemma store_run_covers:
  assumes "store_run w s ops = (w', s', Ok ())" "list_all small_op ops" "store_covers w s m rs X"
  shows "\<exists>rs'. store_covers w' s' m rs' (X \<union> op_items ops)"
  using assms
proof (induction ops arbitrary: w s rs X)
  case Nil
  then show ?case by auto
next
  case (Cons op ops)
  from Cons.prems(1) obtain w1 s1 where rest: "store_run w1 s1 ops = (w', s', Ok ())"
    and step: "case op of OpAdd x \<Rightarrow> store_Add w s x = (w1, s1, Ok ())
       | OpCheckpoint \<Rightarrow> store_Checkpoint w s = (w1, s1, Ok ())"
    by (rule store_run_Cons_Ok)
  have small: "list_all small_op ops" using Cons.prems(2) by simp
  show ?case
  proof (cases op)
    case (OpAdd x)
    with step Cons.prems(2) have "store_covers w1 s1 m (rs @ [add_rec x]) (insert x X)"
      by (intro store_covers_add [OF Cons.prems(3)]) simp_all
    with Cons.IH [OF rest small, of "rs @ [add_rec x]" "insert x X"] OpAdd show ?thesis by simp
  next
    case OpCheckpoint
    with step store_covers_checkpoint [OF Cons.prems(3)] obtain b
      where "store_covers w1 s1 m (rs @ [cp_rec b]) X" by auto
    with Cons.IH [OF rest small] OpCheckpoint show ?thesis by simp
  qed
qed

lemma store_Create_covers:
  assumes "store_Create w path m k = (w', Ok s)" "unat m < 2 ^ 32" "unat k < 2 ^ 32"
  shows "store_covers w' s m [] {}"
proof -
  note res = store_Create_log [OF assms]
  then have "m \<noteq> 0" by (auto simp: bf_New_def split: if_splits)
  then obtain g where g: "bf_New m 7 = Ok g" by (auto simp: bf_New_def)
  have "unat m < 2 ^ 64 - 7" using assms(2) by simp
  note wf = bf_New_wf [OF g this]
  have "recovered m [] = Ok (Some g, bf_k g)"
    using g wf res(2) by (simp add: recovered_Nil fresh_def)
  then show ?thesis
    using res wf assms(2) by (auto simp: store_covers_def fits32_def)
qed

section \<open>Crashes\<close>

text \<open>The disk after a crash in the middle of writing the record of item \<open>y\<close>: its first \<open>n\<close> bytes.\<close>

definition crashed :: "World \<Rightarrow> string \<Rightarrow> bytes \<Rightarrow> nat \<Rightarrow> World" where
  "crashed w path y n = w\<lparr>w_files := (w_files w)(path :=
     map_option (\<lambda>d. d @ take n (encodeRecord recAdd y)) (w_files w path))\<rparr>"

lemma torn_record:
  "length y < 2 ^ 32 \<Longrightarrow> n < length (encodeRecord recAdd y) \<Longrightarrow>
     parseRecord (take n (encodeRecord recAdd y)) = None"
  using parse_torn [of "add_rec y" n] by (simp add: rec_ok_add enc_rec_def)

lemma store_log_file: "store_log w s m rs \<Longrightarrow> w_files w (st_path s) = Some (store_file m rs)"
  by (auto simp: store_log_def at_end_def)

lemma store_run_path: "store_run w s ops = (w', s', r) \<Longrightarrow> st_path s' = st_path s"
proof (induction ops arbitrary: w s)
  case (Cons op ops)
  have path: "st_path s1 = st_path s0" if "writeRecord w0 s0 ty p = (w1, s1, r1)" for w0 s0 ty p w1 s1 r1
    using that by (auto simp: writeRecord_def split: option.splits prod.splits)
  from Cons show ?case
    by (cases op)
      (auto simp: store_Add_def store_Checkpoint_def Let_def dest!: path
        split: prod.splits outcome.splits option.splits)
qed simp

lemma reopen_covers:
  assumes "store_covers w s m rs X" "length y < 2 ^ 32" "n < length (encodeRecord recAdd y)"
  shows "\<exists>w' s'. store_Open (crashed w (st_path s) y n) (st_path s) = (w', Ok s')
    \<and> (\<forall>x \<in> X. store_Test s' x = Ok True)"
proof -
  from assms(1) obtain g where log: "store_log w s m rs"
    and g: "recovered m rs = Ok (Some g, bf_k g)" "wf_bloom g" "fits32 g" "\<forall>x \<in> X. bf_Test g x"
    by (auto simp: store_covers_def)
  have "w_files (crashed w (st_path s) y n) (st_path s)
      = Some (store_file m rs @ take n (encodeRecord recAdd y))"
    using store_log_file [OF log] by (simp add: crashed_def)
  moreover have "list_all rec_ok rs" using log by (simp add: store_log_def)
  ultimately obtain w' s' where "store_Open (crashed w (st_path s) y n) (st_path s) = (w', Ok s')"
    "st_filter s' = Some g"
    using Open_recovered [OF _ _ torn_record [OF assms(2,3)] g(1-3) refl] by blast
  with g(4) show ?thesis by (auto simp: store_Test_def)
qed

lemma reopen_sync:
  assumes "store_sync w s m rs" "length y < 2 ^ 32" "n < length (encodeRecord recAdd y)"
  shows "\<exists>w' s'. store_Open (crashed w (st_path s) y n) (st_path s) = (w', Ok s')
    \<and> st_filter s' = st_filter s \<and> st_k s' = st_k s
    \<and> w_files w' (st_path s) = w_files w (st_path s) \<and> store_sync w' s' m rs"
proof -
  have log: "store_log w s m rs" using assms(1) by (simp add: store_sync_def)
  then obtain bf where bf: "st_filter s = Some bf" "wf_bloom bf" "fits32 bf" "st_k s = bf_k bf"
    by (auto simp: store_log_def)
  have "w_files (crashed w (st_path s) y n) (st_path s)
      = Some (store_file m rs @ take n (encodeRecord recAdd y))"
    using store_log_file [OF log] by (simp add: crashed_def)
  moreover have "list_all rec_ok rs" using log by (simp add: store_log_def)
  moreover have "recovered m rs = Ok (Some bf, st_k s)"
    using assms(1) bf by (simp add: store_sync_def)
  ultimately show ?thesis
    using Open_recovered [OF _ _ torn_record [OF assms(2,3)] _ bf(2,3,4)] store_log_file [OF log] bf(1)
    by fastforce
qed

text \<open>On a device with room, no operation of an open store fails.\<close>

lemma writeRecord_unlimited:
  assumes "w_quota w = None" "st_f s \<noteq> None"
  shows "\<exists>w' s'. writeRecord w s ty p = (w', s', Ok ()) \<and> w_quota w' = None \<and> st_f s' \<noteq> None
    \<and> st_filter s' = st_filter s"
  using assms by (auto simp: writeRecord_def file_Write_def accepted_def Let_def)

lemma store_run_unlimited:
  "w_quota w = None \<Longrightarrow> st_f s \<noteq> None \<Longrightarrow> st_filter s \<noteq> None \<Longrightarrow>
     \<exists>w' s'. store_run w s ops = (w', s', Ok ())"
proof (induction ops arbitrary: w s)
  case (Cons op ops)
  show ?case
  proof (cases op)
    case (OpAdd x)
    from Cons.prems(3) obtain f where f: "st_filter s = Some f" by auto
    have "st_f (s\<lparr>st_filter := Some (bf_Add f x)\<rparr>) \<noteq> None" using Cons.prems(2) by simp
    from writeRecord_unlimited [OF Cons.prems(1) this, of recAdd x] obtain w1 s1
      where "store_Add w s x = (w1, s1, Ok ())" "w_quota w1 = None" "st_f s1 \<noteq> None" "st_filter s1 \<noteq> None"
      using f by (auto simp: store_Add_def)
    with Cons.IH [of w1 s1] OpAdd show ?thesis by auto
  next
    case OpCheckpoint
    from writeRecord_unlimited [OF Cons.prems(1,2)] obtain w1 s1
      where "store_Checkpoint w s = (w1, s1, Ok ())" "w_quota w1 = None" "st_f s1 \<noteq> None"
        "st_filter s1 = st_filter s"
      unfolding store_Checkpoint_def Let_def by blast
    with Cons.IH [of w1 s1] Cons.prems(3) OpCheckpoint show ?thesis by auto
  qed
qed simp

lemma store_Create_unlimited:
  assumes "w_quota w = None" "m \<noteq> 0" "k \<noteq> 0"
  shows "\<exists>w' s. store_Create w path m k = (w', Ok s) \<and> w_quota w' = None \<and> st_f s \<noteq> None
    \<and> st_filter s \<noteq> None \<and> st_path s = path"
  using assms by (simp add: store_Create_def bf_New_def os_Create_def file_Write_def accepted_def Let_def)

text \<open>A new store on such a device after some operations.\<close>

lemma store_session:
  assumes "m \<noteq> 0" "k \<noteq> 0"
  obtains w1 s w2 s2 where
    "store_Create \<lparr>w_files = \<lambda>_. None, w_quota = None, w_sync = True\<rparr> ''f'' m k = (w1, Ok s)"
    "store_run w1 s ops = (w2, s2, Ok ())" "st_path s = ''f''"
proof -
  let ?w = "\<lparr>w_files = \<lambda>_. None, w_quota = None, w_sync = True\<rparr>"
  obtain w1 s where new: "store_Create ?w ''f'' m k = (w1, Ok s)"
    "w_quota w1 = None" "st_f s \<noteq> None" "st_filter s \<noteq> None" "st_path s = ''f''"
    using store_Create_unlimited [of ?w m k "''f''"] assms by auto
  from store_run_unlimited [OF new(2,3,4), of ops] obtain w2 s2
    where "store_run w1 s ops = (w2, s2, Ok ())" by blast
  then show thesis by (rule that [OF new(1) _ new(5)])
qed

section \<open>Properties\<close>







text \<open>The header keeps only the low 32 bits of \<open>m\<close>: a store created with \<open>m\<close> a multiple of
  $2^{32}$ takes additions, but opening its file with an \<open>Add\<close> record in it panics.\<close>

lemma truncated_m_panics:
  assumes "unat m mod 2 ^ 32 = 0" "w_files w path = Some (store_file m [add_rec x])" "length x < 2 ^ 32"
  shows "snd (store_Open w path) = Panic"
proof -
  have "unat (ucast m :: u32) = 0"
    using assms(1) by (simp add: unsigned_ucast_eq take_bit_eq_mod)
  then have m: "header_m m = 0" by (simp add: header_m_def unat_eq_zero)
  have none: "parseRecord [] = None" by (rule recs.dec_Nil)
  have "store_Open w path = opened w path m [add_rec x]"
    by (rule Open_log [OF _ _ none]) (use assms in \<open>simp_all add: rec_ok_add\<close>)
  moreover have "recovered m [add_rec x] = Panic"
    by (simp add: recovered_def replay_def from_checkpoint_def is_checkpoint_def replay_switch_def
        fresh_def bf_New_def m)
  ultimately show ?thesis by (simp only: opened_recovered) simp
qed

lemma truncated_m_panics_witness:
  "snd (store_Open \<lparr>w_files = [''f'' \<mapsto> store_file 0x100000000 [add_rec [65]]], w_quota = None,
     w_sync = True\<rparr> ''f'') = Panic"
  using truncated_m_panics [of "0x100000000" _ "''f''" "[65]"] by simp

end
