(* ===== verification/Wal.thy ===== *)
theory Wal
  imports Codec Disk
begin

text \<open>
  \<open>internal/store/wal.go\<close>: the write-ahead log. Entries are numbered, buffered in memory and
  written in batches to a file opened with \<open>O_APPEND\<close>. A buffer's capacity is a field because
  \<open>Append\<close> flushes when \<open>len(buf) >= cap(buf)\<close>; how Go's \<open>append\<close> enlarges a full slice is not
  specified by the language, so the new capacity is an argument \<open>grow\<close> of \<open>wal_Append\<close>. The mutex
  serialises the operations and has no counterpart here.
\<close>

section \<open>Entries\<close>

record WALEntry =
  we_seq :: u64
  we_type :: byte
  we_payload :: bytes

abbreviation (input) walEntryHeader :: nat where "walEntryHeader \<equiv> 13"
abbreviation (input) walEntryCRC :: nat where "walEntryCRC \<equiv> 4"

definition encodeWALEntry :: "WALEntry \<Rightarrow> bytes" where
  "encodeWALEntry e =
     (let buf = put_be64 (we_seq e) @ [we_type e]
            @ put_be32 (word_of_nat (length (we_payload e))) @ we_payload e
      in buf @ put_be32 (crc32_ieee buf))"

definition decodeWALEntry :: "bytes \<Rightarrow> (WALEntry \<times> nat) option" where
  "decodeWALEntry data =
     (if length data < walEntryHeader + walEntryCRC then None
      else let seq = be64 (subslice data 0 8);
               typ = data ! 8;
               pLen = unat (be32 (subslice data 9 13));
               total = walEntryHeader + pLen + walEntryCRC
           in if length data < total then None
              else let stored = be32 (subslice data (total - walEntryCRC) total);
                       computed = crc32_ieee (take (walEntryHeader + pLen) data)
                   in if stored \<noteq> computed then None
                      else Some (\<lparr>we_seq = seq, we_type = typ,
                             we_payload = subslice data 13 (13 + pLen)\<rparr>, total))"

section \<open>The log and its operations\<close>

record WAL =
  wal_path :: string
  wal_open :: bool
  wal_seq :: u64
  wal_buf :: "WALEntry list"
  wal_cap :: nat
  wal_flushed :: u64

datatype wal_error = WalWriteErr | WalSyncErr | WalClosed | WalNotExist

text \<open>The largest sequence number in the valid prefix of the file.\<close>

definition max_seq :: "u64 \<Rightarrow> nat \<Rightarrow> WALEntry \<Rightarrow> u64" where
  "max_seq maxSeq pos entry = (if we_seq entry > maxSeq then we_seq entry else maxSeq)"

definition replaySeq :: "World \<Rightarrow> string \<Rightarrow> u64 option" where
  "replaySeq w path =
     (case os_ReadFile w path of
        None \<Rightarrow> Some 0
      | Some data \<Rightarrow>
          map_option fst (frame_loop decodeWALEntry max_seq (Suc (length data)) data 0 0))"

definition OpenWAL :: "World \<Rightarrow> string \<Rightarrow> int \<Rightarrow> World \<times> (wal_error, WAL) outcome" where
  "OpenWAL w path bufferSize =
     (let w = os_OpenAppend w path;
          bufferSize = (if bufferSize \<le> 0 then 32 else bufferSize)
      in case replaySeq w path of
           None \<Rightarrow> (w, Panic)
         | Some seq \<Rightarrow>
             (w, Ok \<lparr>wal_path = path, wal_open = True, wal_seq = seq, wal_buf = [],
                    wal_cap = nat bufferSize, wal_flushed = 0\<rparr>))"

text \<open>The loop of \<open>flushLocked\<close>: one write per entry, stopping at the first error.\<close>

fun write_entries :: "World \<Rightarrow> WAL \<Rightarrow> WALEntry list \<Rightarrow> World \<times> bool" where
  "write_entries w l [] = (w, True)"
| "write_entries w l (e # es) =
     (case file_Append w (wal_path l) (encodeWALEntry e) of
        (w, ok) \<Rightarrow> if \<not> ok then (w, False) else write_entries w l es)"

definition flushLocked :: "World \<Rightarrow> WAL \<Rightarrow> World \<times> WAL \<times> (wal_error, unit) outcome" where
  "flushLocked w l =
     (if \<not> wal_open l then (w, l, Err WalClosed)
      else case write_entries w l (wal_buf l) of
        (w, ok) \<Rightarrow>
          if \<not> ok then (w, l, Err WalWriteErr)
          else if \<not> w_sync w then (w, l, Err WalSyncErr)
          else (w, l\<lparr>wal_flushed := wal_seq l, wal_buf := []\<rparr>, Ok ()))"

definition wal_Append ::
  "(nat \<Rightarrow> nat) \<Rightarrow> World \<Rightarrow> WAL \<Rightarrow> byte \<Rightarrow> bytes \<Rightarrow> World \<times> WAL \<times> (wal_error, unit) outcome" where
  "wal_Append grow w l typ payload =
     (let seq = wal_seq l + 1;
          entry = \<lparr>we_seq = seq, we_type = typ, we_payload = payload\<rparr>;
          cap = (if length (wal_buf l) < wal_cap l then wal_cap l else grow (wal_cap l));
          l = l\<lparr>wal_seq := seq, wal_buf := wal_buf l @ [entry], wal_cap := cap\<rparr>
      in if length (wal_buf l) \<ge> wal_cap l then flushLocked w l
         else (w, l, Ok ()))"

definition wal_Flush :: "World \<Rightarrow> WAL \<Rightarrow> World \<times> WAL \<times> (wal_error, unit) outcome" where
  "wal_Flush w l = flushLocked w l"

definition wal_Pending :: "WAL \<Rightarrow> nat" where
  "wal_Pending l = length (wal_buf l)"

definition wal_Close :: "World \<Rightarrow> WAL \<Rightarrow> World \<times> WAL \<times> (wal_error, unit) outcome" where
  "wal_Close w l =
     (case wal_Flush w l of
        (w, l, Ok _) \<Rightarrow> (w, l\<lparr>wal_open := False\<rparr>, Ok ())
      | (w, l, Err e) \<Rightarrow> (w, l, Err e)
      | (w, l, Panic) \<Rightarrow> (w, l, Panic))"

definition collect :: "WALEntry list \<Rightarrow> nat \<Rightarrow> WALEntry \<Rightarrow> WALEntry list" where
  "collect entries pos entry = entries @ [entry]"

definition ReadAll :: "World \<Rightarrow> string \<Rightarrow> (wal_error, WALEntry list) outcome" where
  "ReadAll w path =
     (case os_ReadFile w path of
        None \<Rightarrow> Err WalNotExist
      | Some data \<Rightarrow>
          (case frame_loop decodeWALEntry collect (Suc (length data)) data 0 [] of
             Some (entries, _) \<Rightarrow> Ok entries
           | None \<Rightarrow> Panic))"

section \<open>The entry format is self-delimiting\<close>

definition entry_ok :: "WALEntry \<Rightarrow> bool" where
  "entry_ok e \<longleftrightarrow> length (we_payload e) < 2 ^ 32"

definition entry_body :: "WALEntry \<Rightarrow> bytes" where
  "entry_body e = put_be64 (we_seq e) @ [we_type e]
     @ put_be32 (word_of_nat (length (we_payload e))) @ we_payload e"

lemma length_entry_body [simp]: "length (entry_body e) = 13 + length (we_payload e)"
  by (simp add: entry_body_def)

lemma encodeWALEntry_body: "encodeWALEntry e = entry_body e @ put_be32 (crc32_ieee (entry_body e))"
  by (simp add: encodeWALEntry_def entry_body_def Let_def)

lemma length_encodeWALEntry [simp]: "length (encodeWALEntry e) = 17 + length (we_payload e)"
  by (simp add: encodeWALEntry_body)

lemma entry_body_fields:
  "subslice (entry_body e @ x) 0 8 = put_be64 (we_seq e)"
  "(entry_body e @ x) ! 8 = we_type e"
  "subslice (entry_body e @ x) 9 13 = put_be32 (word_of_nat (length (we_payload e)))"
  "subslice (entry_body e @ x) 13 (13 + length (we_payload e)) = we_payload e"
  by (simp_all add: entry_body_def subslice_all nth_append)

lemma unat_len_u32: "n < 2 ^ 32 \<Longrightarrow> unat (word_of_nat n :: u32) = n"
  by (simp add: unsigned_of_nat take_bit_nat_eq_self_iff)

lemma decode_encode:
  assumes "entry_ok e"
  shows "decodeWALEntry (encodeWALEntry e @ rest) = Some (e, length (encodeWALEntry e))"
proof -
  have n: "length (we_payload e) < 2 ^ 32" using assms by (simp add: entry_ok_def)
  show ?thesis
    using entry_body_fields [of e "put_be32 (crc32_ieee (entry_body e)) @ rest"] unat_len_u32 [OF n]
    by (simp add: decodeWALEntry_def Let_def encodeWALEntry_body subslice_all)
qed

text \<open>A header that announces more bytes than there are is refused, whatever follows it.\<close>

lemma decode_short:
  assumes "entry_ok e" "13 \<le> n" "n \<le> length (encodeWALEntry e)"
    and "n + length x < length (encodeWALEntry e)"
  shows "decodeWALEntry (take n (encodeWALEntry e) @ x) = None"
proof -
  have "subslice (take n (encodeWALEntry e) @ x) 9 13 = subslice (encodeWALEntry e) 9 13"
    using assms(2,3) by (auto simp: subslice_def drop_take min_def)
  also have "\<dots> = put_be32 (word_of_nat (length (we_payload e)))"
    using entry_body_fields(3) [of e] by (simp add: encodeWALEntry_body)
  finally have "unat (be32 (subslice (take n (encodeWALEntry e) @ x) 9 13)) = length (we_payload e)"
    using assms(1) by (simp add: entry_ok_def unat_len_u32)
  then show ?thesis using assms(3,4) by (simp add: decodeWALEntry_def Let_def)
qed

lemma decode_torn:
  assumes "entry_ok e" "n < length (encodeWALEntry e)"
  shows "decodeWALEntry (take n (encodeWALEntry e)) = None"
proof (cases "n < 13")
  case True
  then show ?thesis by (simp add: decodeWALEntry_def)
next
  case False
  then show ?thesis using decode_short [of e n "[]"] assms by simp
qed

lemma decode_progress: "decodeWALEntry bs = Some (e, n) \<Longrightarrow> 0 < n \<and> n \<le> length bs"
  by (auto simp: decodeWALEntry_def Let_def split: if_splits)

interpretation entries: framing encodeWALEntry decodeWALEntry entry_ok
  by unfold_locales (fact decode_encode decode_torn decode_progress)+

section \<open>Reading a log back\<close>

definition wal_bytes :: "WALEntry list \<Rightarrow> bytes" where
  "wal_bytes es = concat (map encodeWALEntry es)"

lemma wal_bytes_simps [simp]:
  "wal_bytes [] = []" "wal_bytes (e # es) = encodeWALEntry e @ wal_bytes es"
  "wal_bytes (es @ es') = wal_bytes es @ wal_bytes es'"
  by (simp_all add: wal_bytes_def)

lemma run_collect: "run_frames enc collect p acc es = acc @ es"
  by (induction es arbitrary: p acc) (simp_all add: collect_def)

definition seq_max :: "u64 \<Rightarrow> WALEntry list \<Rightarrow> u64" where
  "seq_max = foldl (\<lambda>m e. max m (we_seq e))"

lemma max_seq_max: "max_seq m p e = max m (we_seq e)"
  by (auto simp: max_seq_def max_def)

lemma run_max_seq: "run_frames enc max_seq p m es = seq_max m es"
  by (induction es arbitrary: p m) (simp_all add: max_seq_max seq_max_def)

lemma wal_loop:
  assumes "list_all entry_ok es" "decodeWALEntry t = None"
  shows "frame_loop decodeWALEntry body (Suc (length (wal_bytes es @ t))) (wal_bytes es @ t) 0 st
    = Some (run_frames encodeWALEntry body 0 st es, length (wal_bytes es))"
proof -
  have "length es < Suc (length (wal_bytes es @ t))"
    using entries.length_log [OF assms(1)] by (simp add: wal_bytes_def)
  from entries.frame_loop_log [OF assms this, of body "[]" st]
  show ?thesis by (simp add: wal_bytes_def del: frame_loop.simps)
qed

lemma ReadAll_log:
  assumes "w_files w path = Some (wal_bytes es @ t)" "list_all entry_ok es" "decodeWALEntry t = None"
  shows "ReadAll w path = Ok es"
  using assms(1) wal_loop [OF assms(2,3), of collect "[]"]
  by (simp add: ReadAll_def os_ReadFile_def run_collect del: frame_loop.simps)

lemma replaySeq_log:
  assumes "w_files w path = Some (wal_bytes es @ t)" "list_all entry_ok es" "decodeWALEntry t = None"
  shows "replaySeq w path = Some (seq_max 0 es)"
  using assms(1) wal_loop [OF assms(2,3), of max_seq 0]
  by (simp add: replaySeq_def os_ReadFile_def run_max_seq del: frame_loop.simps)

lemma decode_Nil: "decodeWALEntry [] = None"
  by (rule entries.dec_Nil)

text \<open>Reading an existing file always ends, whatever it holds.\<close>

lemma ReadAll_total: "w_files w path \<noteq> None \<Longrightarrow> \<exists>es. ReadAll w path = Ok es"
proof -
  assume "w_files w path \<noteq> None"
  then obtain data where data: "w_files w path = Some data" by auto
  from entries.frame_loop_fuel [of 0 data "Suc (length data)" collect "[]"] obtain es q
    where "frame_loop decodeWALEntry collect (Suc (length data)) data 0 [] = Some (es, q)"
    by auto
  with data show ?thesis by (simp add: ReadAll_def os_ReadFile_def del: frame_loop.simps)
qed

section \<open>Invariant: the log is what was appended\<close>

text \<open>
  The file holds exactly the entries \<open>es\<close>; \<open>es\<close> and the buffer together are the entries
  numbered 1, 2, ... up to the current sequence number.
\<close>

definition numbered :: "WALEntry list \<Rightarrow> bool" where
  "numbered es \<longleftrightarrow> map we_seq es = map word_of_nat [1..<Suc (length es)]"

definition wal_inv :: "World \<Rightarrow> WAL \<Rightarrow> WALEntry list \<Rightarrow> bool" where
  "wal_inv w l es \<longleftrightarrow> wal_open l \<and> w_files w (wal_path l) = Some (wal_bytes es)
     \<and> list_all entry_ok (es @ wal_buf l) \<and> numbered (es @ wal_buf l)
     \<and> wal_seq l = word_of_nat (length (es @ wal_buf l)) \<and> 0 < wal_cap l"

lemma numbered_snoc:
  "numbered es \<Longrightarrow> we_seq e = word_of_nat (length es) + 1 \<Longrightarrow> numbered (es @ [e])"
  by (simp add: numbered_def)

lemma write_entries_ok:
  "w_files w (wal_path l) = Some bs \<Longrightarrow> write_entries w l es = (w', True) \<Longrightarrow>
     w_files w' (wal_path l) = Some (bs @ wal_bytes es)"
proof (induction es arbitrary: w bs)
  case Nil
  then show ?case by simp
next
  case (Cons e es)
  then obtain w1 where "file_Append w (wal_path l) (encodeWALEntry e) = (w1, True)"
    and rest: "write_entries w1 l es = (w', True)"
    by (auto split: prod.splits if_splits)
  with Cons.prems(1) have "w_files w1 (wal_path l) = Some (bs @ encodeWALEntry e)"
    by (intro file_Append_ok)
  from Cons.IH [OF this rest] show ?case by simp
qed

lemma flushLocked_ok:
  assumes "w_files w (wal_path l) = Some bs" "flushLocked w l = (w', l', Ok ())"
  shows "w_files w' (wal_path l) = Some (bs @ wal_bytes (wal_buf l))"
    and "l' = l\<lparr>wal_flushed := wal_seq l, wal_buf := []\<rparr>" "wal_open l"
  using assms write_entries_ok [OF assms(1), of "wal_buf l"]
  by (auto simp: flushLocked_def split: prod.splits if_splits)

lemma wal_inv_flush:
  assumes "wal_inv w l es" "flushLocked w l = (w', l', Ok ())"
  shows "wal_inv w' l' (es @ wal_buf l)" "wal_buf l' = []" "wal_cap l' = wal_cap l"
    "wal_path l' = wal_path l" "wal_flushed l' = wal_seq l'"
proof -
  have "w_files w (wal_path l) = Some (wal_bytes es)" using assms(1) by (simp add: wal_inv_def)
  note res = flushLocked_ok [OF this assms(2)]
  show "wal_inv w' l' (es @ wal_buf l)"
    using assms(1) res(1) by (simp add: wal_inv_def res(2))
  show "wal_buf l' = []" "wal_cap l' = wal_cap l" "wal_path l' = wal_path l"
    "wal_flushed l' = wal_seq l'"
    by (simp_all add: res(2))
qed

text \<open>The entry that \<open>Append\<close> adds, and the log before it decides whether to flush.\<close>

definition next_entry :: "WAL \<Rightarrow> byte \<Rightarrow> bytes \<Rightarrow> WALEntry" where
  "next_entry l typ payload = \<lparr>we_seq = wal_seq l + 1, we_type = typ, we_payload = payload\<rparr>"

definition pushed :: "(nat \<Rightarrow> nat) \<Rightarrow> WAL \<Rightarrow> byte \<Rightarrow> bytes \<Rightarrow> WAL" where
  "pushed grow l typ payload =
     l\<lparr>wal_seq := wal_seq l + 1, wal_buf := wal_buf l @ [next_entry l typ payload],
       wal_cap := (if length (wal_buf l) < wal_cap l then wal_cap l else grow (wal_cap l))\<rparr>"

lemma wal_Append_pushed:
  "wal_Append grow w l typ payload =
     (let l = pushed grow l typ payload
      in if length (wal_buf l) \<ge> wal_cap l then flushLocked w l else (w, l, Ok ()))"
  by (simp add: wal_Append_def pushed_def next_entry_def Let_def)

lemma wal_inv_pushed:
  assumes "wal_inv w l es" "length payload < 2 ^ 32" "\<And>n. n \<le> grow n"
  shows "wal_inv w (pushed grow l typ payload) es"
  using assms numbered_snoc [of "es @ wal_buf l" "next_entry l typ payload"]
    less_le_trans [OF _ assms(3), of 0 "wal_cap l"]
  by (auto simp: wal_inv_def pushed_def next_entry_def entry_ok_def)

lemma wal_inv_append:
  assumes "wal_inv w l es" "length payload < 2 ^ 32" "\<And>n. n \<le> grow n"
    and "wal_Append grow w l typ payload = (w', l', Ok ())"
  shows "\<exists>es'. wal_inv w' l' es' \<and> es' @ wal_buf l' = es @ wal_buf l @ [next_entry l typ payload]"
    and "length (wal_buf l') < wal_cap l'" "wal_path l' = wal_path l"
proof -
  let ?p = "pushed grow l typ payload"
  have p: "wal_inv w ?p es" by (rule wal_inv_pushed [OF assms(1-3)])
  have buf: "wal_buf ?p = wal_buf l @ [next_entry l typ payload]" "wal_path ?p = wal_path l"
    by (simp_all add: pushed_def)
  have pos: "0 < wal_cap ?p" using p by (simp add: wal_inv_def)
  have "(\<exists>es'. wal_inv w' l' es' \<and> es' @ wal_buf l' = es @ wal_buf l @ [next_entry l typ payload])
      \<and> length (wal_buf l') < wal_cap l' \<and> wal_path l' = wal_path l"
  proof (cases "length (wal_buf ?p) \<ge> wal_cap ?p")
    case True
    then have fl: "flushLocked w ?p = (w', l', Ok ())"
      using assms(4) by (simp add: wal_Append_pushed)
    note res = wal_inv_flush [OF p fl]
    show ?thesis
      using res pos buf by (intro conjI exI [of _ "es @ wal_buf ?p"]) simp_all
  next
    case False
    then have eq: "w' = w" "l' = ?p" using assms(4) by (simp_all add: wal_Append_pushed)
    show ?thesis using False p buf by (auto simp: eq)
  qed
  then show "\<exists>es'. wal_inv w' l' es' \<and> es' @ wal_buf l' = es @ wal_buf l @ [next_entry l typ payload]"
    and "length (wal_buf l') < wal_cap l'" "wal_path l' = wal_path l"
    by blast+
qed

section \<open>Opening\<close>

lemma numbered_prefix: "numbered (es @ es') \<Longrightarrow> numbered es"
proof -
  assume "numbered (es @ es')"
  then have "take (length es) (map we_seq (es @ es'))
      = take (length es) (map word_of_nat [1..<Suc (length (es @ es'))])"
    by (simp only: numbered_def)
  then show "numbered es" by (simp add: numbered_def take_map del: upt_Suc)
qed

lemma seq_max_numbered:
  "numbered es \<Longrightarrow> length es < 2 ^ 64 \<Longrightarrow> seq_max 0 es = word_of_nat (length es)"
proof (induction es rule: rev_induct)
  case Nil
  then show ?case by (simp add: seq_max_def)
next
  case (snoc e es)
  then have ih: "seq_max 0 es = word_of_nat (length es)" and e: "we_seq e = word_of_nat (Suc (length es))"
    using numbered_prefix [OF snoc.prems(1)] by (simp_all add: numbered_def)
  have "unat (word_of_nat n :: u64) = n" if "n \<le> Suc (length es)" for n
    using that snoc.prems(2) by (simp add: unsigned_of_nat take_bit_nat_eq_self_iff)
  then have "(word_of_nat (length es) :: u64) \<le> word_of_nat (Suc (length es))"
    by (simp add: word_le_nat_alt del: of_nat_Suc)
  then show ?case using ih e by (simp add: seq_max_def max_def del: of_nat_Suc)
qed

lemma OpenWAL_log:
  assumes "w_files w path = Some (wal_bytes es @ t)" "list_all entry_ok es" "decodeWALEntry t = None"
  shows "OpenWAL w path n = (w, Ok \<lparr>wal_path = path, wal_open = True, wal_seq = seq_max 0 es,
    wal_buf = [], wal_cap = nat (if n \<le> 0 then 32 else n), wal_flushed = 0\<rparr>)"
  using replaySeq_log [OF assms] assms(1) by (simp add: OpenWAL_def os_OpenAppend_def Let_def)

lemma OpenWAL_inv:
  assumes "w_files w path = Some (wal_bytes es)" "list_all entry_ok es" "numbered es" "length es < 2 ^ 64"
  shows "\<exists>l. OpenWAL w path n = (w, Ok l) \<and> wal_inv w l es \<and> wal_path l = path
    \<and> wal_buf l = [] \<and> wal_flushed l = 0"
  using OpenWAL_log [of w path es "[]" n] assms decode_Nil seq_max_numbered [OF assms(3,4)]
  by (simp add: wal_inv_def)

lemma OpenWAL_fresh:
  assumes "w_files w path = None"
  shows "\<exists>w' l. OpenWAL w path n = (w', Ok l) \<and> wal_inv w' l [] \<and> wal_path l = path
    \<and> wal_buf l = []"
proof -
  let ?w = "w\<lparr>w_files := (w_files w)(path := Some [])\<rparr>"
  have "OpenWAL w path n = OpenWAL ?w path n"
    using assms by (simp add: OpenWAL_def os_OpenAppend_def)
  moreover have "\<exists>l. OpenWAL ?w path n = (?w, Ok l) \<and> wal_inv ?w l [] \<and> wal_path l = path
      \<and> wal_buf l = [] \<and> wal_flushed l = 0"
    by (rule OpenWAL_inv) (simp_all add: numbered_def)
  ultimately show ?thesis by auto
qed

section \<open>Runs\<close>

datatype wal_op = WAppend byte bytes | WFlush

fun wal_step ::
  "(nat \<Rightarrow> nat) \<Rightarrow> World \<Rightarrow> WAL \<Rightarrow> wal_op \<Rightarrow> World \<times> WAL \<times> (wal_error, unit) outcome" where
  "wal_step grow w l (WAppend typ payload) = wal_Append grow w l typ payload"
| "wal_step grow w l WFlush = wal_Flush w l"

fun wal_run ::
  "(nat \<Rightarrow> nat) \<Rightarrow> World \<Rightarrow> WAL \<Rightarrow> wal_op list \<Rightarrow> World \<times> WAL \<times> (wal_error, unit) outcome" where
  "wal_run grow w l [] = (w, l, Ok ())"
| "wal_run grow w l (op # ops) =
     (case wal_step grow w l op of
        (w, l, Ok _) \<Rightarrow> wal_run grow w l ops
      | (w, l, Err e) \<Rightarrow> (w, l, Err e)
      | (w, l, Panic) \<Rightarrow> (w, l, Panic))"

fun appended :: "wal_op list \<Rightarrow> (byte \<times> bytes) list" where
  "appended [] = []"
| "appended (WAppend typ payload # ops) = (typ, payload) # appended ops"
| "appended (WFlush # ops) = appended ops"

fun wal_op_ok :: "wal_op \<Rightarrow> bool" where
  "wal_op_ok (WAppend typ payload) \<longleftrightarrow> length payload < 2 ^ 32"
| "wal_op_ok WFlush \<longleftrightarrow> True"

definition contents :: "WALEntry list \<Rightarrow> (byte \<times> bytes) list" where
  "contents es = map (\<lambda>e. (we_type e, we_payload e)) es"

lemma wal_step_inv:
  assumes "wal_inv w l es" "wal_op_ok op" "\<And>n. n \<le> grow n"
    and "wal_step grow w l op = (w', l', Ok ())"
  shows "\<exists>es'. wal_inv w' l' es' \<and> wal_path l' = wal_path l
    \<and> contents (es' @ wal_buf l') = contents (es @ wal_buf l) @ appended [op]"
proof (cases op)
  case (WAppend ty payload)
  with assms have ap: "wal_Append grow w l ty payload = (w', l', Ok ())" "length payload < 2 ^ 32"
    by simp_all
  note res = wal_inv_append [OF assms(1) ap(2) assms(3) ap(1)]
  from res(1) obtain es' where "wal_inv w' l' es'"
    and eq: "es' @ wal_buf l' = es @ wal_buf l @ [next_entry l ty payload]" by blast
  moreover have "contents (es' @ wal_buf l') = contents (es @ wal_buf l) @ appended [op]"
    unfolding eq WAppend by (simp add: contents_def next_entry_def)
  ultimately show ?thesis using res(3) by blast
next
  case WFlush
  with assms(4) have fl: "flushLocked w l = (w', l', Ok ())" by (simp add: wal_Flush_def)
  note res = wal_inv_flush [OF assms(1) fl]
  show ?thesis
    using res WFlush by (intro exI [of _ "es @ wal_buf l"]) simp
qed

lemma appended_Cons: "appended (op # ops) = appended [op] @ appended ops"
  by (cases op) simp_all

lemma wal_run_inv:
  assumes "wal_run grow w l ops = (w', l', Ok ())" "wal_inv w l es" "list_all wal_op_ok ops"
    and "\<And>n. n \<le> grow n"
  shows "\<exists>es'. wal_inv w' l' es' \<and> wal_path l' = wal_path l
    \<and> contents (es' @ wal_buf l') = contents (es @ wal_buf l) @ appended ops"
  using assms(1-3)
proof (induction ops arbitrary: w l es)
  case Nil
  then show ?case by auto
next
  case (Cons op ops)
  from Cons.prems(1) obtain w1 l1 where step: "wal_step grow w l op = (w1, l1, Ok ())"
    and rest: "wal_run grow w1 l1 ops = (w', l', Ok ())"
    by (auto split: prod.splits outcome.splits)
  from wal_step_inv [OF Cons.prems(2) _ assms(4) step] Cons.prems(3) obtain es1
    where es1: "wal_inv w1 l1 es1" "wal_path l1 = wal_path l"
      "contents (es1 @ wal_buf l1) = contents (es @ wal_buf l) @ appended [op]" by auto
  from Cons.IH [OF rest es1(1)] Cons.prems(3) es1(2,3) show ?case
    by (auto simp: appended_Cons [of op ops])
qed

lemma wal_inv_ReadAll: "wal_inv w l es \<Longrightarrow> ReadAll w (wal_path l) = Ok es"
  using ReadAll_log [of w "wal_path l" es "[]"] decode_Nil by (simp add: wal_inv_def)

lemma wal_inv_Close:
  assumes "wal_inv w l es" "wal_Close w l = (w', l', Ok ())"
  shows "w_files w' (wal_path l) = Some (wal_bytes (es @ wal_buf l))"
proof -
  obtain l1 where fl: "flushLocked w l = (w', l1, Ok ())"
    using assms(2) by (auto simp: wal_Close_def wal_Flush_def split: prod.splits outcome.splits)
  show ?thesis using wal_inv_flush(1,4) [OF assms(1) fl] by (simp add: wal_inv_def)
qed

lemma replaySeq_total: "\<exists>n. replaySeq w path = Some n"
proof (cases "w_files w path")
  case (Some data)
  from entries.frame_loop_fuel [of 0 data "Suc (length data)" max_seq 0] obtain n q
    where "frame_loop decodeWALEntry max_seq (Suc (length data)) data 0 0 = Some (n, q)" by auto
  with Some show ?thesis by (simp add: replaySeq_def os_ReadFile_def del: frame_loop.simps)
qed (simp add: replaySeq_def os_ReadFile_def)

section \<open>Devices with room\<close>

lemma file_Append_unlimited:
  assumes "w_quota w = None"
  shows "\<exists>w'. file_Append w path data = (w', True) \<and> w_quota w' = None \<and> w_sync w' = w_sync w"
  using assms by (simp add: file_Append_def file_Write_def accepted_def Let_def)

lemma write_entries_unlimited:
  "w_quota w = None \<Longrightarrow>
     \<exists>w'. write_entries w l es = (w', True) \<and> w_quota w' = None \<and> w_sync w' = w_sync w"
proof (induction es arbitrary: w)
  case (Cons e es)
  from file_Append_unlimited [OF Cons.prems] obtain w1
    where "file_Append w (wal_path l) (encodeWALEntry e) = (w1, True)" "w_quota w1 = None"
      "w_sync w1 = w_sync w" by blast
  with Cons.IH [of w1] show ?case by auto
qed simp

lemma flushLocked_unlimited:
  assumes "w_quota w = None" "wal_open l" "w_sync w"
  shows "\<exists>w' l'. flushLocked w l = (w', l', Ok ()) \<and> w_quota w' = None \<and> wal_open l' \<and> w_sync w'"
  using write_entries_unlimited [OF assms(1), of l "wal_buf l"] assms(2,3)
  by (auto simp: flushLocked_def)

lemma wal_run_unlimited:
  "w_quota w = None \<Longrightarrow> wal_open l \<Longrightarrow> w_sync w \<Longrightarrow>
     \<exists>w' l'. wal_run grow w l ops = (w', l', Ok ()) \<and> w_quota w' = None \<and> wal_open l' \<and> w_sync w'"
proof (induction ops arbitrary: w l)
  case (Cons op ops)
  have "\<exists>w1 l1. wal_step grow w l op = (w1, l1, Ok ()) \<and> w_quota w1 = None \<and> wal_open l1 \<and> w_sync w1"
  proof (cases op)
    case (WAppend ty p)
    have "wal_open (pushed grow l ty p)" using Cons.prems(2) by (simp add: pushed_def)
    from flushLocked_unlimited [OF Cons.prems(1) this Cons.prems(3)] WAppend Cons.prems this
    show ?thesis by (auto simp: wal_Append_pushed Let_def)
  next
    case WFlush
    with flushLocked_unlimited [OF Cons.prems] show ?thesis by (simp add: wal_Flush_def)
  qed
  with Cons.IH show ?case by fastforce
qed simp

text \<open>A session on an empty disk.\<close>

abbreviation empty_disk :: World where
  "empty_disk \<equiv> \<lparr>w_files = \<lambda>_. None, w_quota = None, w_sync = True\<rparr>"

lemma wal_session:
  obtains w1 l w2 l2 where "OpenWAL empty_disk ''w'' n = (w1, Ok l)"
    "wal_run grow w1 l ops = (w2, l2, Ok ())" "w_quota w2 = None" "wal_open l2" "w_sync w2"
proof -
  have "\<exists>l. OpenWAL empty_disk ''w'' n = (empty_disk\<lparr>w_files := [''w'' \<mapsto> []]\<rparr>, Ok l) \<and> wal_open l"
    using replaySeq_log [of "empty_disk\<lparr>w_files := [''w'' \<mapsto> []]\<rparr>" "''w''" "[]" "[]"] decode_Nil
    by (simp add: OpenWAL_def os_OpenAppend_def Let_def)
  then obtain l where l: "OpenWAL empty_disk ''w'' n = (empty_disk\<lparr>w_files := [''w'' \<mapsto> []]\<rparr>, Ok l)"
    "wal_open l" by blast
  from wal_run_unlimited [OF _ l(2), of "empty_disk\<lparr>w_files := [''w'' \<mapsto> []]\<rparr>" grow ops]
  obtain w2 l2 where "wal_run grow (empty_disk\<lparr>w_files := [''w'' \<mapsto> []]\<rparr>) l ops = (w2, l2, Ok ())"
    "w_quota w2 = None" "wal_open l2" "w_sync w2" by auto
  with l(1) show thesis by (rule that)
qed

section \<open>Properties\<close>

text \<open>C5: Durability and order: in a log opened on a new file, after any sequence of successful
  appends and flushes, the entries in the file followed by the pending ones are exactly what
  was appended, in order, numbered from 1 without a gap.\<close>

theorem wal_is_what_was_appended:
  assumes "w_files w path = None" "OpenWAL w path n = (w1, Ok l)"
    and "wal_run grow w1 l ops = (w2, l2, Ok ())" "list_all wal_op_ok ops" "\<And>c. c \<le> grow c"
  shows "\<exists>es. ReadAll w2 path = Ok es \<and> contents (es @ wal_buf l2) = appended ops
    \<and> numbered (es @ wal_buf l2)"
proof -
  have inv: "wal_inv w1 l []" "wal_path l = path" "wal_buf l = []"
    using OpenWAL_fresh [OF assms(1), of n] assms(2) by auto
  from wal_run_inv [OF assms(3) inv(1) assms(4,5)] obtain es
    where es: "wal_inv w2 l2 es" "wal_path l2 = path" "contents (es @ wal_buf l2) = appended ops"
    using inv by (auto simp: contents_def)
  then show ?thesis using wal_inv_ReadAll [OF es(1)] by (auto simp: wal_inv_def)
qed

theorem wal_is_what_was_appended_witness:
  "\<exists>w1 l w2 l2 es. OpenWAL empty_disk ''w'' 2 = (w1, Ok l)
    \<and> wal_run (\<lambda>c. 2 * c) w1 l [WAppend 1 [65], WAppend 1 [66], WAppend 2 [67]] = (w2, l2, Ok ())
    \<and> ReadAll w2 ''w'' = Ok es \<and> contents (es @ wal_buf l2) = [(1, [65]), (1, [66]), (2, [67])]"
proof -
  let ?ops = "[WAppend 1 [65], WAppend 1 [66], WAppend 2 [67]]"
  obtain w1 l w2 l2 where o: "OpenWAL empty_disk ''w'' 2 = (w1, Ok l)"
    and r: "wal_run (\<lambda>c. 2 * c) w1 l ?ops = (w2, l2, Ok ())"
    by (rule wal_session)
  have "\<exists>es. ReadAll w2 ''w'' = Ok es \<and> contents (es @ wal_buf l2) = appended ?ops
      \<and> numbered (es @ wal_buf l2)"
    by (rule wal_is_what_was_appended [OF _ o r]) simp_all
  with o r show ?thesis by auto
qed

text \<open>C12: Reopening: after a session that ends with a successful \<open>Close\<close>, the log reopens with an
  empty buffer, further appends continue the numbering, and closing again leaves a file that
  reads back as the appends of both sessions in order. \<open>FlushedSeq\<close> restarts at 0, although
  the entries of the first session are on disk.\<close>

theorem wal_reopen:
  assumes "w_files w path = None" "OpenWAL w path n = (w1, Ok l)"
    and "wal_run grow w1 l ops = (w2, l2, Ok ())" "wal_Close w2 l2 = (w3, l3, Ok ())"
    and "OpenWAL w3 path n = (w4, Ok l4)"
    and "wal_run grow w4 l4 ops' = (w5, l5, Ok ())" "wal_Close w5 l5 = (w6, l6, Ok ())"
    and "list_all wal_op_ok (ops @ ops')" "\<And>c. c \<le> grow c" "length (appended ops) < 2 ^ 64"
  shows "wal_flushed l4 = 0
    \<and> (\<exists>es. ReadAll w6 path = Ok es \<and> contents es = appended ops @ appended ops' \<and> numbered es)"
proof -
  have oks: "list_all wal_op_ok ops" "list_all wal_op_ok ops'" using assms(8) by simp_all
  have inv: "wal_inv w1 l []" "wal_path l = path" "wal_buf l = []"
    using OpenWAL_fresh [OF assms(1), of n] assms(2) by auto
  from wal_run_inv [OF assms(3) inv(1) oks(1) assms(9)] obtain es
    where es: "wal_inv w2 l2 es" "wal_path l2 = path" "contents (es @ wal_buf l2) = appended ops"
    using inv by (auto simp: contents_def)
  from wal_inv_Close [OF es(1) assms(4)] have disk: "w_files w3 path = Some (wal_bytes (es @ wal_buf l2))"
    using es(2) by simp
  have "length (es @ wal_buf l2) = length (appended ops)"
    using arg_cong [OF es(3), of length] by (simp add: contents_def)
  with assms(10) have len: "length (es @ wal_buf l2) < 2 ^ 64" by simp
  have ok: "list_all entry_ok (es @ wal_buf l2)" "numbered (es @ wal_buf l2)"
    using es(1) by (simp_all add: wal_inv_def)
  from OpenWAL_inv [OF disk ok len, of n] assms(5)
  have inv4: "wal_inv w4 l4 (es @ wal_buf l2)" "wal_path l4 = path" "wal_buf l4 = []" "wal_flushed l4 = 0"
    by auto
  from wal_run_inv [OF assms(6) inv4(1) oks(2) assms(9)] obtain es'
    where es': "wal_inv w5 l5 es'" "wal_path l5 = path"
      "contents (es' @ wal_buf l5) = contents (es @ wal_buf l2) @ appended ops'"
    using inv4 by auto
  have "w_files w6 path = Some (wal_bytes (es' @ wal_buf l5) @ [])"
    using wal_inv_Close [OF es'(1) assms(7)] es'(2) by simp
  moreover have "list_all entry_ok (es' @ wal_buf l5)" "numbered (es' @ wal_buf l5)"
    using es'(1) by (simp_all add: wal_inv_def)
  ultimately show ?thesis
    using ReadAll_log [OF _ _ decode_Nil] es(3) es'(3) inv4(4) by metis
qed

theorem wal_reopen_witness:
  "\<exists>w1 l w2 l2 w3 l3 w4 l4 w5 l5 w6 l6 es.
     OpenWAL empty_disk ''w'' 2 = (w1, Ok l)
   \<and> wal_run (\<lambda>c. 2 * c) w1 l [WAppend 1 [65]] = (w2, l2, Ok ()) \<and> wal_Close w2 l2 = (w3, l3, Ok ())
   \<and> OpenWAL w3 ''w'' 2 = (w4, Ok l4) \<and> wal_flushed l4 = 0
   \<and> wal_run (\<lambda>c. 2 * c) w4 l4 [WAppend 1 [66]] = (w5, l5, Ok ()) \<and> wal_Close w5 l5 = (w6, l6, Ok ())
   \<and> ReadAll w6 ''w'' = Ok es \<and> contents es = [(1, [65]), (1, [66])] \<and> numbered es"
proof -
  let ?g = "\<lambda>c. 2 * c :: nat"
  obtain w1 l w2 l2 where o: "OpenWAL empty_disk ''w'' 2 = (w1, Ok l)"
    and r: "wal_run ?g w1 l [WAppend 1 [65]] = (w2, l2, Ok ())"
    and u: "w_quota w2 = None" "wal_open l2" "w_sync w2"
    by (rule wal_session)
  obtain w3 l3 where c: "wal_Close w2 l2 = (w3, l3, Ok ())" "w_quota w3 = None" "w_sync w3"
    using flushLocked_unlimited [OF u] by (auto simp: wal_Close_def wal_Flush_def)
  have "\<exists>w4 l4. OpenWAL w3 ''w'' 2 = (w4, Ok l4) \<and> w_quota w4 = None \<and> w_sync w4 \<and> wal_open l4"
    using replaySeq_total [of "os_OpenAppend w3 ''w''" "''w''"] c(2,3)
    by (auto simp: OpenWAL_def Let_def os_OpenAppend_def split: option.splits)
  then obtain w4 l4 where o4: "OpenWAL w3 ''w'' 2 = (w4, Ok l4)" "w_quota w4 = None" "w_sync w4" "wal_open l4"
    by blast
  from wal_run_unlimited [OF o4(2,4,3), of ?g "[WAppend 1 [66]]"] obtain w5 l5
    where r5: "wal_run ?g w4 l4 [WAppend 1 [66]] = (w5, l5, Ok ())"
      "w_quota w5 = None" "wal_open l5" "w_sync w5" by blast
  obtain w6 l6 where c6: "wal_Close w5 l5 = (w6, l6, Ok ())"
    using flushLocked_unlimited [OF r5(2,3,4)] by (auto simp: wal_Close_def wal_Flush_def)
  have "wal_flushed l4 = 0 \<and> (\<exists>es. ReadAll w6 ''w'' = Ok es
      \<and> contents es = appended [WAppend 1 [65]] @ appended [WAppend 1 [66]] \<and> numbered es)"
    by (rule wal_reopen [OF _ o r c(1) o4(1) r5(1) c6]) simp_all
  then have "wal_flushed l4 = 0"
    "\<exists>es. ReadAll w6 ''w'' = Ok es \<and> contents es = [(1, [65]), (1, [66])] \<and> numbered es"
    by simp_all
  with o r c(1) o4(1) r5(1) c6 show ?thesis by blast
qed



text \<open>A flush whose \<open>Sync\<close> fails has already written the entries and keeps them in the buffer:
  the retry succeeds and the log then holds every one of them twice.\<close>

lemma failed_sync_duplicates:
  assumes "wal_inv w l es" "w_quota w = None" "\<not> w_sync w"
  shows "\<exists>w1 w2 l2. wal_Flush w l = (w1, l, Err WalSyncErr)
    \<and> wal_Flush (w1\<lparr>w_sync := True\<rparr>) l = (w2, l2, Ok ())
    \<and> ReadAll w2 (wal_path l) = Ok (es @ wal_buf l @ wal_buf l)"
proof -
  have opened: "wal_open l" "w_files w (wal_path l) = Some (wal_bytes es)"
    "list_all entry_ok (es @ wal_buf l)"
    using assms(1) by (simp_all add: wal_inv_def)
  from write_entries_unlimited [OF assms(2), of l "wal_buf l"] obtain w1
    where w1: "write_entries w l (wal_buf l) = (w1, True)" "w_quota w1 = None" "w_sync w1 = w_sync w"
    by blast
  have "flushLocked w l = (w1, l, Err WalSyncErr)"
    using w1 opened(1) assms(3) by (simp add: flushLocked_def)
  moreover have disk: "w_files (w1\<lparr>w_sync := True\<rparr>) (wal_path l) = Some (wal_bytes es @ wal_bytes (wal_buf l))"
    using write_entries_ok [OF opened(2) w1(1)] by simp
  moreover obtain w2 l2 where fl: "flushLocked (w1\<lparr>w_sync := True\<rparr>) l = (w2, l2, Ok ())"
    using flushLocked_unlimited [of "w1\<lparr>w_sync := True\<rparr>" l] w1(2) opened(1) by auto
  moreover have "ReadAll w2 (wal_path l) = Ok (es @ wal_buf l @ wal_buf l)"
  proof (rule ReadAll_log)
    show "w_files w2 (wal_path l) = Some (wal_bytes (es @ wal_buf l @ wal_buf l) @ [])"
      using flushLocked_ok(1) [OF disk fl] by simp
  qed (use opened(3) decode_Nil in simp_all)
  ultimately show ?thesis by (auto simp: wal_Flush_def)
qed

lemma failed_sync_duplicates_witness:
  "\<exists>w1 w2 l2. wal_Flush \<lparr>w_files = [''w'' \<mapsto> []], w_quota = None, w_sync = False\<rparr>
      \<lparr>wal_path = ''w'', wal_open = True, wal_seq = 1,
       wal_buf = [\<lparr>we_seq = 1, we_type = 2, we_payload = [65]\<rparr>], wal_cap = 4, wal_flushed = 0\<rparr>
      = (w1, \<lparr>wal_path = ''w'', wal_open = True, wal_seq = 1,
       wal_buf = [\<lparr>we_seq = 1, we_type = 2, we_payload = [65]\<rparr>], wal_cap = 4, wal_flushed = 0\<rparr>,
       Err WalSyncErr)
    \<and> ReadAll w2 ''w'' = Ok [\<lparr>we_seq = 1, we_type = 2, we_payload = [65]\<rparr>,
        \<lparr>we_seq = 1, we_type = 2, we_payload = [65]\<rparr>]"
  using failed_sync_duplicates [of "\<lparr>w_files = [''w'' \<mapsto> []], w_quota = None, w_sync = False\<rparr>"
      "\<lparr>wal_path = ''w'', wal_open = True, wal_seq = 1,
        wal_buf = [\<lparr>we_seq = 1, we_type = 2, we_payload = [65]\<rparr>], wal_cap = 4, wal_flushed = 0\<rparr>" "[]"]
  by (auto simp: wal_inv_def entry_ok_def numbered_def)

end
