(* ===== verification/Counting.thy ===== *)
theory Counting
  imports Hashing Interfaces Checksums
begin

text \<open>
  \<open>internal/counting/counting.go\<close>: the counting Bloom filter. \<open>m\<close> counters of
  \<open>counterBits\<close> bits are packed into a byte slice, lowest bit first, across byte boundaries;
  \<open>readBits\<close> and \<open>writeBits\<close> walk them bit by bit. A method that changes its receiver returns
  the new record, in \<open>Ok\<close>; where it returns an error the receiver is unchanged. The Go \<open>int\<close>
  field \<open>count\<close> is a 64-bit word read with \<open>sint\<close>. \<open>represents\<close> relates a filter to the
  multiset of items added and not yet removed.
\<close>

datatype counting_error =
  CErrInvalidParams | CErrCounterBits | CErrOverflow | CErrUnderflow | CErrNilFilter
  | CErrParamMismatch | CErrSnapshotTooShort | CErrSnapshotBadMagic | CErrSnapshotCRC
  | CErrSnapshotDataLen

record CountingFilter =
  cf_m :: u64
  cf_k :: u64
  cf_counterBits :: u64
  cf_maxCount :: byte
  cf_data :: bytes
  cf_count :: u64

section \<open>Bit access\<close>

definition readBits_body :: "bytes \<Rightarrow> u64 \<Rightarrow> byte \<Rightarrow> u64 \<Rightarrow> byte" where
  "readBits_body data bitOffset result i =
     (let byteIdx = unat ((bitOffset + i) div 8); bitIdx = unat ((bitOffset + i) mod 8)
      in if byteIdx < length data \<and> data ! byteIdx AND push_bit bitIdx 1 \<noteq> 0
         then result OR push_bit (unat i) 1 else result)"

definition readBits :: "bytes \<Rightarrow> u64 \<Rightarrow> u64 \<Rightarrow> byte" where
  "readBits data bitOffset n = foldl (readBits_body data bitOffset) 0 (u64_range n)"

text \<open>The loop of \<open>writeBits\<close> over the remaining values of \<open>i\<close>; it breaks at the end of the slice.\<close>

fun writeBits_loop :: "u64 \<Rightarrow> byte \<Rightarrow> u64 list \<Rightarrow> bytes \<Rightarrow> bytes" where
  "writeBits_loop bitOffset val [] data = data"
| "writeBits_loop bitOffset val (i # is) data =
     (let byteIdx = unat ((bitOffset + i) div 8); bitIdx = unat ((bitOffset + i) mod 8)
      in if byteIdx \<ge> length data then data
         else if val AND push_bit (unat i) 1 \<noteq> 0
         then writeBits_loop bitOffset val is
                (data[byteIdx := data ! byteIdx OR push_bit bitIdx 1])
         else writeBits_loop bitOffset val is
                (data[byteIdx := data ! byteIdx AND NOT (push_bit bitIdx 1)]))"

definition writeBits :: "bytes \<Rightarrow> u64 \<Rightarrow> u64 \<Rightarrow> byte \<Rightarrow> bytes" where
  "writeBits data bitOffset n val = writeBits_loop bitOffset val (u64_range n) data"

definition getCounter :: "CountingFilter \<Rightarrow> u64 \<Rightarrow> byte" where
  "getCounter cf pos = readBits (cf_data cf) (pos * cf_counterBits cf) (cf_counterBits cf)"

definition setCounter :: "CountingFilter \<Rightarrow> u64 \<Rightarrow> byte \<Rightarrow> CountingFilter" where
  "setCounter cf pos val =
     cf\<lparr>cf_data := writeBits (cf_data cf) (pos * cf_counterBits cf) (cf_counterBits cf) val\<rparr>"

section \<open>Operations\<close>

definition cf_New :: "u64 \<Rightarrow> u64 \<Rightarrow> u64 \<Rightarrow> (counting_error, CountingFilter) outcome" where
  "cf_New m k counterBits =
     (if m = 0 \<or> k = 0 \<or> counterBits = 0 then Err CErrInvalidParams
      else if counterBits > 8 then Err CErrCounterBits
      else let totalBits = m * counterBits; byteLen = (totalBits + 7) div 8
           in Ok \<lparr>cf_m = m, cf_k = k, cf_counterBits = counterBits,
                  cf_maxCount = push_bit (unat counterBits) 1 - 1,
                  cf_data = replicate (unat byteLen) 0, cf_count = 0\<rparr>)"

definition positions :: "u64 \<Rightarrow> u64 \<Rightarrow> bytes \<Rightarrow> u64 list" where
  "positions m k data = map (\<lambda>i. Hash data i m) (u64_range k)"

definition cf_Add :: "CountingFilter \<Rightarrow> bytes \<Rightarrow> (counting_error, CountingFilter) outcome" where
  "cf_Add cf data =
     (let ps = positions (cf_m cf) (cf_k cf) data
      in if list_ex (\<lambda>pos. getCounter cf pos \<ge> cf_maxCount cf) ps then Err CErrOverflow
         else let cf' = foldl (\<lambda>cf pos. setCounter cf pos (getCounter cf pos + 1)) cf ps
              in Ok (cf'\<lparr>cf_count := cf_count cf' + 1\<rparr>))"

definition cf_Remove :: "CountingFilter \<Rightarrow> bytes \<Rightarrow> (counting_error, CountingFilter) outcome" where
  "cf_Remove cf data =
     (let ps = positions (cf_m cf) (cf_k cf) data
      in if list_ex (\<lambda>pos. getCounter cf pos = 0) ps then Err CErrUnderflow
         else let cf' = foldl (\<lambda>cf pos. setCounter cf pos (getCounter cf pos - 1)) cf ps
              in Ok (cf'\<lparr>cf_count := cf_count cf' - 1\<rparr>))"

definition cf_Test :: "CountingFilter \<Rightarrow> bytes \<Rightarrow> bool" where
  "cf_Test cf data =
     list_all (\<lambda>pos. getCounter cf pos \<noteq> 0) (positions (cf_m cf) (cf_k cf) data)"

definition CountAt :: "CountingFilter \<Rightarrow> u64 \<Rightarrow> byte" where
  "CountAt cf pos = (if pos \<ge> cf_m cf then 0 else getCounter cf pos)"

definition cf_Reset :: "CountingFilter \<Rightarrow> CountingFilter" where
  "cf_Reset cf = cf\<lparr>cf_data := map (\<lambda>_. 0) (cf_data cf), cf_count := 0\<rparr>"

definition NonZeroCount :: "CountingFilter \<Rightarrow> nat" where
  "NonZeroCount cf = foldl (\<lambda>n i. if getCounter cf i > 0 then n + 1 else n) 0 (u64_range (cf_m cf))"

definition MaxObservedCount :: "CountingFilter \<Rightarrow> byte" where
  "MaxObservedCount cf =
     foldl (\<lambda>mx i. let v = getCounter cf i in if v > mx then v else mx) 0 (u64_range (cf_m cf))"

section \<open>Invariant\<close>

definition wf_cf :: "CountingFilter \<Rightarrow> bool" where
  "wf_cf cf \<longleftrightarrow> cf_m cf \<noteq> 0 \<and> cf_k cf \<noteq> 0 \<and> cf_counterBits cf \<noteq> 0 \<and> cf_counterBits cf \<le> 8
     \<and> unat (cf_m cf) * unat (cf_counterBits cf) < 2 ^ 64 - 7
     \<and> cf_maxCount cf = mask (unat (cf_counterBits cf))
     \<and> length (cf_data cf) = (unat (cf_m cf) * unat (cf_counterBits cf) + 7) div 8"

abbreviation (input) in_cf :: "CountingFilter \<Rightarrow> u64 \<Rightarrow> bool" where
  "in_cf cf pos \<equiv> pos < cf_m cf"

section \<open>What the bit loops read and write\<close>

lemma unat_offset:
  assumes "unat (off :: u64) + n < 2 ^ 64"
  shows "i \<le> n \<Longrightarrow> unat (off + word_of_nat i) = unat off + i"
  using assms by (simp add: unat_word_ariths unat_of_nat)

lemma readBits_bit:
  assumes "unat off + unat n < 2 ^ 64"
  shows "bit (readBits data off n) j \<longleftrightarrow> j < 8 \<and> j < unat n \<and> unat off + j \<in> bits_of data"
proof -
  have step: "readBits_body data off r (word_of_nat i)
      = (if unat off + i \<in> bits_of data then r OR push_bit i 1 else r)" if "i < unat n" for i r
    using that unat_offset [OF assms, of i]
    by (simp add: readBits_body_def Let_def unat_div unat_mod mem_bits_of and_single_bit
        div_less_iff_less_mult mult.commute unat_word_of_nat_lt)
  have "l \<le> unat n \<Longrightarrow> bit (foldl (readBits_body data off) 0 (map word_of_nat [0..<l])) j
      \<longleftrightarrow> j < 8 \<and> j < l \<and> unat off + j \<in> bits_of data" for l
  proof (induction l)
    case (Suc l)
    then show ?case by (auto simp: step bit_simps less_Suc_eq)
  qed simp
  then show ?thesis by (simp add: readBits_def u64_range_def)
qed

lemma length_writeBits_loop [simp]: "length (writeBits_loop off val is data) = length data"
  by (induction "is" arbitrary: data) (simp_all add: Let_def)

lemma writeBits_loop_Cons:
  assumes "unat (off + i) < 8 * length data"
  shows "\<exists>data'. writeBits_loop off val (i # is) data = writeBits_loop off val is data'
    \<and> length data' = length data
    \<and> bits_of data' = (if bit val (unat i) then insert (unat (off + i)) (bits_of data)
                      else bits_of data - {unat (off + i)})"
  using assms byte_index [OF assms] bits_of_set [OF assms] bits_of_clear [OF assms]
  by (auto simp: Let_def unat_div unat_mod and_single_bit)

lemma writeBits_loop_bits:
  assumes "unat off + n < 2 ^ 64" "unat off + n \<le> 8 * length data" "l \<le> n"
  shows "p \<in> bits_of (writeBits_loop off val (map word_of_nat [l..<n]) data)
    \<longleftrightarrow> (if unat off + l \<le> p \<and> p < unat off + n then bit val (p - unat off)
        else p \<in> bits_of data)"
  using assms(2,3)
proof (induction "n - l" arbitrary: l data)
  case 0
  then have "l = n" by simp
  then show ?case by auto
next
  case (Suc d)
  then have l: "l < n" "d = n - Suc l" by simp_all
  have u: "unat (off + word_of_nat l) = unat off + l" "unat (word_of_nat l :: u64) = l"
    using unat_offset [OF assms(1), of l] l(1) assms(1) by (simp_all add: unat_of_nat)
  have "unat (off + word_of_nat l) < 8 * length data" using Suc.prems(1) l(1) u by simp
  from writeBits_loop_Cons [OF this, of val "map word_of_nat [Suc l..<n]"]
  obtain data' where d': "writeBits_loop off val (map word_of_nat [l..<n]) data
        = writeBits_loop off val (map word_of_nat [Suc l..<n]) data'"
      "length data' = length data"
      "bits_of data' = (if bit val l then insert (unat off + l) (bits_of data)
                       else bits_of data - {unat off + l})"
    using l(1) by (auto simp: u upt_conv_Cons)
  have "p \<in> bits_of (writeBits_loop off val (map word_of_nat [Suc l..<n]) data')
      \<longleftrightarrow> (if unat off + Suc l \<le> p \<and> p < unat off + n then bit val (p - unat off)
          else p \<in> bits_of data')"
    by (rule Suc.hyps(1)) (use l Suc.prems d'(2) in simp_all)
  with d'(1) show ?case
    by (cases "p = unat off + l") (use l(1) d'(3) in auto)
qed

lemma writeBits_bits:
  assumes "unat off + unat n < 2 ^ 64" "unat off + unat n \<le> 8 * length data"
  shows "p \<in> bits_of (writeBits data off n val)
    \<longleftrightarrow> (if unat off \<le> p \<and> p < unat off + unat n then bit val (p - unat off)
        else p \<in> bits_of data)"
  using writeBits_loop_bits [OF assms, of 0] by (simp add: writeBits_def u64_range_def)

lemma length_writeBits [simp]: "length (writeBits data off n val) = length data"
  by (simp add: writeBits_def)

section \<open>Cells\<close>

lemma wf_cf_bits: "wf_cf cf \<Longrightarrow> 0 < unat (cf_counterBits cf) \<and> unat (cf_counterBits cf) \<le> 8"
  by (simp add: wf_cf_def word_le_nat_alt unat_gt_0)

lemma cell_span:
  assumes "wf_cf cf" "p < cf_m cf"
  shows "unat (p * cf_counterBits cf) = unat p * unat (cf_counterBits cf)"
    and "unat p * unat (cf_counterBits cf) + unat (cf_counterBits cf)
      \<le> unat (cf_m cf) * unat (cf_counterBits cf)"
proof -
  let ?b = "unat (cf_counterBits cf)"
  have "Suc (unat p) * ?b \<le> unat (cf_m cf) * ?b"
    using assms(2) by (intro mult_le_mono1) (simp add: word_less_nat_alt Suc_le_eq)
  then show le: "unat p * ?b + ?b \<le> unat (cf_m cf) * ?b" by simp
  have "unat (cf_m cf) * ?b < 2 ^ 64 - 7" using assms(1) by (simp add: wf_cf_def)
  with le have "unat p * ?b < 2 ^ 64" by linarith
  then show "unat (p * cf_counterBits cf) = unat p * ?b"
    by (simp add: unat_word_ariths)
qed

lemma cell_room:
  assumes "wf_cf cf" "p < cf_m cf"
  shows "unat (p * cf_counterBits cf) + unat (cf_counterBits cf) < 2 ^ 64"
    and "unat (p * cf_counterBits cf) + unat (cf_counterBits cf) \<le> 8 * length (cf_data cf)"
proof -
  let ?t = "unat (cf_m cf) * unat (cf_counterBits cf)"
  note span = cell_span [OF assms]
  have "?t < 2 ^ 64 - 7" "length (cf_data cf) = (?t + 7) div 8"
    using assms(1) by (simp_all add: wf_cf_def)
  moreover have "?t \<le> 8 * ((?t + 7) div 8)" by presburger
  ultimately show "unat (p * cf_counterBits cf) + unat (cf_counterBits cf) < 2 ^ 64"
    and "unat (p * cf_counterBits cf) + unat (cf_counterBits cf) \<le> 8 * length (cf_data cf)"
    using span by linarith+
qed

lemma getCounter_bit:
  assumes "wf_cf cf" "p < cf_m cf"
  shows "bit (getCounter cf p) j \<longleftrightarrow> j < unat (cf_counterBits cf)
    \<and> unat p * unat (cf_counterBits cf) + j \<in> bits_of (cf_data cf)"
  using readBits_bit [OF cell_room(1) [OF assms]] wf_cf_bits [OF assms(1)]
  by (auto simp: getCounter_def cell_span [OF assms])

lemma setCounter_bits:
  assumes "wf_cf cf" "p < cf_m cf"
  shows "q \<in> bits_of (cf_data (setCounter cf p v)) \<longleftrightarrow>
    (if unat p * unat (cf_counterBits cf) \<le> q
        \<and> q < unat p * unat (cf_counterBits cf) + unat (cf_counterBits cf)
     then bit v (q - unat p * unat (cf_counterBits cf)) else q \<in> bits_of (cf_data cf))"
  using writeBits_bits [OF cell_room [OF assms]]
  by (simp add: setCounter_def cell_span [OF assms])

lemma setCounter_params [simp]:
  "cf_m (setCounter cf p v) = cf_m cf" "cf_k (setCounter cf p v) = cf_k cf"
  "cf_counterBits (setCounter cf p v) = cf_counterBits cf"
  "cf_maxCount (setCounter cf p v) = cf_maxCount cf" "cf_count (setCounter cf p v) = cf_count cf"
  "length (cf_data (setCounter cf p v)) = length (cf_data cf)"
  by (simp_all add: setCounter_def)

lemma setCounter_wf [wf_intros]: "wf_cf cf \<Longrightarrow> wf_cf (setCounter cf p v)"
  by (simp add: wf_cf_def)

lemma disjoint_cells:
  assumes "unat (p :: u64) \<noteq> unat (q :: u64)" "j < b"
  shows "\<not> (unat p * b \<le> unat q * b + j \<and> unat q * b + j < unat p * b + b)"
proof
  assume "unat p * b \<le> unat q * b + j \<and> unat q * b + j < unat p * b + b"
  then have "(unat q * b + j) div b = unat p"
    by (intro div_nat_eqI) (auto simp: algebra_simps)
  moreover have "(unat q * b + j) div b = unat q" using assms(2) by simp
  ultimately show False using assms(1) by simp
qed

interpretation packed: counters wf_cf "\<lambda>cf pos. pos < cf_m cf" getCounter setCounter
  "\<lambda>cf. unat (cf_counterBits cf)"
proof unfold_locales
  fix cf :: CountingFilter and p q :: u64 and v :: byte
  assume wf: "wf_cf cf" and p: "p < cf_m cf"
  then show "wf_cf (setCounter cf p v)" by (intro setCounter_wf)
  have wf': "wf_cf (setCounter cf p v)" and p': "p < cf_m (setCounter cf p v)"
    using wf p by (auto intro: setCounter_wf)
  show "getCounter (setCounter cf p v) p = take_bit (unat (cf_counterBits cf)) v"
    by (rule bit_word_eqI)
      (auto simp: getCounter_bit [OF wf' p'] setCounter_bits [OF wf p] bit_take_bit_iff)
  show "take_bit (unat (cf_counterBits cf)) (getCounter cf p) = getCounter cf p"
    by (rule bit_word_eqI) (auto simp: getCounter_bit [OF wf p] bit_take_bit_iff)
  assume q: "q < cf_m cf" and neq: "p \<noteq> q"
  then have q': "q < cf_m (setCounter cf p v)" by simp
  have "unat p \<noteq> unat q" using neq by (simp add: word_unat_eq_iff)
  note disj = disjoint_cells [OF this]
  show "getCounter (setCounter cf p v) q = getCounter cf q"
    by (rule bit_word_eqI)
      (use disj in \<open>auto simp: getCounter_bit [OF wf q] getCounter_bit [OF wf' q'] setCounter_bits [OF wf p]\<close>)
qed (simp_all)

section \<open>Add and Remove on the counters\<close>

text \<open>The second loop of \<open>Add\<close> (\<open>d = 1\<close>) and of \<open>Remove\<close> (\<open>d = -1\<close>).\<close>

definition bump :: "byte \<Rightarrow> CountingFilter \<Rightarrow> u64 list \<Rightarrow> CountingFilter" where
  "bump d = foldl (\<lambda>cf pos. setCounter cf pos (getCounter cf pos + d))"

lemma bump_simps [simp]:
  "bump d cf [] = cf"
  "bump d cf (p # ps) = bump d (setCounter cf p (getCounter cf p + d)) ps"
  by (simp_all add: bump_def)

lemma bump_loops:
  "foldl (\<lambda>cf pos. setCounter cf pos (getCounter cf pos + 1)) = bump 1"
  "foldl (\<lambda>cf pos. setCounter cf pos (getCounter cf pos - 1)) = bump (- 1)"
  by (simp_all add: bump_def)

lemma bump_params [simp]:
  "cf_m (bump d cf ps) = cf_m cf" "cf_k (bump d cf ps) = cf_k cf"
  "cf_counterBits (bump d cf ps) = cf_counterBits cf"
  "cf_maxCount (bump d cf ps) = cf_maxCount cf" "cf_count (bump d cf ps) = cf_count cf"
  "length (cf_data (bump d cf ps)) = length (cf_data cf)"
  by (induction ps arbitrary: cf) simp_all

lemma bump_padding:
  assumes "wf_cf cf" "list_all (\<lambda>p. p < cf_m cf) ps"
    "unat (cf_m cf) * unat (cf_counterBits cf) \<le> q"
  shows "q \<in> bits_of (cf_data (bump d cf ps)) \<longleftrightarrow> q \<in> bits_of (cf_data cf)"
  using assms
proof (induction ps arbitrary: cf)
  case (Cons p ps)
  let ?cf = "setCounter cf p (getCounter cf p + d)"
  have p: "p < cf_m cf" using Cons.prems(2) by simp
  have "q \<in> bits_of (cf_data ?cf) \<longleftrightarrow> q \<in> bits_of (cf_data cf)"
    using cell_span(2) [OF Cons.prems(1) p] Cons.prems(3) setCounter_bits [OF Cons.prems(1) p]
    by auto
  moreover have "q \<in> bits_of (cf_data (bump d ?cf ps)) \<longleftrightarrow> q \<in> bits_of (cf_data ?cf)"
    by (rule Cons.IH) (use Cons.prems in \<open>auto intro: setCounter_wf\<close>)
  ultimately show ?case by simp
qed simp

lemma positions_in_range:
  "m \<noteq> 0 \<Longrightarrow> list_all (\<lambda>p. p < m) (positions m k x)"
  by (auto simp: positions_def list_all_iff Hash_less)

lemma wf_cf_positions: "wf_cf cf \<Longrightarrow> list_all (\<lambda>p. p < cf_m cf) (positions (cf_m cf) (cf_k cf) x)"
  by (rule positions_in_range) (simp add: wf_cf_def)

lemma cf_Add_OkD:
  assumes "cf_Add cf x = Ok cf'"
  shows "cf' = (bump 1 cf (positions (cf_m cf) (cf_k cf) x))\<lparr>cf_count := cf_count cf + 1\<rparr>"
    and "\<forall>p \<in> set (positions (cf_m cf) (cf_k cf) x). getCounter cf p < cf_maxCount cf"
  using assms by (auto simp: cf_Add_def Let_def list_ex_iff not_le bump_loops split: if_splits)

lemma cf_Remove_OkD:
  assumes "cf_Remove cf x = Ok cf'"
  shows "cf' = (bump (-1) cf (positions (cf_m cf) (cf_k cf) x))\<lparr>cf_count := cf_count cf - 1\<rparr>"
    and "\<forall>p \<in> set (positions (cf_m cf) (cf_k cf) x). getCounter cf p \<noteq> 0"
  using assms by (auto simp: cf_Remove_def Let_def list_ex_iff bump_loops split: if_splits)

lemma getCounter_count [simp]: "getCounter (cf\<lparr>cf_count := c\<rparr>) p = getCounter cf p"
  by (simp add: getCounter_def)

lemma wf_cf_count [simp]: "wf_cf (cf\<lparr>cf_count := c\<rparr>) = wf_cf cf"
  by (simp add: wf_cf_def)

lemma cf_Add_wf [wf_intros]: "wf_cf cf \<Longrightarrow> cf_Add cf x = Ok cf' \<Longrightarrow> wf_cf cf'"
  by (drule cf_Add_OkD(1)) (simp add: wf_cf_def)

lemma cf_Remove_wf [wf_intros]: "wf_cf cf \<Longrightarrow> cf_Remove cf x = Ok cf' \<Longrightarrow> wf_cf cf'"
  by (drule cf_Remove_OkD(1)) (simp add: wf_cf_def)

lemma cf_step_params:
  "cf_Add cf y = Ok cf' \<Longrightarrow> cf_m cf' = cf_m cf \<and> cf_k cf' = cf_k cf
     \<and> cf_counterBits cf' = cf_counterBits cf"
  "cf_Remove cf x = Ok cf' \<Longrightarrow> cf_m cf' = cf_m cf \<and> cf_k cf' = cf_k cf
     \<and> cf_counterBits cf' = cf_counterBits cf"
  by (auto dest: cf_Add_OkD(1) cf_Remove_OkD(1))

lemma bump_get:
  assumes "wf_cf cf" "list_all (\<lambda>p. p < cf_m cf) ps" "p < cf_m cf"
  shows "getCounter (bump d cf ps) p
    = take_bit (unat (cf_counterBits cf)) (getCounter cf p + of_nat (count_list ps p) * d)"
  using packed.bump_all [OF assms] by (simp add: bump_def)

text \<open>Every counter moves by the number of times the item probes it, modulo its width.\<close>

lemma unat_take_bit_sum:
  assumes "n \<le> 8"
  shows "unat (take_bit n (a + of_nat c :: byte)) = (unat a + c) mod 2 ^ n"
proof -
  have low: "unat (a + of_nat c) = take_bit 8 (unat a + c)"
    by (simp add: take_bit_eq_mod unat_word_ariths unat_of_nat mod_simps)
  have "unat (take_bit n (a + of_nat c)) = take_bit n (unat (a + of_nat c))"
    by (rule unsigned_take_bit_eq)
  also have "\<dots> = take_bit n (take_bit 8 (unat a + c))"
    by (simp only: low)
  also have "\<dots> = take_bit n (unat a + c)" using assms by (simp add: min_def)
  finally show ?thesis by (simp only: take_bit_eq_mod)
qed

lemma cf_Add_get:
  assumes "wf_cf cf" "cf_Add cf x = Ok cf'" "p < cf_m cf"
  shows "unat (getCounter cf' p)
    = (unat (getCounter cf p) + count_list (positions (cf_m cf) (cf_k cf) x) p)
        mod 2 ^ unat (cf_counterBits cf)"
  using bump_get [OF assms(1) wf_cf_positions [OF assms(1)] assms(3), where d = 1]
    wf_cf_bits [OF assms(1)]
  by (simp add: cf_Add_OkD(1) [OF assms(2)] unat_take_bit_sum)

lemma getCounter_max:
  assumes "wf_cf cf" "p < cf_m cf"
  shows "getCounter cf p \<le> cf_maxCount cf"
proof -
  have "getCounter cf p = getCounter cf p AND mask (unat (cf_counterBits cf))"
    using packed.get_range [OF assms] by (simp add: take_bit_eq_mask)
  also have "\<dots> \<le> mask (unat (cf_counterBits cf))" by (rule word_and_le1)
  finally show ?thesis using assms(1) by (simp add: wf_cf_def)
qed

lemma unat_mask: "n \<le> 8 \<Longrightarrow> unat (mask n :: byte) = 2 ^ n - 1"
proof -
  assume n: "n \<le> 8"
  have "unat (mask n :: byte) = mask n"
    by (rule bit_eqI) (use n in \<open>auto simp: bit_unsigned_iff bit_mask_iff\<close>)
  then show ?thesis by (simp only: mask_eq_exp_minus_1)
qed

lemma unat_maxCount: "wf_cf cf \<Longrightarrow> unat (cf_maxCount cf) = 2 ^ unat (cf_counterBits cf) - 1"
  using wf_cf_bits [of cf]
  by (simp add: wf_cf_def unat_mask)

lemma getCounter_less: "wf_cf cf \<Longrightarrow> p < cf_m cf \<Longrightarrow> unat (getCounter cf p) < 2 ^ unat (cf_counterBits cf)"
  by (metis packed.get_range take_bit_nat_less_exp unsigned_take_bit_eq)

section \<open>Remove undoes Add\<close>

lemma take_bit_back:
  "take_bit n (take_bit n (g + c * d) + c * - d) = take_bit n (g :: byte)"
  using take_bit_add_left [of n "g + c * d" "c * - d"] by simp

lemma same_data:
  assumes "wf_cf cf" "wf_cf cf'" "cf_m cf' = cf_m cf" "cf_counterBits cf' = cf_counterBits cf"
    and cells: "\<And>p. p < cf_m cf \<Longrightarrow> getCounter cf' p = getCounter cf p"
    and padding: "\<And>q. unat (cf_m cf) * unat (cf_counterBits cf) \<le> q
      \<Longrightarrow> q \<in> bits_of (cf_data cf') \<longleftrightarrow> q \<in> bits_of (cf_data cf)"
  shows "cf_data cf' = cf_data cf"
proof -
  let ?b = "unat (cf_counterBits cf)"
  have "q \<in> bits_of (cf_data cf') \<longleftrightarrow> q \<in> bits_of (cf_data cf)" for q
  proof (cases "unat (cf_m cf) * ?b \<le> q")
    case False
    let ?p = "word_of_nat (q div ?b) :: u64"
    have lt: "q div ?b < unat (cf_m cf)"
      using False by (simp add: div_less_iff_less_mult wf_cf_bits [OF assms(1)] mult.commute)
    then have u: "unat ?p = q div ?b" by (rule unat_word_of_nat_lt)
    with lt have p: "?p < cf_m cf" by (simp add: word_less_nat_alt)
    have j: "q mod ?b < ?b" using wf_cf_bits [OF assms(1)] by simp
    have "bit (getCounter cf' ?p) (q mod ?b) = bit (getCounter cf ?p) (q mod ?b)"
      by (simp only: cells [OF p])
    then show ?thesis
      using getCounter_bit [OF assms(1) p] getCounter_bit [OF assms(2), of ?p] p j u assms(3,4)
      by simp
  qed (rule padding)
  then have "bits_of (cf_data cf') = bits_of (cf_data cf)" by blast
  moreover have "length (cf_data cf') = length (cf_data cf)" using assms(1-4) by (simp add: wf_cf_def)
  ultimately show ?thesis by (simp add: bits_of_inject)
qed

lemma Remove_Add:
  assumes "wf_cf cf" "cf_Add cf x = Ok cf1" "cf_Remove cf1 x = Ok cf2"
  shows "cf2 = cf"
proof -
  let ?ps = "positions (cf_m cf) (cf_k cf) x"
  let ?b = "unat (cf_counterBits cf)"
  note wf1 = cf_Add_wf [OF assms(1,2)] and wf2 = cf_Remove_wf [OF cf_Add_wf [OF assms(1,2)] assms(3)]
  note par1 = cf_step_params(1) [OF assms(2)] and par2 = cf_step_params(2) [OF assms(3)]
  note rng = wf_cf_positions [OF assms(1), of x]
  have cf1: "cf1 = (bump 1 cf ?ps)\<lparr>cf_count := cf_count cf + 1\<rparr>"
    by (rule cf_Add_OkD(1) [OF assms(2)])
  have cf2: "cf2 = (bump (- 1) cf1 ?ps)\<lparr>cf_count := cf_count cf1 - 1\<rparr>"
    using cf_Remove_OkD(1) [OF assms(3)] par1 by simp
  have "cf_data cf2 = cf_data cf"
  proof (rule same_data [OF assms(1) wf2])
    fix p assume p: "p < cf_m cf"
    have "getCounter cf1 p = take_bit ?b (getCounter cf p + of_nat (count_list ?ps p) * 1)"
      unfolding cf1 getCounter_count by (rule bump_get [OF assms(1) rng p])
    moreover have "getCounter cf2 p = take_bit ?b (getCounter cf1 p + of_nat (count_list ?ps p) * - 1)"
      unfolding cf2 getCounter_count using bump_get [OF wf1, of ?ps p "- 1"] rng p par1 by simp
    ultimately show "getCounter cf2 p = getCounter cf p"
      using take_bit_back [of ?b _ _ 1] packed.get_range [OF assms(1) p] by simp
  next
    fix q assume q: "unat (cf_m cf) * unat (cf_counterBits cf) \<le> q"
    show "q \<in> bits_of (cf_data cf2) \<longleftrightarrow> q \<in> bits_of (cf_data cf)"
      using bump_padding [OF wf1, of ?ps q] bump_padding [OF assms(1) rng q] rng q par1
      by (simp add: cf2) (simp add: cf1)
  qed (use par1 par2 in simp_all)
  then show ?thesis
    by (intro CountingFilter.equality) (simp_all add: cf1 cf2)
qed

section \<open>Multiset semantics\<close>

text \<open>
  \<open>represents cf M\<close>: counter \<open>p\<close> holds the number of items of \<open>M\<close> that probe \<open>p\<close>, and every
  item of \<open>M\<close> probes \<open>k\<close> different counters.
\<close>

abbreviation (input) cf_probes :: "CountingFilter \<Rightarrow> bytes \<Rightarrow> u64 list" where
  "cf_probes cf x \<equiv> positions (cf_m cf) (cf_k cf) x"

definition represents :: "CountingFilter \<Rightarrow> bytes multiset \<Rightarrow> bool" where
  "represents cf M \<longleftrightarrow> wf_cf cf \<and> (\<forall>x \<in># M. distinct (cf_probes cf x))
     \<and> (\<forall>p < cf_m cf. unat (getCounter cf p) = size {# x \<in># M. p \<in> set (cf_probes cf x) #})"

lemma count_list_distinct: "distinct xs \<Longrightarrow> count_list xs x = of_bool (x \<in> set xs)"
  by (induction xs) auto

lemma represents_add:
  assumes "represents cf M" "distinct (cf_probes cf x)" "cf_Add cf x = Ok cf'"
  shows "represents cf' (add_mset x M)"
proof -
  have wf: "wf_cf cf" using assms(1) by (simp add: represents_def)
  note par = cf_step_params(1) [OF assms(3)]
  have "unat (getCounter cf' p) = size {# y \<in># add_mset x M. p \<in> set (cf_probes cf' y) #}"
    if p: "p < cf_m cf" for p
  proof -
    have old: "unat (getCounter cf p) = size {# y \<in># M. p \<in> set (cf_probes cf y) #}"
      using assms(1) p by (simp add: represents_def)
    have "p \<in> set (cf_probes cf x) \<Longrightarrow> unat (getCounter cf p) < unat (cf_maxCount cf)"
      using cf_Add_OkD(2) [OF assms(3)] by (simp add: word_less_nat_alt)
    then have "unat (getCounter cf p) + of_bool (p \<in> set (cf_probes cf x)) \<le> unat (cf_maxCount cf)"
      using getCounter_max [OF wf p]
      by (cases "p \<in> set (cf_probes cf x)") (simp_all add: word_le_nat_alt)
    then have "unat (getCounter cf p) + of_bool (p \<in> set (cf_probes cf x))
        < 2 ^ unat (cf_counterBits cf)"
      unfolding unat_maxCount [OF wf]
      by (rule order.strict_trans1) simp
    then have "unat (getCounter cf' p)
        = unat (getCounter cf p) + of_bool (p \<in> set (cf_probes cf x))"
      by (simp only: cf_Add_get [OF wf assms(3) p] count_list_distinct [OF assms(2)] mod_less)
    then show ?thesis using old par by simp
  qed
  moreover have "\<forall>y \<in># add_mset x M. distinct (cf_probes cf' y)"
    using assms(1,2) par by (simp add: represents_def)
  ultimately show ?thesis
    using cf_Add_wf [OF wf assms(3)] par by (simp add: represents_def)
qed

lemma represents_probe_pos:
  assumes "represents cf M" "x \<in># M" "p \<in> set (cf_probes cf x)"
  shows "0 < unat (getCounter cf p)"
proof -
  have "p < cf_m cf"
    using assms(1,3) wf_cf_positions [of cf x] by (auto simp: represents_def list_all_iff)
  then have "unat (getCounter cf p) = size {# y \<in># M. p \<in> set (cf_probes cf y) #}"
    using assms(1) by (simp add: represents_def)
  moreover have "x \<in># {# y \<in># M. p \<in> set (cf_probes cf y) #}" using assms(2,3) by simp
  ultimately show ?thesis by (metis size_eq_0_iff_empty empty_iff gr0I set_mset_empty)
qed

lemma represents_test: "represents cf M \<Longrightarrow> x \<in># M \<Longrightarrow> cf_Test cf x"
  using represents_probe_pos [of cf M x] by (fastforce simp: cf_Test_def list_all_iff)

lemma represents_remove:
  assumes "represents cf M" "x \<in># M"
  shows "\<exists>cf'. cf_Remove cf x = Ok cf' \<and> represents cf' (M - {#x#})"
proof -
  have wf: "wf_cf cf" and dist: "distinct (cf_probes cf x)"
    using assms by (simp_all add: represents_def)
  have pos: "\<forall>p \<in> set (cf_probes cf x). getCounter cf p \<noteq> 0"
    using represents_probe_pos [OF assms] by fastforce
  then obtain cf' where rem: "cf_Remove cf x = Ok cf'"
    by (auto simp: cf_Remove_def Let_def list_ex_iff)
  note par = cf_step_params(2) [OF rem]
  obtain N where N: "M = add_mset x N" using assms(2) by (blast dest: multi_member_split)
  have "unat (getCounter cf' p) = size {# y \<in># N. p \<in> set (cf_probes cf y) #}"
    if p: "p < cf_m cf" for p
  proof -
    let ?c = "of_bool (p \<in> set (cf_probes cf x)) :: byte"
    have get': "getCounter cf' p = take_bit (unat (cf_counterBits cf)) (getCounter cf p - ?c)"
      using bump_get [OF wf wf_cf_positions [OF wf] p, where d = "- 1"]
      by (simp add: cf_Remove_OkD(1) [OF rem] count_list_distinct [OF dist])
    have old: "unat (getCounter cf p) = size {# y \<in># M. p \<in> set (cf_probes cf y) #}"
      using assms(1) p by (simp add: represents_def)
    show ?thesis
    proof (cases "p \<in> set (cf_probes cf x)")
      case True
      with pos have nz: "getCounter cf p \<noteq> 0" by blast
      then have "unat (getCounter cf p - 1) = unat (getCounter cf p) - 1"
        by (rule unat_minus_one)
      moreover have "take_bit (unat (cf_counterBits cf)) (getCounter cf p - 1)
          = getCounter cf p - 1"
      proof -
        have "unat (getCounter cf p - 1) < 2 ^ unat (cf_counterBits cf)"
          using getCounter_less [OF wf p] \<open>unat (getCounter cf p - 1) = _\<close>
          by linarith
        then show ?thesis
          by (simp add: word_unat_eq_iff unsigned_take_bit_eq take_bit_nat_eq_self)
      qed
      ultimately show ?thesis using get' old True by (simp add: N)
    next
      case False
      then show ?thesis using get' old packed.get_range [OF wf p] by (simp add: N)
    qed
  qed
  then have "represents cf' N"
    using assms(1) par cf_Remove_wf [OF wf rem] by (simp add: represents_def N)
  with rem N show ?thesis by simp
qed

section \<open>Histories\<close>

lemma need_counter_bytes:
  assumes "unat (m :: u64) * unat b < 2 ^ 64 - 7"
  shows "unat ((m * b + 7) div 8) = (unat m * unat b + 7) div 8"
proof -
  have "unat (m * b) = unat m * unat b" using assms by (simp add: unat_word_ariths)
  then have "unat (m * b + 7) = unat m * unat b + 7" using assms by (simp add: unat_word_ariths)
  then show ?thesis by (simp add: unat_div)
qed

lemma mask_counter: "b \<le> 8 \<Longrightarrow> push_bit b 1 - 1 = (mask b :: byte)"
  by (simp add: mask_eq_exp_minus_1 push_bit_eq_mult)

lemma getCounter_zeros [simp]: "bits_of (cf_data cf) = {} \<Longrightarrow> wf_cf cf \<Longrightarrow> p < cf_m cf \<Longrightarrow> getCounter cf p = 0"
  by (rule bit_word_eqI) (simp add: getCounter_bit)

lemma cf_New_wf:
  assumes "cf_New m k b = Ok cf" "unat m * unat b < 2 ^ 64 - 7"
  shows "wf_cf cf" "cf_m cf = m" "cf_k cf = k" "cf_counterBits cf = b" "bits_of (cf_data cf) = {}"
  using assms(1) need_counter_bytes [OF assms(2)] assms(2)
  by (auto simp: cf_New_def Let_def wf_cf_def mask_counter word_le_nat_alt not_less split: if_splits)

lemma represents_New:
  assumes "cf_New m k b = Ok cf" "unat m * unat b < 2 ^ 64 - 7"
  shows "represents cf {#}"
  using cf_New_wf [OF assms] by (simp add: represents_def)

lemma bits_of_map_zero [simp]: "bits_of (map (\<lambda>_. 0) bs) = {}"
  by (simp add: map_replicate_const)

lemma represents_Reset: "wf_cf cf \<Longrightarrow> represents (cf_Reset cf) {#}"
  by (simp add: represents_def wf_cf_def cf_Reset_def)

text \<open>
  The histories of a filter together with the multiset of its live items: \<open>Add\<close> of an item
  with \<open>k\<close> different positions, a refused \<open>Add\<close>, \<open>Remove\<close> of a live item, \<open>Reset\<close>.
\<close>

inductive cf_step :: "CountingFilter \<times> bytes multiset \<Rightarrow> CountingFilter \<times> bytes multiset \<Rightarrow> bool" where
  added: "cf_Add cf x = Ok cf' \<Longrightarrow> distinct (positions (cf_m cf) (cf_k cf) x)
     \<Longrightarrow> cf_step (cf, M) (cf', add_mset x M)"
| refused: "cf_Add cf x = Err e \<Longrightarrow> cf_step (cf, M) (cf, M)"
| removed: "x \<in># M \<Longrightarrow> cf_Remove cf x = Ok cf' \<Longrightarrow> cf_step (cf, M) (cf', M - {#x#})"
| cleared: "cf_step (cf, M) (cf_Reset cf, {#})"

inductive_cases cf_stepE: "cf_step (cf, M) s"

inductive cf_reach :: "CountingFilter \<times> bytes multiset \<Rightarrow> CountingFilter \<times> bytes multiset \<Rightarrow> bool" where
  start: "cf_reach s s"
| more: "cf_reach s t \<Longrightarrow> cf_step t u \<Longrightarrow> cf_reach s u"

lemma represents_wf: "represents cf M \<Longrightarrow> wf_cf cf"
  by (simp add: represents_def)

lemma cf_step_represents:
  assumes "cf_step (cf, M) (cf', M')" "represents cf M"
  shows "represents cf' M'"
  using assms(1)
proof (rule cf_stepE)
  fix x cf1
  assume x: "x \<in># M" and rem: "cf_Remove cf x = Ok cf1" and eq: "(cf', M') = (cf1, M - {#x#})"
  then show "represents cf' M'" using represents_remove [OF assms(2) x] by simp
next
  fix x cf1
  assume "(cf', M') = (cf1, add_mset x M)" "cf_Add cf x = Ok cf1" "distinct (cf_probes cf x)"
  then show "represents cf' M'" using represents_add [OF assms(2)] by simp
qed (use assms(2) represents_Reset represents_wf in auto)

lemma cf_reach_represents: "cf_reach s t \<Longrightarrow> represents (fst s) (snd s) \<Longrightarrow> represents (fst t) (snd t)"
proof (induction rule: cf_reach.induct)
  case (more s t u)
  then show ?case
    using cf_step_represents [of "fst t" "snd t" "fst u" "snd u"] by simp
qed

section \<open>Colliding positions\<close>

text \<open>
  When an item probes a counter twice, the guards of \<open>Add\<close>, which look at each counter before
  any of them moves, do not see the sum.
\<close>

lemma Hash_one [simp]: "Hash x i 1 = 0"
  using Hash_less [of 1 x i] by (simp add: word_less_nat_alt unat_eq_zero)

lemma positions_one: "positions 1 2 x = [0, 0]"
  by (simp add: positions_def u64_range_def upt_rec)

lemma wrapped_Add:
  assumes "cf_New 1 2 1 = Ok cf"
  shows "\<exists>cf'. cf_Add cf x = Ok cf' \<and> \<not> cf_Test cf' x"
proof -
  note new = cf_New_wf [OF assms, simplified]
  have "getCounter cf 0 = 0" by (rule getCounter_zeros) (simp_all add: new)
  moreover have "cf_maxCount cf \<noteq> 0" using new(1,4) unat_maxCount [of cf] by auto
  ultimately obtain cf' where add: "cf_Add cf x = Ok cf'"
    using new by (auto simp: cf_Add_def Let_def positions_one word_gt_0 simp flip: not_less)
  have "unat (getCounter cf' 0) = 0"
    using cf_Add_get [OF new(1) add, of 0] new \<open>getCounter cf 0 = 0\<close> by (simp add: positions_one)
  then have "\<not> cf_Test cf' x"
    using cf_step_params(1) [OF add] new by (simp add: cf_Test_def positions_one unat_eq_zero)
  with add show ?thesis by blast
qed

section \<open>Counting loops\<close>

lemma NonZeroCount_card: "NonZeroCount cf = card {p. p < cf_m cf \<and> getCounter cf p \<noteq> 0}"
proof -
  let ?P = "\<lambda>p. getCounter cf p \<noteq> 0"
  have "foldl (\<lambda>n i. if getCounter cf i > 0 then n + 1 else n) n0 ps = n0 + length (filter ?P ps)"
    for n0 ps by (induction ps arbitrary: n0) (simp_all add: word_gt_0)
  then have "NonZeroCount cf = length (filter ?P (u64_range (cf_m cf)))"
    by (simp add: NonZeroCount_def)
  also have "\<dots> = card (set (filter ?P (u64_range (cf_m cf))))"
    by (rule distinct_card [symmetric])
      (auto simp: u64_range_def distinct_map inj_on_def word_unat_eq_iff unat_word_of_nat_lt
        dest!: unat_word_of_nat_lt intro!: distinct_filter)
  also have "set (filter ?P (u64_range (cf_m cf))) = {p. p < cf_m cf \<and> ?P p}" by auto
  finally show ?thesis .
qed

lemma MaxObservedCount_upper: "p < cf_m cf \<Longrightarrow> getCounter cf p \<le> MaxObservedCount cf"
proof -
  let ?f = "\<lambda>mx i. let v = getCounter cf i in if v > mx then v else mx"
  have "mx0 \<le> foldl ?f mx0 ps \<and> (\<forall>p \<in> set ps. getCounter cf p \<le> foldl ?f mx0 ps)" for mx0 ps
  proof (induction ps arbitrary: mx0)
    case (Cons q ps)
    from Cons [of "?f mx0 q"] show ?case by (auto simp: Let_def split: if_splits)
  qed simp
  then show "p < cf_m cf \<Longrightarrow> getCounter cf p \<le> MaxObservedCount cf"
    by (simp add: MaxObservedCount_def)
qed

section \<open>Properties\<close>

lemma cf_Test_counters: "cf_Test cf x \<longleftrightarrow> (\<forall>p \<in> set (cf_probes cf x). getCounter cf p \<noteq> 0)"
  by (simp add: cf_Test_def list_all_iff)



text \<open>\<open>Remove\<close> undoes \<open>Add\<close>: adding an item and removing it, when both succeed, restores the
  whole filter, every byte and the element count, even if the item probes a counter repeatedly.\<close>

lemma Remove_undoes_Add:
  assumes "wf_cf cf" "cf_Add cf x = Ok cf1" "cf_Remove cf1 x = Ok cf2"
  shows "cf2 = cf"
  by (rule Remove_Add [OF assms])

lemma Remove_undoes_Add_witness:
  "\<exists>cf cf1. cf_Add cf [65] = Ok cf1 \<and> cf_Remove cf1 [65] = Ok cf"
proof -
  obtain cf0 where new: "cf_New 16 1 4 = Ok cf0" by (auto simp: cf_New_def)
  have wf: "wf_cf cf0" "cf_m cf0 = 16" "cf_k cf0 = 1" "bits_of (cf_data cf0) = {}" "cf_counterBits cf0 = 4"
    using cf_New_wf [OF new] by simp_all
  have rng: "list_all (\<lambda>p. p < 16) (positions 16 1 [65])" by (rule positions_in_range) simp
  have "cf_maxCount cf0 = 15" using new by (auto simp: cf_New_def push_bit_of_1)
  then obtain cf where add: "cf_Add cf0 [65] = Ok cf"
    using wf rng by (auto simp: cf_Add_def Let_def list_ex_iff list_all_iff)
  have "distinct (positions (cf_m cf0) (cf_k cf0) [65])"
    using wf by (simp add: positions_def u64_range_def)
  then have "represents cf {#[65]#}"
    using represents_add [OF represents_New [OF new] _ add] by simp
  from represents_remove [OF this, of "[65]"] obtain cf2 where rem: "cf_Remove cf [65] = Ok cf2" by auto
  with Remove_undoes_Add [OF wf(1) add rem] add show ?thesis by blast
qed

text \<open>C13: The packed representation is an array of \<open>m\<close> independent \<open>counterBits\<close>-wide cells, across
  byte boundaries: writing a cell stores the value modulo the width, and leaves every other
  cell and the padding as they were.\<close>

theorem counters_independent:
  assumes "wf_cf cf" "p < cf_m cf" "q < cf_m cf"
  shows "unat (getCounter (setCounter cf p v) q)
      = (if q = p then unat v mod 2 ^ unat (cf_counterBits cf) else unat (getCounter cf q))
    \<and> (\<forall>i \<ge> unat (cf_m cf) * unat (cf_counterBits cf).
        i \<in> bits_of (cf_data (setCounter cf p v)) \<longleftrightarrow> i \<in> bits_of (cf_data cf))
    \<and> wf_cf (setCounter cf p v)"
proof (intro conjI)
  show "unat (getCounter (setCounter cf p v) q)
      = (if q = p then unat v mod 2 ^ unat (cf_counterBits cf) else unat (getCounter cf q))"
  proof (cases "q = p")
    case True
    have "unat (take_bit (unat (cf_counterBits cf)) v) = take_bit (unat (cf_counterBits cf)) (unat v)"
      by (rule unsigned_take_bit_eq)
    then show ?thesis
      using True packed.get_same [OF assms(1,2), of v] by (simp only: take_bit_eq_mod refl if_True)
  next
    case False
    then show ?thesis using packed.get_other [OF assms] by simp
  qed
  show "\<forall>i \<ge> unat (cf_m cf) * unat (cf_counterBits cf).
      i \<in> bits_of (cf_data (setCounter cf p v)) \<longleftrightarrow> i \<in> bits_of (cf_data cf)"
    using cell_span(2) [OF assms(1,2)] setCounter_bits [OF assms(1,2)] by auto
  show "wf_cf (setCounter cf p v)" by (rule setCounter_wf [OF assms(1)])
qed

theorem counters_independent_witness:
  "wf_cf (setCounter \<lparr>cf_m = 5, cf_k = 2, cf_counterBits = 3, cf_maxCount = 7, cf_data = [0, 0], cf_count = 0\<rparr> 2 5)"
  using counters_independent [of
      "\<lparr>cf_m = 5, cf_k = 2, cf_counterBits = 3, cf_maxCount = 7, cf_data = [0, 0], cf_count = 0\<rparr>" 2 3 5]
  by (simp add: wf_cf_def mask_eq_exp_minus_1)



end
