(* ===== verification/Counting_Snapshot.thy ===== *)
theory Counting_Snapshot
  imports Counting Codec
begin

text \<open>
  \<open>internal/counting/snapshot.go\<close>: the checksummed snapshot of a counting filter, its reader,
  \<open>Clone\<close> and \<open>Merge\<close> (for two different filters: merging a filter with itself blocks on its
  own mutex). \<open>count\<close> is stored as an \<open>int32\<close> and sign-extended when read back.
\<close>

definition snapshotMagic :: u32 where "snapshotMagic = 0x43424631"

abbreviation (input) snapshotHeader :: nat where "snapshotHeader \<equiv> 20"
abbreviation (input) snapshotCRC :: nat where "snapshotCRC \<equiv> 4"

definition snapshot_payload :: "CountingFilter \<Rightarrow> bytes" where
  "snapshot_payload cf = put_be32 snapshotMagic @ put_be32 (ucast (cf_m cf))
     @ put_be32 (ucast (cf_k cf)) @ put_be32 (ucast (cf_counterBits cf))
     @ put_be32 (ucast (cf_count cf)) @ cf_data cf"

fun MarshalSnapshot :: "CountingFilter option \<Rightarrow> (counting_error, bytes) outcome" where
  "MarshalSnapshot None = Err CErrNilFilter"
| "MarshalSnapshot (Some cf) =
     Ok (snapshot_payload cf @ put_be32 (crc32_ieee (snapshot_payload cf)))"

definition UnmarshalSnapshot :: "bytes \<Rightarrow> (counting_error, CountingFilter) outcome" where
  "UnmarshalSnapshot b =
     (if length b < snapshotHeader + snapshotCRC then Err CErrSnapshotTooShort
      else if be32 (subslice b 0 4) \<noteq> snapshotMagic then Err CErrSnapshotBadMagic
      else let m = ucast (be32 (subslice b 4 8));
               k = ucast (be32 (subslice b 8 12));
               counterBits = ucast (be32 (subslice b 12 16));
               count = scast (be32 (subslice b 16 20));
               expectedDataLen = unat ((m * counterBits + 7) div 8)
           in if length b < snapshotHeader + expectedDataLen + snapshotCRC
              then Err CErrSnapshotDataLen
              else let payload = take (snapshotHeader + expectedDataLen) b;
                       storedCRC = be32 (drop (snapshotHeader + expectedDataLen) b);
                       computed = crc32_ieee payload
                   in if storedCRC \<noteq> computed then Err CErrSnapshotCRC
                      else Ok \<lparr>cf_m = m, cf_k = k, cf_counterBits = counterBits,
                             cf_maxCount = push_bit (unat counterBits) 1 - 1,
                             cf_data = subslice b snapshotHeader (snapshotHeader + expectedDataLen),
                             cf_count = count\<rparr>)"

definition cf_Clone :: "CountingFilter \<Rightarrow> CountingFilter" where
  "cf_Clone cf = \<lparr>cf_m = cf_m cf, cf_k = cf_k cf, cf_counterBits = cf_counterBits cf,
     cf_maxCount = cf_maxCount cf, cf_data = take (length (cf_data cf)) (cf_data cf),
     cf_count = cf_count cf\<rparr>"

definition merge_body :: "CountingFilter \<Rightarrow> CountingFilter \<Rightarrow> u64 \<Rightarrow> CountingFilter" where
  "merge_body other cf i =
     (let a = getCounter cf i; b = getCounter other i;
          sum = ucast a + ucast b :: 16 word;
          sum = (if sum > ucast (cf_maxCount cf) then ucast (cf_maxCount cf) else sum)
      in setCounter cf i (ucast sum))"

fun cf_Merge :: "CountingFilter \<Rightarrow> CountingFilter option \<Rightarrow> (counting_error, CountingFilter) outcome" where
  "cf_Merge cf None = Err CErrNilFilter"
| "cf_Merge cf (Some other) =
     (if cf_m cf \<noteq> cf_m other \<or> cf_k cf \<noteq> cf_k other \<or> cf_counterBits cf \<noteq> cf_counterBits other
      then Err CErrParamMismatch
      else let cf' = foldl (merge_body other) cf (u64_range (cf_m cf))
           in Ok (cf'\<lparr>cf_count := cf_count cf' + cf_count other\<rparr>))"

section \<open>Round trip\<close>

text \<open>The filters a snapshot can hold: 32-bit parameters and an element count in \<open>int32\<close>.\<close>

definition fits_snapshot :: "CountingFilter \<Rightarrow> bool" where
  "fits_snapshot cf \<longleftrightarrow> unat (cf_m cf) < 2 ^ 32 \<and> unat (cf_k cf) < 2 ^ 32
     \<and> - (2 ^ 31) \<le> sint (cf_count cf) \<and> sint (cf_count cf) < 2 ^ 31"

lemma scast_u32_back:
  assumes "- (2 ^ 31) \<le> sint (c :: u64)" "sint c < 2 ^ 31"
  shows "(scast (ucast c :: u32) :: u64) = c"
proof -
  have "sint (ucast c :: u32) = signed_take_bit 31 (uint c)"
    using signed_ucast_eq [where 'a = int and 'b = 64 and 'c = 32, of c] by simp
  also have "\<dots> = signed_take_bit 31 (signed_take_bit 63 (uint c))" by simp
  also have "signed_take_bit 63 (uint c) = sint c" by (simp add: sint_uint)
  also have "signed_take_bit 31 (sint c) = sint c"
    using assms by (simp add: signed_take_bit_int_eq_self_iff)
  finally have "word_of_int (sint (ucast c :: u32)) = c" by simp
  then show ?thesis by (simp only: scast_eq)
qed

lemma snapshot_fields:
  "subslice (snapshot_payload cf @ r) 0 4 = put_be32 snapshotMagic"
  "subslice (snapshot_payload cf @ r) 4 8 = put_be32 (ucast (cf_m cf))"
  "subslice (snapshot_payload cf @ r) 8 12 = put_be32 (ucast (cf_k cf))"
  "subslice (snapshot_payload cf @ r) 12 16 = put_be32 (ucast (cf_counterBits cf))"
  "subslice (snapshot_payload cf @ r) 16 20 = put_be32 (ucast (cf_count cf))"
  "subslice (snapshot_payload cf @ r) 20 (20 + length (cf_data cf)) = cf_data cf"
  by (simp_all add: snapshot_payload_def subslice_all)

lemma length_snapshot_payload [simp]: "length (snapshot_payload cf) = 20 + length (cf_data cf)"
  by (simp add: snapshot_payload_def)

lemma small_counterBits: "wf_cf cf \<Longrightarrow> unat (cf_counterBits cf) < 2 ^ 32"
  using wf_cf_bits [of cf] by simp

lemma UnmarshalSnapshot_payload:
  assumes "wf_cf cf" "fits_snapshot cf"
  shows "UnmarshalSnapshot (snapshot_payload cf @ put_be32 c @ junk)
    = (if c = crc32_ieee (snapshot_payload cf) then Ok cf else Err CErrSnapshotCRC)"
proof -
  have fields: "(ucast (ucast (cf_m cf) :: u32) :: u64) = cf_m cf"
    "(ucast (ucast (cf_k cf) :: u32) :: u64) = cf_k cf"
    "(ucast (ucast (cf_counterBits cf) :: u32) :: u64) = cf_counterBits cf"
    "(scast (ucast (cf_count cf) :: u32) :: u64) = cf_count cf"
    using assms(2) small_counterBits [OF assms(1)]
    by (simp_all add: fits_snapshot_def unat_u64_ucast_u32 scast_u32_back)
  have len: "unat ((cf_m cf * cf_counterBits cf + 7) div 8) = length (cf_data cf)"
    using assms(1) need_counter_bytes by (simp add: wf_cf_def)
  have mx: "push_bit (unat (cf_counterBits cf)) 1 - 1 = cf_maxCount cf"
    using assms(1) wf_cf_bits [OF assms(1)] by (simp add: wf_cf_def mask_counter)
  show ?thesis
    using snapshot_fields [of cf "put_be32 c @ junk"]
    by (auto simp: UnmarshalSnapshot_def Let_def fields len [simplified] mx)
qed

text \<open>
  The reader does not validate the parameters: a snapshot of all-zero fields with a correct
  checksum is accepted, and the filter it gives reports every item as present.
\<close>

lemma UnmarshalSnapshot_unvalidated:
  fixes data :: bytes
  assumes "p = put_be32 snapshotMagic @ replicate 16 0"
  shows "\<exists>cf. UnmarshalSnapshot (p @ put_be32 (crc32_ieee p)) = Ok cf
    \<and> cf_New (cf_m cf) (cf_k cf) (cf_counterBits cf) = Err CErrInvalidParams \<and> cf_Test cf data"
proof -
  let ?z = "\<lparr>cf_m = 0, cf_k = 0, cf_counterBits = 0, cf_maxCount = 0, cf_data = [], cf_count = 0\<rparr>"
  have p: "p = snapshot_payload ?z"
    by (simp add: assms snapshot_payload_def put_be32_def eval_nat_numeral)
  have "UnmarshalSnapshot (p @ put_be32 (crc32_ieee p)) = Ok ?z"
    using snapshot_fields [of ?z "put_be32 (crc32_ieee (snapshot_payload ?z))"]
    by (auto simp: UnmarshalSnapshot_def Let_def p)
  then show ?thesis by (simp add: cf_New_def cf_Test_def positions_def u64_range_def)
qed

section \<open>Merging\<close>

lemma merged_count:
  assumes "(a :: byte) \<le> mx" "b \<le> mx"
  shows "unat (ucast (if ucast a + ucast b > (ucast mx :: 16 word) then ucast mx
      else ucast a + ucast b :: 16 word) :: byte) = min (unat mx) (unat a + unat b)"
proof -
  have small: "unat x < 256" for x :: byte
    using unsigned_less [of x, where 'a = nat] by simp
  have up: "unat (ucast x :: 16 word) = unat x" for x :: byte
    using small [of x] by (simp add: unsigned_ucast_eq take_bit_nat_eq_self)
  have sum: "unat (ucast a + ucast b :: 16 word) = unat a + unat b"
    using small [of a] small [of b] by (simp add: unat_word_ariths up)
  show ?thesis
    using small [of mx]
    by (auto simp: word_less_nat_alt up sum unsigned_ucast_eq take_bit_nat_eq_self min_def
        not_less)
qed

lemma merge_body_params [simp]:
  "cf_m (merge_body other cf i) = cf_m cf" "cf_k (merge_body other cf i) = cf_k cf"
  "cf_counterBits (merge_body other cf i) = cf_counterBits cf"
  "cf_maxCount (merge_body other cf i) = cf_maxCount cf"
  "cf_count (merge_body other cf i) = cf_count cf"
  "wf_cf (merge_body other cf i) = wf_cf cf"
  by (simp_all add: merge_body_def Let_def wf_cf_def)

lemma merge_body_get:
  assumes "wf_cf cf" "wf_cf other" "cf_m other = cf_m cf" "cf_counterBits other = cf_counterBits cf"
    "i < cf_m cf" "p < cf_m cf"
  shows "unat (getCounter (merge_body other cf i) p)
    = (if p = i then min (unat (cf_maxCount cf)) (unat (getCounter cf i) + unat (getCounter other i))
       else unat (getCounter cf p))"
proof (cases "p = i")
  case True
  have mx: "cf_maxCount other = cf_maxCount cf" using assms(1-4) by (simp add: wf_cf_def)
  let ?v = "ucast (if ucast (getCounter cf i) + ucast (getCounter other i)
        > (ucast (cf_maxCount cf) :: 16 word) then ucast (cf_maxCount cf)
      else ucast (getCounter cf i) + ucast (getCounter other i) :: 16 word) :: byte"
  have v: "unat ?v = min (unat (cf_maxCount cf)) (unat (getCounter cf i) + unat (getCounter other i))"
    using getCounter_max [OF assms(1,5)] getCounter_max [OF assms(2), of i] assms(3,5) mx
    by (intro merged_count) simp_all
  have "unat ?v < 2 ^ unat (cf_counterBits cf)"
    unfolding v unat_maxCount [OF assms(1)] by (rule order.strict_trans1 [OF min.cobounded1]) simp
  then have "take_bit (unat (cf_counterBits cf)) ?v = ?v"
    by (simp add: word_unat_eq_iff unsigned_take_bit_eq take_bit_nat_eq_self)
  then have "getCounter (merge_body other cf i) i = ?v"
    using packed.get_same [OF assms(1,5)] by (simp add: merge_body_def Let_def)
  then show ?thesis using True v by (simp only: refl if_True)
next
  case False
  then show ?thesis
    using packed.get_other [OF assms(1,5,6)] by (simp add: merge_body_def Let_def)
qed

lemma merge_loop_get:
  assumes "wf_cf cf" "wf_cf other" "cf_m other = cf_m cf" "cf_counterBits other = cf_counterBits cf"
    "l \<le> unat (cf_m cf)"
  shows "wf_cf (foldl (merge_body other) cf (map word_of_nat [0..<l]))
    \<and> cf_m (foldl (merge_body other) cf (map word_of_nat [0..<l])) = cf_m cf
    \<and> cf_k (foldl (merge_body other) cf (map word_of_nat [0..<l])) = cf_k cf
    \<and> cf_counterBits (foldl (merge_body other) cf (map word_of_nat [0..<l])) = cf_counterBits cf
    \<and> cf_maxCount (foldl (merge_body other) cf (map word_of_nat [0..<l])) = cf_maxCount cf
    \<and> (\<forall>p < cf_m cf. unat (getCounter (foldl (merge_body other) cf (map word_of_nat [0..<l])) p)
        = (if unat p < l
           then min (unat (cf_maxCount cf)) (unat (getCounter cf p) + unat (getCounter other p))
           else unat (getCounter cf p)))"
  using assms(5)
proof (induction l)
  case 0
  then show ?case using assms(1) by simp
next
  case (Suc l)
  let ?cf = "foldl (merge_body other) cf (map word_of_nat [0..<l])"
  let ?i = "word_of_nat l :: u64"
  have u: "unat ?i = l" using Suc.prems by (intro unat_word_of_nat_lt [of _ "cf_m cf"]) simp
  then have i: "?i < cf_m cf" using Suc.prems by (simp add: word_less_nat_alt)
  note ih = Suc.IH [OF Suc_leD [OF Suc.prems]]
  have "unat (getCounter (merge_body other ?cf ?i) p)
      = (if unat p < Suc l
         then min (unat (cf_maxCount cf)) (unat (getCounter cf p) + unat (getCounter other p))
         else unat (getCounter cf p))" if p: "p < cf_m cf" for p
  proof -
    have "unat (getCounter (merge_body other ?cf ?i) p)
        = (if p = ?i then min (unat (cf_maxCount ?cf))
             (unat (getCounter ?cf ?i) + unat (getCounter other ?i))
           else unat (getCounter ?cf p))"
      by (rule merge_body_get) (use ih assms(2-4) i p in simp_all)
    moreover have "p = ?i \<longleftrightarrow> unat p = l" using u by (metis word_unat_eq_iff)
    ultimately show ?thesis using ih i p u by (auto simp: less_Suc_eq)
  qed
  with ih show ?case by simp
qed

lemma cf_Merge_get:
  assumes "wf_cf cf" "wf_cf other" "cf_Merge cf (Some other) = Ok cf'"
  shows "wf_cf cf' \<and> cf_m cf' = cf_m cf \<and> cf_k cf' = cf_k cf
    \<and> cf_counterBits cf' = cf_counterBits cf
    \<and> (\<forall>p < cf_m cf. unat (getCounter cf' p)
        = min (unat (cf_maxCount cf)) (unat (getCounter cf p) + unat (getCounter other p)))"
  using merge_loop_get [OF assms(1,2), of "unat (cf_m cf)"] assms(3)
  by (auto simp: u64_range_def Let_def word_less_nat_alt split: if_splits)

lemma cf_Merge_represents:
  assumes "represents cf M" "represents other N" "cf_Merge cf (Some other) = Ok cf'"
    and no_clamp: "\<forall>p < cf_m cf. unat (getCounter cf p) + unat (getCounter other p)
      \<le> unat (cf_maxCount cf)"
  shows "represents cf' (M + N)"
proof -
  have par: "cf_m other = cf_m cf" "cf_k other = cf_k cf"
    using assms(3) by (auto split: if_splits)
  note merged = cf_Merge_get [OF represents_wf [OF assms(1)] represents_wf [OF assms(2)] assms(3)]
  have "unat (getCounter cf' p) = unat (getCounter cf p) + unat (getCounter other p)"
    if "p < cf_m cf" for p
    using merged no_clamp that by (simp add: min_absorb2)
  then show ?thesis
    using assms(1,2) merged by (auto simp: represents_def par)
qed

section \<open>Properties\<close>

text \<open>C27: A counting filter whose parameters and element count fit the 32-bit fields is restored
  exactly from its snapshot (a negative count included), and a snapshot whose stored checksum
  is changed is refused.\<close>

theorem snapshot_roundtrip:
  assumes "wf_cf cf" "fits_snapshot cf"
  shows "\<exists>b. MarshalSnapshot (Some cf) = Ok b \<and> UnmarshalSnapshot (b @ junk) = Ok cf
    \<and> (\<forall>c. c \<noteq> be32 (drop (length b - 4) b) \<longrightarrow>
        UnmarshalSnapshot (take (length b - 4) b @ put_be32 c) = Err CErrSnapshotCRC)"
  using UnmarshalSnapshot_payload [OF assms, of _ junk] UnmarshalSnapshot_payload [OF assms, of _ "[]"]
  by simp

theorem snapshot_roundtrip_witness:
  "\<exists>b. MarshalSnapshot (Some \<lparr>cf_m = 5, cf_k = 2, cf_counterBits = 3, cf_maxCount = 7,
        cf_data = [9, 1], cf_count = - 2\<rparr>) = Ok b
    \<and> UnmarshalSnapshot (b @ []) = Ok \<lparr>cf_m = 5, cf_k = 2, cf_counterBits = 3, cf_maxCount = 7,
        cf_data = [9, 1], cf_count = - 2\<rparr>"
  using snapshot_roundtrip [of "\<lparr>cf_m = 5, cf_k = 2, cf_counterBits = 3, cf_maxCount = 7,
        cf_data = [9, 1], cf_count = - 2\<rparr>" "[]"]
  by (simp add: wf_cf_def fits_snapshot_def mask_eq_exp_minus_1)

text \<open>C28: Merging adds the counters pointwise and clamps them at the maximum; if nothing is clamped,
  the merged filter stands for the multiset union of the live items of both.\<close>

theorem Merge_adds:
  assumes "represents cf M" "represents other N" "cf_Merge cf (Some other) = Ok cf'"
  shows "(\<forall>p < cf_m cf. unat (getCounter cf' p)
        = min (unat (cf_maxCount cf)) (unat (getCounter cf p) + unat (getCounter other p)))
    \<and> ((\<forall>p < cf_m cf. unat (getCounter cf p) + unat (getCounter other p) \<le> unat (cf_maxCount cf))
        \<longrightarrow> represents cf' (M + N))"
  using cf_Merge_get [OF represents_wf [OF assms(1)] represents_wf [OF assms(2)] assms(3)]
    cf_Merge_represents [OF assms] by blast

theorem Merge_adds_witness:
  "\<exists>cf cf'. cf_New 16 2 4 = Ok cf \<and> cf_Merge cf (Some cf) = Ok cf' \<and> represents cf' ({#} + {#})"
proof -
  obtain cf where new: "cf_New 16 2 4 = Ok cf" by (auto simp: cf_New_def)
  then obtain cf' where merged: "cf_Merge cf (Some cf) = Ok cf'" by (auto simp: Let_def)
  have rep: "represents cf {#}" by (rule represents_New [OF new]) simp
  note props = Merge_adds [OF rep rep merged]
  have "unat (getCounter cf p) = 0" if "p < cf_m cf" for p
    using rep that by (simp add: represents_def)
  with props have "represents cf' ({#} + {#})" by simp
  with new merged show ?thesis by blast
qed

text \<open>The snapshot reader checks the checksum but not the parameters: it accepts a filter that
  \<open>New\<close> refuses to build and that reports every item as present.\<close>

lemma snapshot_not_validated:
  assumes "p = put_be32 snapshotMagic @ replicate 16 0"
  shows "\<exists>cf. UnmarshalSnapshot (p @ put_be32 (crc32_ieee p)) = Ok cf
    \<and> cf_New (cf_m cf) (cf_k cf) (cf_counterBits cf) = Err CErrInvalidParams \<and> cf_Test cf data"
  by (rule UnmarshalSnapshot_unvalidated [OF assms])

lemma snapshot_not_validated_witness:
  "\<exists>cf. UnmarshalSnapshot ((put_be32 snapshotMagic @ replicate 16 0)
       @ put_be32 (crc32_ieee (put_be32 snapshotMagic @ replicate 16 0))) = Ok cf \<and> cf_Test cf [65]"
  using snapshot_not_validated [OF refl, of "[65]"] by blast

section \<open>Locking of Merge\<close>

text \<open>
  The lock operations of \<open>Merge\<close> on the filters number \<open>a\<close> and \<open>b\<close>, in the order of the code
  with its \<open>defer\<close>s, and their execution by several goroutines: for every filter the state holds
  whether its mutex is write-locked and how many readers it has. A step of goroutine \<open>i\<close> performs
  its next operation, and is not possible while the operation blocks. (Go's \<open>RWMutex\<close> blocks
  new readers also behind a waiting writer, which only makes fewer steps possible.)
\<close>

datatype lock_op = Lock nat | RLock nat | Body | RUnlock nat | Unlock nat

definition merge_locks :: "nat \<Rightarrow> nat \<Rightarrow> lock_op list" where
  "merge_locks a b = [Lock a, RLock b, Body, RUnlock b, Unlock a]"

type_synonym lock_state = "(nat \<Rightarrow> bool) \<times> (nat \<Rightarrow> nat) \<times> lock_op list list"

fun lock_exec :: "lock_op \<Rightarrow> (nat \<Rightarrow> bool) \<times> (nat \<Rightarrow> nat) \<Rightarrow> ((nat \<Rightarrow> bool) \<times> (nat \<Rightarrow> nat)) option" where
  "lock_exec (Lock x) (w, r) = (if w x \<or> 0 < r x then None else Some (w(x := True), r))"
| "lock_exec (RLock x) (w, r) = (if w x then None else Some (w, r(x := r x + 1)))"
| "lock_exec Body (w, r) = Some (w, r)"
| "lock_exec (RUnlock x) (w, r) = Some (w, r(x := r x - 1))"
| "lock_exec (Unlock x) (w, r) = Some (w(x := False), r)"

fun lock_step :: "lock_state \<Rightarrow> nat \<Rightarrow> lock_state option" where
  "lock_step (w, r, gs) i =
     (if i < length gs then
        (case gs ! i of
           [] \<Rightarrow> None
         | op # rest \<Rightarrow> map_option (\<lambda>(w, r). (w, r, gs[i := rest])) (lock_exec op (w, r)))
      else None)"

fun lock_run :: "lock_state \<Rightarrow> nat list \<Rightarrow> lock_state option" where
  "lock_run st [] = Some st"
| "lock_run st (i # is) = (case lock_step st i of None \<Rightarrow> None | Some st \<Rightarrow> lock_run st is)"

text \<open>A single merge of two different filters runs to its end and releases both locks.\<close>

lemma merge_alone:
  "a \<noteq> b \<Longrightarrow> lock_run (\<lambda>_. False, \<lambda>_. 0, [merge_locks a b]) [0, 0, 0, 0, 0]
     = Some (\<lambda>_. False, \<lambda>_. 0, [[]])"
  by (auto simp: merge_locks_def fun_eq_iff)

text \<open>Merging a filter with itself blocks for ever at the second lock.\<close>

lemma merge_with_itself_blocks:
  "\<exists>st. lock_run (\<lambda>_. False, \<lambda>_. 0, [merge_locks a a]) [0] = Some st
     \<and> snd (snd st) \<noteq> [[]] \<and> (\<forall>i. lock_step st i = None)"
  by (simp add: merge_locks_def)

text \<open>Two merges in opposite directions can block each other for ever.\<close>

lemma opposite_merges_block:
  assumes "a \<noteq> b"
  shows "\<exists>st. lock_run (\<lambda>_. False, \<lambda>_. 0, [merge_locks a b, merge_locks b a]) [0, 1] = Some st
     \<and> [] \<notin> set (snd (snd st)) \<and> (\<forall>i. lock_step st i = None)"
  using assms by (auto simp: merge_locks_def less_Suc_eq nth_Cons split: nat.splits)

end
