(* ===== verification/Partition.thy ===== *)
theory Partition
  imports Bloom_Ops
begin

text \<open>
  \<open>internal/partition/partition.go\<close>: a filter split into independent sub-filters. A slice of
  pointers is a list of \<open>option\<close>s, an index out of range or a nil sub-filter is \<open>Panic\<close>. Go's \<open>int\<close>
  conversion of the 64-bit routing hash is \<open>sint\<close>, and \<open>%\<close> on \<open>int\<close> is \<open>smod\<close>. The quotient that
  \<open>Saturation\<close> returns is left to the rotation theory; here is the bit count it starts from.
\<close>

datatype partition_error = PErrInvalidPartitions | PErrInvalidParams | PErrPartitionIndex
  | PFilterErr filter_error | PErrRotationStopped | PErrNoPartitions

record PFilter =
  pf_partitions :: "BloomFilter option list"
  pf_count :: int
  pf_m :: u64
  pf_k :: u64

section \<open>Operations\<close>

definition pf_New :: "int \<Rightarrow> u64 \<Rightarrow> u64 \<Rightarrow> (partition_error, PFilter) outcome" where
  "pf_New partitions m k =
     (if partitions \<le> 0 then Err PErrInvalidPartitions
      else if m = 0 \<or> k = 0 then Err PErrInvalidParams
      else and_then (wrap_err PFilterErr (bf_New m k)) (\<lambda>bf.
             Ok \<lparr>pf_partitions = replicate (nat partitions) (Some bf), pf_count = partitions,
                 pf_m = m, pf_k = k\<rparr>))"

definition route :: "PFilter \<Rightarrow> bytes \<Rightarrow> int" where
  "route f data =
     (let h = Hash data 0 (word_of_int (pf_count f) * 1000)
      in sint h smod pf_count f)"

text \<open>\<open>f.partitions[idx]\<close>, then a method call on it.\<close>

definition sub_filter :: "PFilter \<Rightarrow> int \<Rightarrow> (partition_error, BloomFilter) outcome" where
  "sub_filter f idx =
     (if idx < 0 \<or> nat idx \<ge> length (pf_partitions f) then Panic
      else case pf_partitions f ! nat idx of None \<Rightarrow> Panic | Some bf \<Rightarrow> Ok bf)"

definition pf_Add :: "PFilter \<Rightarrow> bytes \<Rightarrow> (partition_error, PFilter) outcome" where
  "pf_Add f data =
     (let idx = route f data
      in and_then (sub_filter f idx) (\<lambda>bf.
           Ok (f\<lparr>pf_partitions := (pf_partitions f)[nat idx := Some (bf_Add bf data)]\<rparr>)))"

definition pf_Test :: "PFilter \<Rightarrow> bytes \<Rightarrow> (partition_error, bool) outcome" where
  "pf_Test f data = and_then (sub_filter f (route f data)) (\<lambda>bf. Ok (bf_Test bf data))"

fun test_all :: "BloomFilter option list \<Rightarrow> bytes \<Rightarrow> (partition_error, bool) outcome" where
  "test_all [] data = Ok False"
| "test_all (None # ps) data = Panic"
| "test_all (Some p # ps) data = (if bf_Test p data then Ok True else test_all ps data)"

definition pf_TestAll :: "PFilter \<Rightarrow> bytes \<Rightarrow> (partition_error, bool) outcome" where
  "pf_TestAll f data = test_all (pf_partitions f) data"

definition TotalBits :: "PFilter \<Rightarrow> u64" where
  "TotalBits f = pf_m f * word_of_int (pf_count f)"

definition get_partition :: "PFilter \<Rightarrow> int \<Rightarrow> (partition_error, BloomFilter option) outcome" where
  "get_partition f idx =
     (if idx < 0 \<or> idx \<ge> pf_count f then Err PErrPartitionIndex
      else if nat idx \<ge> length (pf_partitions f) then Panic
      else Ok (pf_partitions f ! nat idx))"

text \<open>\<open>bf, _ := filter.New(f.m, f.k)\<close>: nil when \<open>New\<close> fails.\<close>

definition new_part :: "PFilter \<Rightarrow> BloomFilter option" where
  "new_part f = (case bf_New (pf_m f) (pf_k f) of Ok bf \<Rightarrow> Some bf | _ \<Rightarrow> None)"

definition pf_Reset :: "PFilter \<Rightarrow> PFilter" where
  "pf_Reset f = f\<lparr>pf_partitions := map (\<lambda>_. new_part f) (pf_partitions f)\<rparr>"

definition ResetPartition :: "PFilter \<Rightarrow> int \<Rightarrow> (partition_error, PFilter) outcome" where
  "ResetPartition f idx =
     (if idx < 0 \<or> idx \<ge> pf_count f then Err PErrPartitionIndex
      else if nat idx \<ge> length (pf_partitions f) then Panic
      else Ok (f\<lparr>pf_partitions := (pf_partitions f)[nat idx := new_part f]\<rparr>))"

text \<open>The number of set bits that \<open>Saturation\<close> divides by \<open>m\<close>.\<close>

definition countBits :: "bytes \<Rightarrow> nat" where
  "countBits b = foldl (\<lambda>n v. n + popcount v) 0 b"

definition set_bits_of :: "PFilter \<Rightarrow> int \<Rightarrow> (partition_error, nat) outcome" where
  "set_bits_of f idx =
     (if idx < 0 \<or> idx \<ge> pf_count f then Err PErrPartitionIndex
      else and_then (sub_filter f idx) (\<lambda>bf. Ok (countBits (bf_bits bf))))"

section \<open>Invariant\<close>

definition wf_part :: "u64 \<Rightarrow> u64 \<Rightarrow> BloomFilter option \<Rightarrow> bool" where
  "wf_part m k p \<longleftrightarrow> (\<exists>bf. p = Some bf \<and> wf_bloom bf \<and> bf_m bf = m \<and> bf_k bf = k)"

text \<open>
  The routing modulus \<open>count * 1000\<close> must not reach the sign bit of \<open>int\<close>; the bound on \<open>count\<close>
  is far above any slice that fits in memory.
\<close>

definition wf_pf :: "PFilter \<Rightarrow> bool" where
  "wf_pf f \<longleftrightarrow> 0 < pf_count f \<and> pf_count f < 2 ^ 53
     \<and> length (pf_partitions f) = nat (pf_count f) \<and> unat (pf_m f) < 2 ^ 64 - 7
     \<and> (\<forall>p \<in> set (pf_partitions f). wf_part (pf_m f) (pf_k f) p)
     \<and> pf_m f \<noteq> 0 \<and> pf_k f \<noteq> 0"

lemma pf_New_wf:
  assumes "pf_New n m k = Ok f" "n < 2 ^ 53" "unat m < 2 ^ 64 - 7"
  shows "wf_pf f" "pf_count f = n" "pf_m f = m" "pf_k f = k"
    "\<forall>p \<in> set (pf_partitions f). \<forall>bf. p = Some bf \<longrightarrow> bits_of (bf_bits bf) = {}"
proof -
  obtain bf where bf: "bf_New m k = Ok bf" "0 < n" "m \<noteq> 0" "k \<noteq> 0"
    and f: "f = \<lparr>pf_partitions = replicate (nat n) (Some bf), pf_count = n, pf_m = m, pf_k = k\<rparr>"
    using assms(1) by (auto simp: pf_New_def and_then_Ok_iff split: if_splits)
  from bf_New_wf [OF bf(1) assms(3)] bf assms(2,3)
  show "wf_pf f" "pf_count f = n" "pf_m f = m" "pf_k f = k"
    "\<forall>p \<in> set (pf_partitions f). \<forall>bf. p = Some bf \<longrightarrow> bits_of (bf_bits bf) = {}"
    by (simp_all add: f wf_pf_def wf_part_def)
qed

section \<open>Routing\<close>

text \<open>The modulus is a multiple of the partition count, so the route is \<open>h1\<close> modulo the count.\<close>

lemma route_mod:
  assumes "0 < pf_count f" "pf_count f < 2 ^ 53"
  shows "route f data = int (unat (fnv64a data) mod nat (pf_count f))"
proof -
  let ?n = "nat (pf_count f)"
  let ?M = "word_of_int (pf_count f) * 1000 :: u64"
  have n: "0 < ?n" "?n < 2 ^ 53" using assms by (simp_all add: nat_less_iff)
  have "word_of_int (pf_count f) = (word_of_nat ?n :: u64)" using assms(1) by simp
  then have M: "unat ?M = ?n * 1000"
    using n(2) by (simp add: unat_word_ariths unat_of_nat)
  then have "?M \<noteq> 0" using n(1) by (metis mult_is_0 not_gr0 unat_0 zero_neq_numeral)
  then have h: "unat (Hash data 0 ?M) = unat (fnv64a data) mod (?n * 1000)"
    by (simp add: Hash_def Let_def unat_mod M)
  then have "unat (Hash data 0 ?M) < ?n * 1000" using n(1) by simp
  also have "\<dots> < 2 ^ 53 * 1000" using n(2) by simp
  finally have small: "unat (Hash data 0 ?M) < 2 ^ 63" by simp
  have "sint (Hash data 0 ?M) = int (unat (Hash data 0 ?M))"
    using small by (simp add: sint_of_small)
  then have "route f data = int (unat (Hash data 0 ?M)) mod int ?n"
    using assms(1) by (simp add: route_def Let_def smod_pos)
  also have "\<dots> = int (unat (fnv64a data) mod (?n * 1000) mod ?n)"
    by (simp add: h of_nat_mod)
  finally show ?thesis by (simp add: mod_mod_cancel)
qed

lemma route_range:
  assumes "wf_pf f"
  shows "0 \<le> route f x" "nat (route f x) < length (pf_partitions f)" "route f x < pf_count f"
proof -
  have n: "0 < nat (pf_count f)" using assms by (simp add: wf_pf_def)
  have eq: "route f x = int (unat (fnv64a x) mod nat (pf_count f))"
    using assms by (intro route_mod) (simp_all add: wf_pf_def)
  show "0 \<le> route f x" by (simp add: eq)
  show "nat (route f x) < length (pf_partitions f)"
    using assms n by (simp add: eq wf_pf_def del: of_nat_mod)
  have "int (unat (fnv64a x) mod nat (pf_count f)) < int (nat (pf_count f))"
    unfolding of_nat_less_iff using n by (rule mod_less_divisor)
  then show "route f x < pf_count f" using assms eq by (simp add: wf_pf_def)
qed

lemma wf_part_at:
  assumes "wf_pf f" "0 \<le> i" "i < pf_count f"
  shows "\<exists>bf. sub_filter f i = Ok bf \<and> pf_partitions f ! nat i = Some bf
    \<and> wf_bloom bf \<and> bf_m bf = pf_m f \<and> bf_k bf = pf_k f"
proof -
  have len: "nat i < length (pf_partitions f)" using assms by (simp add: wf_pf_def)
  then have "wf_part (pf_m f) (pf_k f) (pf_partitions f ! nat i)"
    using assms(1) by (simp add: wf_pf_def)
  then show ?thesis using len assms(2) by (auto simp: wf_part_def sub_filter_def)
qed

lemma routed:
  assumes "wf_pf f"
  shows "\<exists>bf. sub_filter f (route f x) = Ok bf \<and> pf_partitions f ! nat (route f x) = Some bf
    \<and> wf_bloom bf \<and> bf_m bf = pf_m f \<and> bf_k bf = pf_k f"
  by (rule wf_part_at) (use assms route_range in simp_all)

section \<open>Adding and testing\<close>

text \<open>On well-formed filters the operations do not fail; these are their results.\<close>

definition pf_add :: "PFilter \<Rightarrow> bytes \<Rightarrow> PFilter" where
  "pf_add f x = (case pf_Add f x of Ok f' \<Rightarrow> f' | _ \<Rightarrow> f)"

definition pf_test :: "PFilter \<Rightarrow> bytes \<Rightarrow> bool" where
  "pf_test f x \<longleftrightarrow> pf_Test f x = Ok True"

definition pf_test_any :: "PFilter \<Rightarrow> bytes \<Rightarrow> bool" where
  "pf_test_any f x \<longleftrightarrow> pf_TestAll f x = Ok True"

lemma pf_Add_Ok: "wf_pf f \<Longrightarrow> pf_Add f x = Ok (pf_add f x)"
  using routed [of f x] by (auto simp: pf_add_def pf_Add_def Let_def)

lemma pf_add_parts:
  assumes "wf_pf f"
  shows "pf_partitions (pf_add f x) ! i
      = (if i = nat (route f x) then map_option (\<lambda>bf. bf_Add bf x) (pf_partitions f ! i)
         else pf_partitions f ! i)"
    and "length (pf_partitions (pf_add f x)) = length (pf_partitions f)"
    and "pf_count (pf_add f x) = pf_count f" "pf_m (pf_add f x) = pf_m f" "pf_k (pf_add f x) = pf_k f"
  using routed [OF assms, of x] route_range [OF assms, of x]
  by (auto simp: pf_add_def pf_Add_def Let_def nth_list_update)

lemma pf_add_wf: "wf_pf f \<Longrightarrow> wf_pf (pf_add f x)"
proof -
  assume wf: "wf_pf f"
  have "wf_part (pf_m f) (pf_k f) (pf_partitions (pf_add f x) ! i)"
    if "i < length (pf_partitions f)" for i
  proof -
    have "wf_part (pf_m f) (pf_k f) (pf_partitions f ! i)" using wf that by (simp add: wf_pf_def)
    then show ?thesis by (auto simp: pf_add_parts(1) [OF wf] wf_part_def intro: bf_Add_wf)
  qed
  then show ?thesis
    using wf pf_add_parts(2-) [OF wf, of x] by (auto simp: wf_pf_def in_set_conv_nth)
qed

lemma route_add: "wf_pf f \<Longrightarrow> route (pf_add f x) y = route f y"
  by (simp add: route_def pf_add_parts(3))

lemma pf_test_iff:
  assumes "wf_pf f"
  shows "pf_test f x \<longleftrightarrow> bf_Test (the (pf_partitions f ! nat (route f x))) x"
    and "pf_Test f x = Ok (pf_test f x)"
  using routed [OF assms, of x] by (auto simp: pf_test_def pf_Test_def)

lemma test_all_Ok:
  "\<forall>p \<in> set ps. p \<noteq> None \<Longrightarrow> test_all ps x = Ok (\<exists>p \<in> set ps. bf_Test (the p) x)"
  by (induction ps x rule: test_all.induct) auto

lemma pf_test_any_iff:
  assumes "wf_pf f"
  shows "pf_test_any f x \<longleftrightarrow> (\<exists>p \<in> set (pf_partitions f). bf_Test (the p) x)"
    and "pf_TestAll f x = Ok (pf_test_any f x)"
proof -
  have "pf_TestAll f x = Ok (\<exists>p \<in> set (pf_partitions f). bf_Test (the p) x)"
    unfolding pf_TestAll_def by (rule test_all_Ok) (use assms in \<open>auto simp: wf_pf_def wf_part_def\<close>)
  then show "pf_test_any f x \<longleftrightarrow> (\<exists>p \<in> set (pf_partitions f). bf_Test (the p) x)"
    and "pf_TestAll f x = Ok (pf_test_any f x)"
    by (auto simp: pf_test_any_def)
qed

text \<open>What the routed test reports is reported by the test of all partitions.\<close>

lemma pf_test_any_if_test:
  assumes "wf_pf f" "pf_test f x"
  shows "pf_test_any f x"
proof -
  obtain bf where "pf_partitions f ! nat (route f x) = Some bf" using routed [OF assms(1)] by blast
  with assms(2) have "\<exists>p \<in> set (pf_partitions f). bf_Test (the p) x"
    using route_range(2) [OF assms(1), of x] unfolding pf_test_iff(1) [OF assms(1)] by (metis nth_mem)
  then show ?thesis by (simp add: pf_test_any_iff(1) [OF assms(1)])
qed

interpretation partitioned: membership wf_pf pf_add pf_test
proof unfold_locales
  fix f x y
  assume wf: "wf_pf f"
  then show "wf_pf (pf_add f x)" by (rule pf_add_wf)
  note wf' = pf_add_wf [OF wf, of x]
  obtain bf where "pf_partitions f ! nat (route f x) = Some bf" "wf_bloom bf"
    using routed [OF wf] by blast
  then show "pf_test (pf_add f x) x"
    by (simp add: pf_test_iff(1) [OF wf'] route_add [OF wf] pf_add_parts(1) [OF wf] bloom.test_added)
  assume old: "pf_test f y"
  obtain bf where "pf_partitions f ! nat (route f y) = Some bf" "wf_bloom bf"
    using routed [OF wf] by blast
  then show "pf_test (pf_add f x) y"
    using old bloom.test_mono
    by (auto simp: pf_test_iff(1) [OF wf'] pf_test_iff(1) [OF wf] route_add [OF wf] pf_add_parts(1) [OF wf])
qed

lemma pf_adds_parts:
  assumes "wf_pf f" "i < length (pf_partitions f)"
  shows "pf_partitions (foldl pf_add f xs) ! i
    = map_option (\<lambda>bf. foldl bf_Add bf (filter (\<lambda>x. nat (route f x) = i) xs)) (pf_partitions f ! i)"
  using assms
proof (induction xs arbitrary: f)
  case Nil
  then show ?case by (simp add: option.map_ident)
next
  case (Cons x xs)
  have "i < length (pf_partitions (pf_add f x))"
    using Cons.prems by (simp add: pf_add_parts(2))
  from Cons.IH [OF pf_add_wf [OF Cons.prems(1)] this] show ?case
    by (auto simp: pf_add_parts(1) [OF Cons.prems(1)] route_add [OF Cons.prems(1)]
        option.map_comp o_def)
qed

section \<open>Resetting\<close>

lemma new_part_wf:
  assumes "wf_pf f"
  shows "\<exists>bf. new_part f = Some bf \<and> wf_bloom bf \<and> bf_m bf = pf_m f \<and> bf_k bf = pf_k f
    \<and> bits_of (bf_bits bf) = {}"
proof -
  have "pf_m f \<noteq> 0" "pf_k f \<noteq> 0" "unat (pf_m f) < 2 ^ 64 - 7" using assms by (simp_all add: wf_pf_def)
  moreover obtain bf where "bf_New (pf_m f) (pf_k f) = Ok bf"
    using bf_New_Ok_iff [of "pf_m f" "pf_k f"] assms by (auto simp: wf_pf_def)
  ultimately show ?thesis using bf_New_wf by (auto simp: new_part_def)
qed

lemma pf_Reset_wf: "wf_pf f \<Longrightarrow> wf_pf (pf_Reset f)"
  using new_part_wf [of f] by (auto simp: wf_pf_def pf_Reset_def wf_part_def)

lemma ResetPartition_Ok:
  assumes "wf_pf f" "0 \<le> idx" "idx < pf_count f"
  shows "\<exists>f'. ResetPartition f idx = Ok f' \<and> wf_pf f'
    \<and> pf_partitions f' = (pf_partitions f)[nat idx := new_part f]
    \<and> pf_count f' = pf_count f \<and> pf_m f' = pf_m f \<and> pf_k f' = pf_k f"
proof -
  have "wf_part (pf_m f) (pf_k f) (new_part f)" using new_part_wf [OF assms(1)] by (auto simp: wf_part_def)
  moreover have "nat idx < length (pf_partitions f)" using assms by (simp add: wf_pf_def)
  moreover have "set ((pf_partitions f)[nat idx := new_part f])
      \<subseteq> insert (new_part f) (set (pf_partitions f))" by (rule set_update_subset_insert)
  ultimately show ?thesis using assms by (auto simp: ResetPartition_def wf_pf_def)
qed

lemma countBits_card: "countBits b = card (bits_of b)"
  by (simp add: countBits_def foldl_popcount)

section \<open>Properties\<close>



text \<open>Partitions are independent: after any additions, partition \<open>i\<close> is the sub-filter that
  received exactly the items routed to \<open>i\<close>, in order; the route of an item is its FNV-1a hash
  modulo the number of partitions.\<close>

lemma partitions_are_independent:
  assumes "wf_pf f" "i < length (pf_partitions f)"
  shows "pf_partitions (foldl pf_add f xs) ! i
      = map_option (\<lambda>bf. foldl bf_Add bf (filter (\<lambda>x. nat (route f x) = i) xs)) (pf_partitions f ! i)
    \<and> route f x = int (unat (fnv64a x) mod nat (pf_count f))"
  using pf_adds_parts [OF assms] route_mod assms(1) by (simp add: wf_pf_def)

lemma partitions_are_independent_witness:
  "pf_partitions (foldl pf_add \<lparr>pf_partitions = [Some \<lparr>bf_m = 8, bf_k = 1, bf_bits = [1]\<rparr>],
     pf_count = 1, pf_m = 8, pf_k = 1\<rparr> []) ! 0 = Some \<lparr>bf_m = 8, bf_k = 1, bf_bits = [1]\<rparr>"
  using partitions_are_independent [of "\<lparr>pf_partitions = [Some \<lparr>bf_m = 8, bf_k = 1, bf_bits = [1]\<rparr>],
     pf_count = 1, pf_m = 8, pf_k = 1\<rparr>" 0 "[]"]
  by (simp add: wf_pf_def wf_part_def wf_bloom_def)

text \<open>Routing and probing use the same base hash: when the number of partitions divides a
  power-of-two \<open>m\<close>, the first probe of an item is congruent to its partition number, so within
  a partition the first probe only reaches \<open>m / count\<close> of the \<open>m\<close> positions.\<close>

lemma first_probe_follows_route:
  assumes "0 < pf_count f" "pf_count f < 2 ^ 53" "pf_m f \<noteq> 0" "nat (pf_count f) dvd unat (pf_m f)"
  shows "int (unat (Hash x 0 (pf_m f)) mod nat (pf_count f)) = route f x"
proof -
  have "unat (Hash x 0 (pf_m f)) = unat (fnv64a x) mod unat (pf_m f)"
    using assms(3) by (simp add: Hash_def Let_def unat_mod)
  then show ?thesis using route_mod [OF assms(1,2), of x] assms(4) by (simp add: mod_mod_cancel)
qed

lemma first_probe_follows_route_witness:
  "int (unat (Hash [65] 0 64) mod 4) = route \<lparr>pf_partitions = [], pf_count = 4, pf_m = 64, pf_k = 3\<rparr> [65]"
  using first_probe_follows_route [of "\<lparr>pf_partitions = [], pf_count = 4, pf_m = 64, pf_k = 3\<rparr>" "[65]"] by simp

end
