(* ===== verification/Rotation.thy ===== *)
theory Rotation
  imports Partition
begin

text \<open>
  \<open>internal/partition/rotation.go\<close>: rotation of a partitioned filter. Saturations are \<open>float64\<close>
  quotients that the code only compares, so they are values of an ordered type \<open>'f\<close>: \<open>quot n m\<close>
  stands for \<open>float64(n) / float64(m)\<close> and \<open>zero\<close> for \<open>0.0\<close>. The clock reading is the argument
  \<open>now\<close>. Every strategy but \<open>StrategySaturation\<close> is the default case of the code's switch.
\<close>

datatype RotationStrategy = StrategyRoundRobin | StrategySaturation

record 'f RotationEvent =
  ev_Timestamp :: int
  ev_Partition :: int
  ev_Strategy :: RotationStrategy
  ev_Saturation :: 'f

record 'f RotatingFilter =
  rf_pf :: PFilter
  rf_Strategy :: RotationStrategy
  rf_SaturationLimit :: 'f
  rf_current :: int
  rf_stopped :: bool
  rf_history :: "'f RotationEvent list"

section \<open>Operations\<close>

definition NewRotatingFilter ::
  "int \<Rightarrow> u64 \<Rightarrow> u64 \<Rightarrow> RotationStrategy \<Rightarrow> 'f \<Rightarrow> (partition_error, 'f RotatingFilter) outcome" where
  "NewRotatingFilter partitions m k strategy limit =
     and_then (pf_New partitions m k) (\<lambda>pf.
       Ok \<lparr>rf_pf = pf, rf_Strategy = strategy, rf_SaturationLimit = limit, rf_current = 0,
           rf_stopped = False, rf_history = []\<rparr>)"

definition rf_Add :: "'f RotatingFilter \<Rightarrow> bytes \<Rightarrow> (partition_error, 'f RotatingFilter) outcome" where
  "rf_Add rf data = and_then (pf_Add (rf_pf rf) data) (\<lambda>pf. Ok (rf\<lparr>rf_pf := pf\<rparr>))"

definition rf_Test :: "'f RotatingFilter \<Rightarrow> bytes \<Rightarrow> (partition_error, bool) outcome" where
  "rf_Test rf data = pf_TestAll (rf_pf rf) data"

definition pf_Saturation :: "(nat \<Rightarrow> u64 \<Rightarrow> 'f) \<Rightarrow> PFilter \<Rightarrow> int \<Rightarrow> (partition_error, 'f) outcome" where
  "pf_Saturation quot f idx = and_then (set_bits_of f idx) (\<lambda>n. Ok (quot n (pf_m f)))"

text \<open>\<open>s, _ := f.Saturation(i)\<close>: the value 0 where there is an error.\<close>

definition sat_or_zero :: "(nat \<Rightarrow> u64 \<Rightarrow> 'f) \<Rightarrow> 'f \<Rightarrow> PFilter \<Rightarrow> int \<Rightarrow> (partition_error, 'f) outcome" where
  "sat_or_zero quot zero f idx =
     (case pf_Saturation quot f idx of Ok s \<Rightarrow> Ok s | Err _ \<Rightarrow> Ok zero | Panic \<Rightarrow> Panic)"

fun most_loop ::
  "(nat \<Rightarrow> u64 \<Rightarrow> 'f::linorder) \<Rightarrow> 'f \<Rightarrow> PFilter \<Rightarrow> int list \<Rightarrow> int \<times> 'f
     \<Rightarrow> (partition_error, int \<times> 'f) outcome" where
  "most_loop quot zero f [] (maxIdx, maxSat) = Ok (maxIdx, maxSat)"
| "most_loop quot zero f (i # is) (maxIdx, maxSat) =
     and_then (sat_or_zero quot zero f i) (\<lambda>s.
       most_loop quot zero f is (if s > maxSat then (i, s) else (maxIdx, maxSat)))"

definition mostSaturated ::
  "(nat \<Rightarrow> u64 \<Rightarrow> 'f::linorder) \<Rightarrow> 'f \<Rightarrow> PFilter \<Rightarrow> (partition_error, int \<times> 'f) outcome" where
  "mostSaturated quot zero f = most_loop quot zero f [0..pf_count f - 1] (0, zero)"

text \<open>The end of \<open>rotateOnce\<close>: the event is logged, then the partition is reset.\<close>

definition log_and_reset ::
  "int \<Rightarrow> 'f RotatingFilter \<Rightarrow> int \<Rightarrow> 'f \<Rightarrow> 'f RotatingFilter \<times> (partition_error, unit) outcome" where
  "log_and_reset now rf idx sat =
     (let rf = rf\<lparr>rf_history := rf_history rf @ [\<lparr>ev_Timestamp = now, ev_Partition = idx,
                  ev_Strategy = rf_Strategy rf, ev_Saturation = sat\<rparr>]\<rparr>
      in case ResetPartition (rf_pf rf) idx of
           Ok pf \<Rightarrow> (rf\<lparr>rf_pf := pf\<rparr>, Ok ())
         | Err _ \<Rightarrow> (rf, Ok ())
         | Panic \<Rightarrow> (rf, Panic))"

definition rotateOnce ::
  "(nat \<Rightarrow> u64 \<Rightarrow> 'f::linorder) \<Rightarrow> 'f \<Rightarrow> int \<Rightarrow> 'f RotatingFilter
     \<Rightarrow> 'f RotatingFilter \<times> (partition_error, unit) outcome" where
  "rotateOnce quot zero now rf =
     (let n = pf_count (rf_pf rf)
      in if n = 0 then (rf, Err PErrNoPartitions)
         else case rf_Strategy rf of
           StrategySaturation \<Rightarrow>
             (case mostSaturated quot zero (rf_pf rf) of
                Ok (idx, sat) \<Rightarrow> if sat < rf_SaturationLimit rf then (rf, Ok ())
                                else log_and_reset now rf idx sat
              | Err e \<Rightarrow> (rf, Err e)
              | Panic \<Rightarrow> (rf, Panic))
         | StrategyRoundRobin \<Rightarrow>
             (let idx = rf_current rf
              in case sat_or_zero quot zero (rf_pf rf) idx of
                   Ok sat \<Rightarrow> log_and_reset now (rf\<lparr>rf_current := (rf_current rf + 1) smod n\<rparr>) idx sat
                 | Err e \<Rightarrow> (rf, Err e)
                 | Panic \<Rightarrow> (rf, Panic)))"

definition rf_Stop :: "'f RotatingFilter \<Rightarrow> 'f RotatingFilter \<times> (partition_error, unit) outcome" where
  "rf_Stop rf = (if rf_stopped rf then (rf, Err PErrRotationStopped)
                 else (rf\<lparr>rf_stopped := True\<rparr>, Ok ()))"

fun snapshot_bits :: "BloomFilter option list \<Rightarrow> (partition_error, bytes list) outcome" where
  "snapshot_bits [] = Ok []"
| "snapshot_bits (None # ps) = Panic"
| "snapshot_bits (Some p # ps) = and_then (snapshot_bits ps) (\<lambda>out. Ok (bf_bits p # out))"

definition rf_Snapshot :: "'f RotatingFilter \<Rightarrow> (partition_error, bytes list) outcome" where
  "rf_Snapshot rf = snapshot_bits (pf_partitions (rf_pf rf))"

text \<open>The loop of \<open>Restore\<close> from index \<open>i\<close> on; it returns at the first slice that is refused.\<close>

fun restore_loop :: "PFilter \<Rightarrow> nat \<Rightarrow> bytes list \<Rightarrow> PFilter \<times> (partition_error, unit) outcome" where
  "restore_loop f i [] = (f, Ok ())"
| "restore_loop f i (bits # snap) =
     (case bf_NewFromParts (pf_m f) (pf_k f) bits of
        Ok bf \<Rightarrow> restore_loop (f\<lparr>pf_partitions := (pf_partitions f)[i := Some bf]\<rparr>) (Suc i) snap
      | Err e \<Rightarrow> (f, Err (PFilterErr e))
      | Panic \<Rightarrow> (f, Panic))"

definition rf_Restore ::
  "'f RotatingFilter \<Rightarrow> bytes list \<Rightarrow> 'f RotatingFilter \<times> (partition_error, unit) outcome" where
  "rf_Restore rf snap =
     (if int (length snap) \<noteq> pf_count (rf_pf rf) then (rf, Err PErrInvalidPartitions)
      else case restore_loop (rf_pf rf) 0 snap of (pf, r) \<Rightarrow> (rf\<lparr>rf_pf := pf\<rparr>, r))"

section \<open>Round robin\<close>

definition wf_rf :: "'f RotatingFilter \<Rightarrow> bool" where
  "wf_rf rf \<longleftrightarrow> wf_pf (rf_pf rf) \<and> 0 \<le> rf_current rf \<and> rf_current rf < pf_count (rf_pf rf)"

lemma sat_Ok:
  assumes "wf_pf f" "0 \<le> i" "i < pf_count f"
  shows "\<exists>bf. pf_partitions f ! nat i = Some bf
    \<and> sat_or_zero quot zero f i = Ok (quot (card (bits_of (bf_bits bf))) (pf_m f))"
  using wf_part_at [OF assms] assms(2,3)
  by (auto simp: sat_or_zero_def pf_Saturation_def set_bits_of_def countBits_card)

lemma log_and_reset_Ok:
  assumes "wf_pf (rf_pf rf)" "0 \<le> i" "i < pf_count (rf_pf rf)"
  shows "\<exists>rf'. log_and_reset now rf i sat = (rf', Ok ()) \<and> wf_pf (rf_pf rf')
    \<and> pf_partitions (rf_pf rf') = (pf_partitions (rf_pf rf))[nat i := new_part (rf_pf rf)]
    \<and> pf_count (rf_pf rf') = pf_count (rf_pf rf) \<and> pf_m (rf_pf rf') = pf_m (rf_pf rf)
    \<and> pf_k (rf_pf rf') = pf_k (rf_pf rf) \<and> rf_current rf' = rf_current rf
    \<and> rf_Strategy rf' = rf_Strategy rf \<and> map ev_Partition (rf_history rf')
        = map ev_Partition (rf_history rf) @ [i]"
  using ResetPartition_Ok [OF assms] by (auto simp: log_and_reset_def Let_def)

lemma new_part_cong: "pf_m f' = pf_m f \<Longrightarrow> pf_k f' = pf_k f \<Longrightarrow> new_part f' = new_part f"
  by (simp add: new_part_def)

lemma rotateOnce_rr:
  assumes "wf_rf rf" "rf_Strategy rf = StrategyRoundRobin"
  shows "\<exists>rf'. rotateOnce quot zero now rf = (rf', Ok ()) \<and> wf_rf rf'
    \<and> pf_partitions (rf_pf rf')
        = (pf_partitions (rf_pf rf))[nat (rf_current rf) := new_part (rf_pf rf)]
    \<and> pf_count (rf_pf rf') = pf_count (rf_pf rf) \<and> pf_m (rf_pf rf') = pf_m (rf_pf rf)
    \<and> pf_k (rf_pf rf') = pf_k (rf_pf rf) \<and> rf_Strategy rf' = StrategyRoundRobin
    \<and> rf_current rf' = (rf_current rf + 1) mod pf_count (rf_pf rf)
    \<and> map ev_Partition (rf_history rf') = map ev_Partition (rf_history rf) @ [rf_current rf]"
proof -
  let ?n = "pf_count (rf_pf rf)"
  have wf: "wf_pf (rf_pf rf)" "0 \<le> rf_current rf" "rf_current rf < ?n" "0 < ?n"
    using assms(1) by (simp_all add: wf_rf_def wf_pf_def)
  let ?rf = "rf\<lparr>rf_current := (rf_current rf + 1) smod ?n\<rparr>"
  obtain s where s: "sat_or_zero quot zero (rf_pf rf) (rf_current rf) = Ok s"
    using sat_Ok [OF wf(1-3), of quot zero] by auto
  have step: "rotateOnce quot zero now rf = log_and_reset now ?rf (rf_current rf) s"
  proof -
    have "?n \<noteq> 0" using wf(4) by simp
    then show ?thesis
      by (simp only: rotateOnce_def Let_def assms(2) s if_False RotationStrategy.case outcome.case)
  qed
  have cur: "rf_current ?rf = (rf_current rf + 1) mod ?n"
    using wf smod_pos [of "rf_current rf + 1" ?n] by simp
  have bounds: "0 \<le> (rf_current rf + 1) mod ?n" "(rf_current rf + 1) mod ?n < ?n"
    using wf(4) by simp_all
  have "wf_pf (rf_pf ?rf)" "rf_current rf < pf_count (rf_pf ?rf)" using wf by simp_all
  then obtain rf' where rf': "log_and_reset now ?rf (rf_current rf) s = (rf', Ok ())" "wf_pf (rf_pf rf')"
    "pf_partitions (rf_pf rf') = (pf_partitions (rf_pf rf))[nat (rf_current rf) := new_part (rf_pf rf)]"
    "pf_count (rf_pf rf') = ?n" "pf_m (rf_pf rf') = pf_m (rf_pf rf)" "pf_k (rf_pf rf') = pf_k (rf_pf rf)"
    "rf_current rf' = (rf_current rf + 1) mod ?n" "rf_Strategy rf' = rf_Strategy rf"
    "map ev_Partition (rf_history rf') = map ev_Partition (rf_history rf) @ [rf_current rf]"
    using log_and_reset_Ok [of ?rf "rf_current rf" now s] wf(2) cur by auto
  show ?thesis
  proof (intro exI [of _ rf'] conjI)
    show "rotateOnce quot zero now rf = (rf', Ok ())" using step rf'(1) by (rule trans)
    show "wf_rf rf'" unfolding wf_rf_def using rf'(2,4,7) bounds by simp
    show "rf_Strategy rf' = StrategyRoundRobin" using rf'(8) assms(2) by (rule trans)
  qed (fact rf')+
qed

text \<open>A sequence of rotations at the given times.\<close>

definition rotations ::
  "(nat \<Rightarrow> u64 \<Rightarrow> 'f::linorder) \<Rightarrow> 'f \<Rightarrow> int list \<Rightarrow> 'f RotatingFilter \<Rightarrow> 'f RotatingFilter" where
  "rotations quot zero ts rf = foldl (\<lambda>rf now. fst (rotateOnce quot zero now rf)) rf ts"

lemma cyclic_position:
  fixes i c n j :: int
  assumes "0 \<le> i" "i < n" "0 \<le> j" "j < n"
  shows "i = (c + j) mod n \<longleftrightarrow> (i - c) mod n = j"
proof
  assume "i = (c + j) mod n"
  then have "(i - c) mod n = (c + j - c) mod n" by (simp add: mod_diff_left_eq)
  then show "(i - c) mod n = j" using assms by simp
next
  assume "(i - c) mod n = j"
  then have "(c + j) mod n = (c + (i - c)) mod n" by (metis mod_add_right_eq)
  then show "i = (c + j) mod n" using assms by simp
qed

lemma rotations_rr:
  assumes "wf_rf rf" "rf_Strategy rf = StrategyRoundRobin" "int (length ts) \<le> pf_count (rf_pf rf)"
  shows "wf_rf (rotations quot zero ts rf)
    \<and> rf_Strategy (rotations quot zero ts rf) = StrategyRoundRobin
    \<and> pf_count (rf_pf (rotations quot zero ts rf)) = pf_count (rf_pf rf)
    \<and> pf_m (rf_pf (rotations quot zero ts rf)) = pf_m (rf_pf rf)
    \<and> pf_k (rf_pf (rotations quot zero ts rf)) = pf_k (rf_pf rf)
    \<and> rf_current (rotations quot zero ts rf)
        = (rf_current rf + int (length ts)) mod pf_count (rf_pf rf)
    \<and> length (pf_partitions (rf_pf (rotations quot zero ts rf))) = length (pf_partitions (rf_pf rf))
    \<and> (\<forall>i < length (pf_partitions (rf_pf rf)). pf_partitions (rf_pf (rotations quot zero ts rf)) ! i
        = (if (int i - rf_current rf) mod pf_count (rf_pf rf) < int (length ts)
           then new_part (rf_pf rf) else pf_partitions (rf_pf rf) ! i))"
  using assms(3)
proof (induction ts rule: rev_induct)
  case Nil
  have "0 < pf_count (rf_pf rf)" using assms(1) by (simp add: wf_rf_def wf_pf_def)
  then have "\<not> x mod pf_count (rf_pf rf) < 0" for x by (simp add: not_less)
  then show ?case using assms(1,2) by (simp add: rotations_def wf_rf_def)
next
  case (snoc now ts)
  let ?r = "rotations quot zero ts rf" and ?n = "pf_count (rf_pf rf)" and ?j = "int (length ts)"
  have n: "0 < ?n" "?j < ?n" using snoc.prems assms(1) by (simp_all add: wf_rf_def wf_pf_def)
  note ih = snoc.IH [OF less_imp_le [OF n(2)]]
  have step: "rotations quot zero (ts @ [now]) rf = fst (rotateOnce quot zero now ?r)"
    by (simp add: rotations_def)
  obtain r' where r': "rotateOnce quot zero now ?r = (r', Ok ())" "wf_rf r'"
    "pf_partitions (rf_pf r') = (pf_partitions (rf_pf ?r))[nat (rf_current ?r) := new_part (rf_pf ?r)]"
    "pf_count (rf_pf r') = ?n" "pf_m (rf_pf r') = pf_m (rf_pf rf)" "pf_k (rf_pf r') = pf_k (rf_pf rf)"
    "rf_Strategy r' = StrategyRoundRobin" "rf_current r' = (rf_current ?r + 1) mod ?n"
    using rotateOnce_rr [of ?r quot zero now] ih by auto
  have cur: "rf_current ?r = (rf_current rf + ?j) mod ?n" using ih by simp
  have len: "length (pf_partitions (rf_pf rf)) = nat ?n" using assms(1) by (simp add: wf_rf_def wf_pf_def)
  have new: "new_part (rf_pf ?r) = new_part (rf_pf rf)" using ih by (intro new_part_cong) simp_all
  have "rf_current r' = (rf_current rf + (1 + ?j)) mod ?n"
    using r'(8) cur by (simp add: mod_simps ac_simps)
  moreover have "pf_partitions (rf_pf r') ! i
      = (if (int i - rf_current rf) mod ?n < ?j + 1 then new_part (rf_pf rf)
         else pf_partitions (rf_pf rf) ! i)" if i: "i < length (pf_partitions (rf_pf rf))" for i
  proof -
    have "int i < ?n" using i len n by simp
    then have pos: "int i = rf_current ?r \<longleftrightarrow> (int i - rf_current rf) mod ?n = ?j"
      unfolding cur by (intro cyclic_position) (use n in simp_all)
    have "0 \<le> rf_current ?r" using ih by (simp add: wf_rf_def)
    then have "i = nat (rf_current ?r) \<longleftrightarrow> int i = rf_current ?r" by auto
    with pos r'(3) ih i new show ?thesis by (auto simp: nth_list_update)
  qed
  ultimately show ?case using r' ih by (simp add: step)
qed

section \<open>Saturation strategy\<close>

text \<open>The fill of partition \<open>i\<close> as the code measures it.\<close>

definition fill :: "(nat \<Rightarrow> u64 \<Rightarrow> 'f) \<Rightarrow> PFilter \<Rightarrow> int \<Rightarrow> 'f" where
  "fill quot f i = quot (card (bits_of (bf_bits (the (pf_partitions f ! nat i))))) (pf_m f)"

lemma sat_fill: "wf_pf f \<Longrightarrow> 0 \<le> i \<Longrightarrow> i < pf_count f \<Longrightarrow> sat_or_zero quot zero f i = Ok (fill quot f i)"
  using sat_Ok [of f i quot zero] by (auto simp: fill_def)

lemma most_loop_max:
  assumes "wf_pf f" "\<forall>i \<in> set is. 0 \<le> i \<and> i < pf_count f"
  shows "\<exists>idx sat. most_loop quot zero f is (mi, ms) = Ok (idx, sat)
    \<and> ms \<le> sat \<and> (\<forall>i \<in> set is. fill quot f i \<le> sat)
    \<and> ((idx, sat) = (mi, ms) \<or> (idx \<in> set is \<and> sat = fill quot f idx))"
  using assms(2)
proof (induction "is" arbitrary: mi ms)
  case (Cons i "is")
  let ?s = "fill quot f i"
  have s: "sat_or_zero quot zero f i = Ok ?s" using assms(1) Cons.prems by (intro sat_fill) simp_all
  have rest: "\<forall>i \<in> set is. 0 \<le> i \<and> i < pf_count f" using Cons.prems by simp
  show ?case
  proof (cases "ms < ?s")
    case True
    with s Cons.IH [OF rest, of i ?s] show ?thesis by fastforce
  next
    case False
    with s Cons.IH [OF rest, of mi ms] show ?thesis by fastforce
  qed
qed simp

lemma mostSaturated_max:
  assumes "wf_pf f" "\<And>n. zero \<le> quot n (pf_m f)"
  shows "\<exists>idx. mostSaturated quot zero f = Ok (idx, fill quot f idx)
    \<and> 0 \<le> idx \<and> idx < pf_count f \<and> (\<forall>i. 0 \<le> i \<and> i < pf_count f \<longrightarrow> fill quot f i \<le> fill quot f idx)"
proof -
  have n: "0 < pf_count f" using assms(1) by (simp add: wf_pf_def)
  have "\<forall>i \<in> set [0..pf_count f - 1]. 0 \<le> i \<and> i < pf_count f" by simp
  from most_loop_max [OF assms(1) this, of quot zero 0 zero] obtain idx sat where
    r: "mostSaturated quot zero f = Ok (idx, sat)"
    and mx: "zero \<le> sat" "\<forall>i. 0 \<le> i \<and> i < pf_count f \<longrightarrow> fill quot f i \<le> sat"
    and c: "(idx, sat) = (0, zero) \<or> (0 \<le> idx \<and> idx < pf_count f \<and> sat = fill quot f idx)"
    by (auto simp: mostSaturated_def)
  have "sat = fill quot f idx \<and> 0 \<le> idx \<and> idx < pf_count f"
  proof (cases "(idx, sat) = (0, zero)")
    case True
    have "fill quot f 0 \<le> sat" using mx(2) n by (metis order_refl)
    moreover have "zero \<le> fill quot f 0" using assms(2) by (simp add: fill_def)
    ultimately show ?thesis using True n by simp
  qed (use c in auto)
  with r mx(2) show ?thesis by blast
qed

section \<open>Snapshot and restore\<close>

lemma snapshot_Ok:
  "\<forall>p \<in> set ps. p \<noteq> None \<Longrightarrow> snapshot_bits ps = Ok (map (\<lambda>p. bf_bits (the p)) ps)"
  by (induction ps rule: snapshot_bits.induct) auto

lemma part_from_bits:
  assumes "wf_pf f" "wf_part (pf_m f) (pf_k f) p"
  shows "bf_NewFromParts (pf_m f) (pf_k f) (bf_bits (the p)) = Ok (the p)"
proof -
  obtain bf where bf: "p = Some bf" "wf_bloom bf" "bf_m bf = pf_m f" "bf_k bf = pf_k f"
    using assms(2) by (auto simp: wf_part_def)
  have "unat (bf_m bf) < 2 ^ 64 - 7" using assms(1) bf(3) by (simp add: wf_pf_def)
  from bf_NewFromParts_id [OF bf(2) this] bf show ?thesis by simp
qed

lemma restore_loop_Ok:
  assumes "pf_m f = m" "pf_k f = k" "i + length ps \<le> length (pf_partitions f)"
    and "\<forall>p \<in> set ps. p \<noteq> None \<and> bf_NewFromParts m k (bf_bits (the p)) = Ok (the p)"
  shows "restore_loop f i (map (\<lambda>p. bf_bits (the p)) ps)
    = (f\<lparr>pf_partitions := take i (pf_partitions f) @ ps @ drop (i + length ps) (pf_partitions f)\<rparr>, Ok ())"
  using assms
proof (induction ps arbitrary: f i)
  case Nil
  then show ?case by simp
next
  case (Cons p ps)
  obtain bf where p: "p = Some bf" using Cons.prems(4) by auto
  let ?f = "f\<lparr>pf_partitions := (pf_partitions f)[i := p]\<rparr>"
  have i: "i < length (pf_partitions f)" using Cons.prems(3) by simp
  have "restore_loop f i (map (\<lambda>p. bf_bits (the p)) (p # ps))
      = restore_loop ?f (Suc i) (map (\<lambda>p. bf_bits (the p)) ps)"
    using Cons.prems(1,2,4) by (simp add: p)
  also have "\<dots> = (?f\<lparr>pf_partitions := take (Suc i) (pf_partitions ?f) @ ps
      @ drop (Suc i + length ps) (pf_partitions ?f)\<rparr>, Ok ())"
    by (rule Cons.IH) (use Cons.prems in simp_all)
  finally show ?case using i by (simp add: take_Suc_conv_app_nth)
qed

lemma restore_loop_append:
  "restore_loop f i xs = (f', Ok ()) \<Longrightarrow>
     restore_loop f i (xs @ ys) = restore_loop f' (i + length xs) ys"
  by (induction xs arbitrary: f i) (auto split: outcome.splits)

lemma restore_loop_params: "restore_loop f i xs = (f', r) \<Longrightarrow> pf_m f' = pf_m f \<and> pf_k f' = pf_k f"
  by (induction xs arbitrary: f i) (auto split: outcome.splits)

lemma restore_loop_bad:
  assumes parts: "\<forall>p \<in> set ps. p \<noteq> None
      \<and> bf_NewFromParts (pf_m g) (pf_k g) (bf_bits (the p)) = Ok (the p)"
    and len: "length (pf_partitions g) = length ps"
    and n: "n < length ps" and b: "length b \<noteq> length (bf_bits (the (ps ! n)))"
  shows "restore_loop g 0 ((map (\<lambda>p. bf_bits (the p)) ps)[n := b])
    = (g\<lparr>pf_partitions := take n ps @ drop n (pf_partitions g)\<rparr>, Err (PFilterErr ErrBitsLength))"
proof -
  let ?bits = "\<lambda>p. bf_bits (the p)"
  have split: "(map ?bits ps)[n := b] = map ?bits (take n ps) @ b # drop (Suc n) (map ?bits ps)"
    using n by (simp add: upd_conv_take_nth_drop take_map)
  have "bf_NewFromParts (pf_m g) (pf_k g) (?bits (ps ! n)) = Ok (the (ps ! n))"
    using parts n by simp
  with b have refused: "bf_NewFromParts (pf_m g) (pf_k g) b = Err ErrBitsLength"
    by (auto simp: bf_NewFromParts_def Let_def split: if_splits)
  have "\<forall>p \<in> set (take n ps). p \<noteq> None \<and> bf_NewFromParts (pf_m g) (pf_k g) (?bits p) = Ok (the p)"
    using parts in_set_takeD by fast
  from restore_loop_Ok [OF refl refl _ this, of 0] len n
  have front: "restore_loop g 0 (map ?bits (take n ps))
      = (g\<lparr>pf_partitions := take n ps @ drop n (pf_partitions g)\<rparr>, Ok ())" by simp
  show ?thesis unfolding split using restore_loop_append [OF front] refused by simp
qed

section \<open>Properties\<close>



text \<open>With the saturation strategy a rotation changes nothing while the fullest partition is
  below the limit, and otherwise empties a partition whose fill is the greatest of all; the
  other partitions are untouched. (The only assumption on the quotient is that it is not
  negative.)\<close>

lemma saturation_rotation:
  fixes quot :: "nat \<Rightarrow> u64 \<Rightarrow> 'f::linorder"
  assumes "wf_rf rf" "rf_Strategy rf = StrategySaturation" "\<And>n. zero \<le> quot n (pf_m (rf_pf rf))"
  shows "\<exists>rf' idx. rotateOnce quot zero now rf = (rf', Ok ())
    \<and> 0 \<le> idx \<and> idx < pf_count (rf_pf rf)
    \<and> (\<forall>i. 0 \<le> i \<and> i < pf_count (rf_pf rf) \<longrightarrow> fill quot (rf_pf rf) i \<le> fill quot (rf_pf rf) idx)
    \<and> (if fill quot (rf_pf rf) idx < rf_SaturationLimit rf then rf' = rf
       else pf_partitions (rf_pf rf') = (pf_partitions (rf_pf rf))[nat idx := new_part (rf_pf rf)]
         \<and> map ev_Partition (rf_history rf') = map ev_Partition (rf_history rf) @ [idx])"
proof -
  have wf: "wf_pf (rf_pf rf)" "pf_count (rf_pf rf) \<noteq> 0" using assms(1) by (auto simp: wf_rf_def wf_pf_def)
  from mostSaturated_max [where zero = zero and quot = quot, OF wf(1) assms(3)] obtain idx where
    most: "mostSaturated quot zero (rf_pf rf) = Ok (idx, fill quot (rf_pf rf) idx)"
    and idx: "0 \<le> idx" "idx < pf_count (rf_pf rf)"
    and mx: "\<forall>i. 0 \<le> i \<and> i < pf_count (rf_pf rf) \<longrightarrow> fill quot (rf_pf rf) i \<le> fill quot (rf_pf rf) idx"
    by blast
  show ?thesis
  proof (cases "fill quot (rf_pf rf) idx < rf_SaturationLimit rf")
    case True
    then have "rotateOnce quot zero now rf = (rf, Ok ())"
      using wf(2) assms(2) most by (simp add: rotateOnce_def Let_def)
    with True idx mx show ?thesis by (intro exI [of _ rf] exI [of _ idx]) simp
  next
    case False
    then have "rotateOnce quot zero now rf = log_and_reset now rf idx (fill quot (rf_pf rf) idx)"
      using wf(2) assms(2) most by (simp add: rotateOnce_def Let_def)
    moreover obtain rf' where
      "log_and_reset now rf idx (fill quot (rf_pf rf) idx) = (rf', Ok ())"
      "pf_partitions (rf_pf rf') = (pf_partitions (rf_pf rf))[nat idx := new_part (rf_pf rf)]"
      "map ev_Partition (rf_history rf') = map ev_Partition (rf_history rf) @ [idx]"
      using log_and_reset_Ok [OF wf(1) idx, of now "fill quot (rf_pf rf) idx"] by auto
    ultimately show ?thesis
      using False idx mx by (intro exI [of _ rf'] exI [of _ idx]) simp
  qed
qed

lemma saturation_rotation_witness:
  "\<exists>rf' idx. rotateOnce (\<lambda>n m. n) 0 7 \<lparr>rf_pf = \<lparr>pf_partitions = [Some \<lparr>bf_m = 8, bf_k = 1, bf_bits = [1]\<rparr>],
     pf_count = 1, pf_m = 8, pf_k = 1\<rparr>, rf_Strategy = StrategySaturation, rf_SaturationLimit = 1 :: nat,
     rf_current = 0, rf_stopped = False, rf_history = []\<rparr> = (rf', Ok ()) \<and> 0 \<le> idx \<and> idx < (1 :: int)"
proof -
  let ?rf = "\<lparr>rf_pf = \<lparr>pf_partitions = [Some \<lparr>bf_m = 8, bf_k = 1, bf_bits = [1]\<rparr>],
     pf_count = 1, pf_m = 8, pf_k = 1\<rparr>, rf_Strategy = StrategySaturation, rf_SaturationLimit = 1 :: nat,
     rf_current = 0, rf_stopped = False, rf_history = []\<rparr>"
  have "wf_rf ?rf" by (simp add: wf_rf_def wf_pf_def wf_part_def wf_bloom_def)
  from saturation_rotation [OF this, of 0 "\<lambda>n m. n" 7] show ?thesis by auto
qed

text \<open>C34: Restoring a snapshot into a filter of the same shape gives exactly the partitions the
  snapshot was taken from. Restoring is not atomic: when the slice at position \<open>length ps\<close> is
  refused, the partitions before it have already been replaced.\<close>

theorem snapshot_restore:
  assumes "wf_pf (rf_pf rf)" "wf_pf (rf_pf rf0)" "pf_m (rf_pf rf0) = pf_m (rf_pf rf)"
    "pf_k (rf_pf rf0) = pf_k (rf_pf rf)" "pf_count (rf_pf rf0) = pf_count (rf_pf rf)"
  shows "\<exists>snap. rf_Snapshot rf = Ok snap
    \<and> rf_Restore rf0 snap
        = (rf0\<lparr>rf_pf := (rf_pf rf0)\<lparr>pf_partitions := pf_partitions (rf_pf rf)\<rparr>\<rparr>, Ok ())
    \<and> (\<forall>n bad. n < length snap \<and> length bad \<noteq> length (snap ! n) \<longrightarrow>
        rf_Restore rf0 (snap[n := bad])
        = (rf0\<lparr>rf_pf := (rf_pf rf0)\<lparr>pf_partitions := take n (pf_partitions (rf_pf rf))
              @ drop n (pf_partitions (rf_pf rf0))\<rparr>\<rparr>, Err (PFilterErr ErrBitsLength)))"
proof -
  let ?f = "rf_pf rf" and ?g = "rf_pf rf0"
  let ?ps = "pf_partitions ?f" and ?bits = "\<lambda>p. bf_bits (the p)"
  have parts: "\<forall>p \<in> set ?ps. p \<noteq> None \<and> bf_NewFromParts (pf_m ?g) (pf_k ?g) (?bits p) = Ok (the p)"
  proof
    fix p assume "p \<in> set ?ps"
    then have "wf_part (pf_m ?f) (pf_k ?f) p" using assms(1) by (simp add: wf_pf_def)
    then show "p \<noteq> None \<and> bf_NewFromParts (pf_m ?g) (pf_k ?g) (?bits p) = Ok (the p)"
      using part_from_bits [OF assms(1), of p] assms(3,4) by (auto simp: wf_part_def)
  qed
  have len: "length (pf_partitions ?g) = length ?ps" "int (length ?ps) = pf_count ?g"
    using assms by (simp_all add: wf_pf_def)
  have snap: "rf_Snapshot rf = Ok (map ?bits ?ps)"
    unfolding rf_Snapshot_def by (rule snapshot_Ok) (use parts in blast)
  have ok: "restore_loop ?g 0 (map ?bits ?ps) = (?g\<lparr>pf_partitions := ?ps\<rparr>, Ok ())"
    using restore_loop_Ok [OF refl refl, of 0 ?ps ?g] parts len by simp
  note bad = restore_loop_bad [OF parts len(1)]
  show ?thesis
  proof (intro exI [of _ "map ?bits ?ps"] conjI allI impI snap)
    show "rf_Restore rf0 (map ?bits ?ps) = (rf0\<lparr>rf_pf := ?g\<lparr>pf_partitions := ?ps\<rparr>\<rparr>, Ok ())"
      using ok len by (simp add: rf_Restore_def)
    fix n and b :: bytes assume "n < length (map ?bits ?ps) \<and> length b \<noteq> length (map ?bits ?ps ! n)"
    then have "restore_loop ?g 0 ((map ?bits ?ps)[n := b])
        = (?g\<lparr>pf_partitions := take n ?ps @ drop n (pf_partitions ?g)\<rparr>, Err (PFilterErr ErrBitsLength))"
      by (intro bad) auto
    then show "rf_Restore rf0 ((map ?bits ?ps)[n := b]) = (rf0\<lparr>rf_pf := ?g\<lparr>pf_partitions :=
        take n ?ps @ drop n (pf_partitions ?g)\<rparr>\<rparr>, Err (PFilterErr ErrBitsLength))"
      using len by (simp add: rf_Restore_def)
  qed
qed

theorem snapshot_restore_witness:
  "\<exists>snap. rf_Snapshot \<lparr>rf_pf = \<lparr>pf_partitions = [Some \<lparr>bf_m = 8, bf_k = 1, bf_bits = [1]\<rparr>],
     pf_count = 1, pf_m = 8, pf_k = 1\<rparr>, rf_Strategy = StrategyRoundRobin, rf_SaturationLimit = 5 :: nat,
     rf_current = 0, rf_stopped = False, rf_history = []\<rparr> = Ok snap"
proof -
  let ?rf = "\<lparr>rf_pf = \<lparr>pf_partitions = [Some \<lparr>bf_m = 8, bf_k = 1, bf_bits = [1]\<rparr>],
     pf_count = 1, pf_m = 8, pf_k = 1\<rparr>, rf_Strategy = StrategyRoundRobin, rf_SaturationLimit = 5 :: nat,
     rf_current = 0, rf_stopped = False, rf_history = []\<rparr>"
  have "wf_pf (rf_pf ?rf)" by (simp add: wf_pf_def wf_part_def wf_bloom_def)
  from snapshot_restore [OF this this refl refl refl] show ?thesis by blast
qed

end
