(* ===== verification/Background.thy ===== *)
theory Background
  imports Rotation
begin

text \<open>
  The concurrent side of \<open>internal/partition/rotation.go\<close>: \<open>Start\<close>, the goroutine \<open>runLoop\<close> with
  its ticker and its \<open>select\<close>, \<open>Stop\<close>, and the operations that clients call meanwhile. A state
  holds the rotating filter, the configured interval (which only \<open>runLoop\<close> reads) and one worker
  for every goroutine started. A ticker holds at most one pending tick; a tick that finds one
  pending is dropped. Everything done under the mutex \<open>rf.mu\<close> is one step, and so is \<open>Add\<close>, which
  only takes the lock of the partitioned filter: an addition in the middle of a rotation is not
  modelled. A goroutine that panics ends the program (\<open>bg_crashed\<close>).
\<close>

datatype Phase = Selecting | Rotating | Returned

record Worker =
  wk_phase :: Phase
  wk_tick :: bool

record 'f Background =
  bg_rf :: "'f RotatingFilter"
  bg_interval :: int
  bg_workers :: "Worker list"
  bg_crashed :: bool

datatype bg_event = Start | Tick nat | GetTick nat | Rotation nat int | GetStop nat
  | AddItem bytes | Rotate int | Stop | Restore "bytes list"

section \<open>Steps\<close>

text \<open>\<open>Start\<close> and the first line of \<open>runLoop\<close>: \<open>time.NewTicker\<close> panics unless the interval is
  positive.\<close>

definition rf_Start :: "'f Background \<Rightarrow> 'f Background" where
  "rf_Start s = (if bg_interval s \<le> 0 then s\<lparr>bg_crashed := True\<rparr>
     else s\<lparr>bg_workers := bg_workers s @ [\<lparr>wk_phase = Selecting, wk_tick = False\<rparr>]\<rparr>)"

definition set_worker :: "nat \<Rightarrow> Worker \<Rightarrow> 'f Background \<Rightarrow> 'f Background" where
  "set_worker i w s = s\<lparr>bg_workers := (bg_workers s)[i := w]\<rparr>"

definition with_rf ::
  "'f Background \<Rightarrow> 'f RotatingFilter \<times> (partition_error, unit) outcome \<Rightarrow> 'f Background" where
  "with_rf s r = (case r of (rf, Panic) \<Rightarrow> s\<lparr>bg_rf := rf, bg_crashed := True\<rparr>
                         | (rf, _) \<Rightarrow> s\<lparr>bg_rf := rf\<rparr>)"

text \<open>
  The loop of \<open>runLoop\<close> for worker \<open>w\<close> (number \<open>i\<close>): in the \<open>select\<close> it may receive from the closed
  channel \<open>stop\<close> and return, or receive a pending tick and rotate. When both are ready the choice
  is free. \<open>None\<close> is a step that is not possible.
\<close>

definition runLoop ::
  "(nat \<Rightarrow> u64 \<Rightarrow> 'f::linorder) \<Rightarrow> 'f \<Rightarrow> nat \<Rightarrow> Worker \<Rightarrow> 'f Background \<Rightarrow> bg_event \<Rightarrow> 'f Background option" where
  "runLoop quot zero i w s ev =
     (case (wk_phase w, ev) of
        (Selecting, GetStop _) \<Rightarrow>
          if rf_stopped (bg_rf s) then Some (set_worker i (w\<lparr>wk_phase := Returned\<rparr>) s) else None
      | (Selecting, GetTick _) \<Rightarrow>
          if wk_tick w then Some (set_worker i \<lparr>wk_phase = Rotating, wk_tick = False\<rparr> s) else None
      | (Rotating, Rotation _ now) \<Rightarrow>
          Some (set_worker i (w\<lparr>wk_phase := Selecting\<rparr>) (with_rf s (rotateOnce quot zero now (bg_rf s))))
      | (Selecting, Tick _) \<Rightarrow> Some (set_worker i (w\<lparr>wk_tick := True\<rparr>) s)
      | (Rotating, Tick _) \<Rightarrow> Some (set_worker i (w\<lparr>wk_tick := True\<rparr>) s)
      | _ \<Rightarrow> None)"

fun worker_of :: "bg_event \<Rightarrow> nat option" where
  "worker_of (Tick i) = Some i"
| "worker_of (GetTick i) = Some i"
| "worker_of (Rotation i now) = Some i"
| "worker_of (GetStop i) = Some i"
| "worker_of _ = None"

fun client_step ::
  "(nat \<Rightarrow> u64 \<Rightarrow> 'f::linorder) \<Rightarrow> 'f \<Rightarrow> 'f Background \<Rightarrow> bg_event \<Rightarrow> 'f Background" where
  "client_step quot zero s (AddItem x) =
     (case rf_Add (bg_rf s) x of Ok rf \<Rightarrow> s\<lparr>bg_rf := rf\<rparr> | _ \<Rightarrow> s\<lparr>bg_crashed := True\<rparr>)"
| "client_step quot zero s (Rotate now) = with_rf s (rotateOnce quot zero now (bg_rf s))"
| "client_step quot zero s Stop = with_rf s (rf_Stop (bg_rf s))"
| "client_step quot zero s (Restore snap) = with_rf s (rf_Restore (bg_rf s) snap)"
| "client_step quot zero s _ = rf_Start s"

definition bg_step ::
  "(nat \<Rightarrow> u64 \<Rightarrow> 'f::linorder) \<Rightarrow> 'f \<Rightarrow> 'f Background \<Rightarrow> bg_event \<Rightarrow> 'f Background option" where
  "bg_step quot zero s ev =
     (if bg_crashed s then None
      else case worker_of ev of
             None \<Rightarrow> Some (client_step quot zero s ev)
           | Some i \<Rightarrow> if i < length (bg_workers s) then runLoop quot zero i (bg_workers s ! i) s ev
                       else None)"

text \<open>
  The items that the filter promises to report: those added and not dropped since by a rotation
  that emptied their partition (the last one in the rotation log) or by a restore.
\<close>

definition live_after ::
  "bg_event \<Rightarrow> 'f Background \<Rightarrow> 'f Background \<Rightarrow> bytes list \<Rightarrow> bytes list" where
  "live_after ev s s' live =
     (case ev of
        AddItem x \<Rightarrow> x # live
      | Restore snap \<Rightarrow> []
      | _ \<Rightarrow> if rf_history (bg_rf s') = rf_history (bg_rf s) then live
             else filter (\<lambda>x. route (rf_pf (bg_rf s)) x \<noteq> ev_Partition (last (rf_history (bg_rf s')))) live)"

inductive bg_reach ::
  "(nat \<Rightarrow> u64 \<Rightarrow> 'f::linorder) \<Rightarrow> 'f \<Rightarrow> 'f Background \<Rightarrow> 'f Background \<Rightarrow> bytes list \<Rightarrow> bool"
  for quot zero s0 where
  bg_init: "bg_reach quot zero s0 s0 []"
| bg_next: "bg_reach quot zero s0 s live \<Longrightarrow> bg_step quot zero s ev = Some s' \<Longrightarrow>
     bg_reach quot zero s0 s' (live_after ev s s' live)"

fun bg_run ::
  "(nat \<Rightarrow> u64 \<Rightarrow> 'f::linorder) \<Rightarrow> 'f \<Rightarrow> 'f Background \<times> bytes list \<Rightarrow> bg_event list
     \<Rightarrow> ('f Background \<times> bytes list) option" where
  "bg_run quot zero (s, live) [] = Some (s, live)"
| "bg_run quot zero (s, live) (ev # evs) =
     (case bg_step quot zero s ev of
        None \<Rightarrow> None
      | Some s' \<Rightarrow> bg_run quot zero (s', live_after ev s s' live) evs)"

lemma bg_run_reach:
  "bg_reach quot zero s0 s live \<Longrightarrow> bg_run quot zero (s, live) evs = Some (s', live') \<Longrightarrow>
     bg_reach quot zero s0 s' live'"
  by (induction evs arbitrary: s live) (auto split: option.splits intro: bg_next)

lemma bg_run_step:
  "bg_run quot zero (s, live) (ev # evs) = Some r \<longleftrightarrow>
     (\<exists>s'. bg_step quot zero s ev = Some s' \<and> bg_run quot zero (s', live_after ev s s' live) evs = Some r)"
  by (simp split: option.splits)

section \<open>The invariant\<close>

lemma log_and_reset_stopped: "rf_stopped (fst (log_and_reset now rf i sat)) = rf_stopped rf"
  by (simp add: log_and_reset_def Let_def split: outcome.splits)

lemma rotateOnce_stopped: "rf_stopped (fst (rotateOnce quot zero now rf)) = rf_stopped rf"
  by (auto simp: rotateOnce_def Let_def log_and_reset_stopped
      split: RotationStrategy.splits outcome.splits prod.splits)

text \<open>A rotation either leaves log and partitions alone or empties the partition it logs.\<close>

definition emptied :: "'f RotatingFilter \<Rightarrow> int \<Rightarrow> 'f RotatingFilter \<Rightarrow> bool" where
  "emptied rf i rf' \<longleftrightarrow> 0 \<le> i \<and> i < pf_count (rf_pf rf)
     \<and> pf_partitions (rf_pf rf') = (pf_partitions (rf_pf rf))[nat i := new_part (rf_pf rf)]
     \<and> pf_count (rf_pf rf') = pf_count (rf_pf rf)
     \<and> rf_history rf' \<noteq> rf_history rf \<and> ev_Partition (last (rf_history rf')) = i"

lemma log_and_reset_emptied:
  assumes "wf_rf rf" "0 \<le> i" "i < pf_count (rf_pf rf)"
  shows "\<exists>rf'. log_and_reset now rf i sat = (rf', Ok ()) \<and> wf_rf rf' \<and> emptied rf i rf'"
proof -
  have "wf_pf (rf_pf rf)" using assms(1) by (simp add: wf_rf_def)
  from log_and_reset_Ok [OF this assms(2,3), of now sat] obtain rf' where
    rf': "log_and_reset now rf i sat = (rf', Ok ())" "wf_pf (rf_pf rf')"
    "pf_partitions (rf_pf rf') = (pf_partitions (rf_pf rf))[nat i := new_part (rf_pf rf)]"
    "pf_count (rf_pf rf') = pf_count (rf_pf rf)" "rf_current rf' = rf_current rf"
    and log: "map ev_Partition (rf_history rf') = map ev_Partition (rf_history rf) @ [i]" by blast
  have "rf_history rf' \<noteq> rf_history rf" using log by auto
  moreover have "ev_Partition (last (rf_history rf')) = i"
    using log by (metis Nil_is_append_conv last_map last_snoc list.map_disc_iff not_Cons_self2)
  ultimately have "emptied rf i rf'" using rf' assms(2,3) by (simp add: emptied_def)
  moreover have "wf_rf rf'" using rf' assms(1) by (simp add: wf_rf_def)
  ultimately show ?thesis using rf'(1) by blast
qed

lemma mostSaturated_range:
  assumes "wf_pf f"
  shows "\<exists>idx sat. mostSaturated quot zero f = Ok (idx, sat) \<and> 0 \<le> idx \<and> idx < pf_count f"
proof -
  have "0 < pf_count f" using assms by (simp add: wf_pf_def)
  moreover have "\<forall>i \<in> set [0..pf_count f - 1]. 0 \<le> i \<and> i < pf_count f" by simp
  from most_loop_max [OF assms this, of quot zero 0 zero] obtain idx sat where
    "mostSaturated quot zero f = Ok (idx, sat)"
    "(idx, sat) = (0, zero) \<or> (idx \<in> set [0..pf_count f - 1] \<and> sat = fill quot f idx)"
    by (auto simp: mostSaturated_def)
  ultimately show ?thesis by auto
qed

lemma rotateOnce_cases:
  assumes "wf_rf rf"
  shows "\<exists>rf'. rotateOnce quot zero now rf = (rf', Ok ()) \<and> wf_rf rf'
    \<and> (rf' = rf \<or> (\<exists>i. emptied rf i rf'))"
proof (cases "rf_Strategy rf")
  case StrategyRoundRobin
  have wf: "wf_pf (rf_pf rf)" "0 \<le> rf_current rf" "rf_current rf < pf_count (rf_pf rf)"
    using assms by (simp_all add: wf_rf_def)
  let ?rf = "rf\<lparr>rf_current := (rf_current rf + 1) smod pf_count (rf_pf rf)\<rparr>"
  obtain s where s: "sat_or_zero quot zero (rf_pf rf) (rf_current rf) = Ok s"
    using sat_Ok [OF wf, of quot zero] by auto
  have "pf_count (rf_pf rf) \<noteq> 0" using wf by simp
  then have step: "rotateOnce quot zero now rf = log_and_reset now ?rf (rf_current rf) s"
    by (simp only: rotateOnce_def Let_def StrategyRoundRobin s if_False RotationStrategy.case outcome.case)
  have "wf_rf ?rf" using wf smod_pos [of "rf_current rf + 1" "pf_count (rf_pf rf)"]
    by (simp add: wf_rf_def)
  from log_and_reset_emptied [OF this, of "rf_current rf" now s] wf obtain rf' where
    "log_and_reset now ?rf (rf_current rf) s = (rf', Ok ())" "wf_rf rf'" "emptied ?rf (rf_current rf) rf'"
    by auto
  moreover from this(3) have "emptied rf (rf_current rf) rf'" by (simp add: emptied_def)
  ultimately show ?thesis using step by auto
next
  case StrategySaturation
  have wf: "wf_pf (rf_pf rf)" "pf_count (rf_pf rf) \<noteq> 0" using assms by (auto simp: wf_rf_def wf_pf_def)
  obtain idx sat where most: "mostSaturated quot zero (rf_pf rf) = Ok (idx, sat)"
    "0 \<le> idx" "idx < pf_count (rf_pf rf)"
    using mostSaturated_range [OF wf(1), of quot zero] by blast
  have "rotateOnce quot zero now rf
      = (if sat < rf_SaturationLimit rf then (rf, Ok ()) else log_and_reset now rf idx sat)"
    using wf(2) StrategySaturation most(1) by (simp add: rotateOnce_def Let_def)
  with log_and_reset_emptied [OF assms most(2,3), of now sat] assms show ?thesis by auto
qed

lemma restore_loop_wf:
  assumes "wf_pf f" "restore_loop f i snap = (f', r)"
  shows "wf_pf f' \<and> pf_count f' = pf_count f \<and> r \<noteq> Panic"
  using assms
proof (induction snap arbitrary: f i)
  case (Cons bits snap)
  show ?case
  proof (cases "bf_NewFromParts (pf_m f) (pf_k f) bits")
    case (Ok bf)
    have small: "unat (pf_m f) < 2 ^ 64 - 7" using Cons.prems(1) by (simp add: wf_pf_def)
    let ?f = "f\<lparr>pf_partitions := (pf_partitions f)[i := Some bf]\<rparr>"
    have "wf_part (pf_m f) (pf_k f) (Some bf)"
      using bf_NewFromParts_wf [OF Ok small] by (simp add: wf_part_def)
    moreover have "set ((pf_partitions f)[i := Some bf]) \<subseteq> insert (Some bf) (set (pf_partitions f))"
      by (rule set_update_subset_insert)
    ultimately have "wf_pf ?f" using Cons.prems(1) by (auto simp: wf_pf_def)
    from Cons.IH [OF this, of "Suc i"] Cons.prems(2) Ok show ?thesis by simp
  next
    case Panic
    then show ?thesis by (simp add: bf_NewFromParts_def Let_def split: if_splits)
  qed (use Cons.prems in auto)
qed auto

lemma rf_Restore_wf:
  assumes "wf_rf rf"
  shows "wf_rf (fst (rf_Restore rf snap)) \<and> snd (rf_Restore rf snap) \<noteq> Panic
    \<and> rf_stopped (fst (rf_Restore rf snap)) = rf_stopped rf"
proof -
  obtain f' r where r: "restore_loop (rf_pf rf) 0 snap = (f', r)" by (rule prod.exhaust)
  with restore_loop_wf [OF _ r] assms show ?thesis
    by (auto simp: rf_Restore_def wf_rf_def)
qed

definition bg_inv :: "'f Background \<Rightarrow> bytes list \<Rightarrow> bool" where
  "bg_inv s live \<longleftrightarrow> \<not> bg_crashed s \<and> 0 < bg_interval s \<and> wf_rf (bg_rf s)
     \<and> (\<forall>x \<in> set live. pf_test (rf_pf (bg_rf s)) x)"

lemma emptied_keeps:
  assumes "wf_rf rf" "wf_rf rf'" "emptied rf i rf'" "pf_test (rf_pf rf) x" "route (rf_pf rf) x \<noteq> i"
  shows "pf_test (rf_pf rf') x"
proof -
  have wf: "wf_pf (rf_pf rf)" "wf_pf (rf_pf rf')" using assms(1,2) by (simp_all add: wf_rf_def)
  have same: "route (rf_pf rf') x = route (rf_pf rf) x"
    using assms(3) by (simp add: emptied_def route_def)
  have "nat (route (rf_pf rf) x) \<noteq> nat i"
    using assms(3,5) route_range(1) [OF wf(1), of x] by (simp add: emptied_def eq_nat_nat_iff)
  then have "pf_partitions (rf_pf rf') ! nat (route (rf_pf rf') x)
      = pf_partitions (rf_pf rf) ! nat (route (rf_pf rf) x)"
    using assms(3) same by (simp add: emptied_def)
  with assms(4) show ?thesis by (simp add: pf_test_iff(1) [OF wf(1)] pf_test_iff(1) [OF wf(2)])
qed

text \<open>The effect of a rotation, by a worker or by a client, on the items promised.\<close>

definition dropped :: "'f RotatingFilter \<Rightarrow> 'f RotatingFilter \<Rightarrow> bytes list \<Rightarrow> bytes list" where
  "dropped rf rf' live = (if rf_history rf' = rf_history rf then live
     else filter (\<lambda>x. route (rf_pf rf) x \<noteq> ev_Partition (last (rf_history rf'))) live)"

lemma rotation_inv:
  assumes "bg_inv s live" "bg_crashed s' = bg_crashed (with_rf s (rotateOnce quot zero now (bg_rf s)))"
    "bg_interval s' = bg_interval s" "bg_rf s' = bg_rf (with_rf s (rotateOnce quot zero now (bg_rf s)))"
  shows "bg_inv s' (dropped (bg_rf s) (bg_rf s') live)"
proof -
  have wf: "wf_rf (bg_rf s)" using assms(1) by (simp add: bg_inv_def)
  from rotateOnce_cases [OF this, of quot zero now] obtain rf' where
    r: "rotateOnce quot zero now (bg_rf s) = (rf', Ok ())" "wf_rf rf'"
    and c: "rf' = bg_rf s \<or> (\<exists>i. emptied (bg_rf s) i rf')" by blast
  have s': "bg_rf s' = rf'" "bg_crashed s' = bg_crashed s" using assms(2,4) r(1) by (simp_all add: with_rf_def)
  have "\<forall>x \<in> set (dropped (bg_rf s) rf' live). pf_test (rf_pf rf') x"
    using c
  proof
    assume "rf' = bg_rf s"
    then show ?thesis using assms(1) by (simp add: dropped_def bg_inv_def)
  next
    assume "\<exists>i. emptied (bg_rf s) i rf'"
    then obtain i where e: "emptied (bg_rf s) i rf'" by blast
    then have "dropped (bg_rf s) rf' live = filter (\<lambda>x. route (rf_pf (bg_rf s)) x \<noteq> i) live"
      by (simp add: dropped_def emptied_def)
    then show ?thesis using emptied_keeps [OF wf r(2) e] assms(1) by (auto simp: bg_inv_def)
  qed
  with r(2) s' assms(1,3) show ?thesis by (simp add: bg_inv_def)
qed

lemma live_after_dropped:
  "worker_of ev \<noteq> None \<or> (\<exists>now. ev = Rotate now) \<Longrightarrow>
     live_after ev s s' live = dropped (bg_rf s) (bg_rf s') live"
  by (cases ev) (simp_all add: live_after_def dropped_def)

lemma set_worker_simps [simp]:
  "bg_rf (set_worker i w s) = bg_rf s" "bg_interval (set_worker i w s) = bg_interval s"
  "bg_crashed (set_worker i w s) = bg_crashed s"
  "bg_workers (set_worker i w s) = (bg_workers s)[i := w]"
  by (simp_all add: set_worker_def)

lemma with_rf_simps [simp]:
  "bg_interval (with_rf s r) = bg_interval s" "bg_workers (with_rf s r) = bg_workers s"
  "bg_rf (with_rf s r) = fst r" "bg_crashed (with_rf s r) \<longleftrightarrow> bg_crashed s \<or> snd r = Panic"
  by (auto simp: with_rf_def split: prod.split outcome.split)

lemma runLoop_inv:
  assumes "bg_inv s live" "runLoop quot zero i w s ev = Some s'" "worker_of ev \<noteq> None"
  shows "bg_inv s' (live_after ev s s' live)"
proof (cases "\<exists>now. ev = Rotation i now \<or> (\<exists>j. ev = Rotation j now)")
  case True
  then obtain j now where ev: "ev = Rotation j now" by blast
  then have s': "s' = set_worker i (w\<lparr>wk_phase := Selecting\<rparr>) (with_rf s (rotateOnce quot zero now (bg_rf s)))"
    using assms(2) by (simp add: runLoop_def split: Phase.splits)
  have "bg_inv s' (dropped (bg_rf s) (bg_rf s') live)"
    by (rule rotation_inv [OF assms(1)]) (simp_all add: s')
  then show ?thesis using live_after_dropped [of ev s s' live] assms(3) by simp
next
  case False
  then have same: "bg_rf s' = bg_rf s" "bg_crashed s' = bg_crashed s" "bg_interval s' = bg_interval s"
    using assms(2) by (auto simp: runLoop_def split: Phase.splits bg_event.splits if_splits)
  then have "live_after ev s s' live = live"
    using live_after_dropped [of ev s s' live] assms(3) by (simp add: dropped_def)
  with same assms(1) show ?thesis by (simp add: bg_inv_def)
qed

lemma client_inv:
  assumes "bg_inv s live" "worker_of ev = None"
  shows "bg_inv (client_step quot zero s ev) (live_after ev s (client_step quot zero s ev) live)"
proof (cases ev)
  case (AddItem x)
  have wf: "wf_pf (rf_pf (bg_rf s))" using assms(1) by (simp add: bg_inv_def wf_rf_def)
  then have "client_step quot zero s ev = s\<lparr>bg_rf := (bg_rf s)\<lparr>rf_pf := pf_add (rf_pf (bg_rf s)) x\<rparr>\<rparr>"
    by (simp add: AddItem rf_Add_def pf_Add_Ok)
  then show ?thesis
    using assms(1) wf partitioned.inv_add partitioned.test_added partitioned.test_mono
    by (auto simp: AddItem live_after_def bg_inv_def wf_rf_def pf_add_parts(3) pf_add_wf)
next
  case (Rotate now)
  have "bg_inv (client_step quot zero s ev) (dropped (bg_rf s) (bg_rf (client_step quot zero s ev)) live)"
    by (rule rotation_inv [OF assms(1)]) (simp_all add: Rotate)
  then show ?thesis
    using live_after_dropped [of ev s "client_step quot zero s ev" live] Rotate by simp
next
  case Stop
  then show ?thesis using assms(1) by (simp add: live_after_def bg_inv_def rf_Stop_def wf_rf_def)
next
  case (Restore snap)
  then show ?thesis
    using assms(1) rf_Restore_wf [of "bg_rf s" snap] by (simp add: live_after_def bg_inv_def)
next
  case Start
  then show ?thesis using assms(1) by (simp add: live_after_def bg_inv_def rf_Start_def)
qed (use assms(2) in simp_all)

lemma bg_reach_inv:
  assumes "bg_reach quot zero s0 s live" "bg_inv s0 []"
  shows "bg_inv s live"
  using assms
proof induction
  case (bg_next s live ev s')
  then have inv: "bg_inv s live" by simp
  show ?case
  proof (cases "worker_of ev")
    case None
    then show ?thesis using bg_next.hyps(2) client_inv [OF inv None, of quot zero] inv
      by (simp add: bg_step_def bg_inv_def)
  next
    case (Some i)
    then show ?thesis using bg_next.hyps(2) runLoop_inv [OF inv] inv
      by (auto simp: bg_step_def bg_inv_def split: if_splits)
  qed
qed simp

lemma NewRotatingFilter_wf:
  assumes "NewRotatingFilter n m k strategy limit = Ok rf" "n < 2 ^ 53" "unat m < 2 ^ 64 - 7"
  shows "wf_rf rf"
proof -
  obtain pf where pf: "pf_New n m k = Ok pf" and rf: "rf = \<lparr>rf_pf = pf, rf_Strategy = strategy,
      rf_SaturationLimit = limit, rf_current = 0, rf_stopped = False, rf_history = []\<rparr>"
    using assms(1) by (auto simp: NewRotatingFilter_def and_then_Ok_iff)
  from pf_New_wf(1) [OF pf assms(2,3)] show ?thesis by (simp add: rf wf_rf_def wf_pf_def)
qed

section \<open>After Stop\<close>

text \<open>The steps that a goroutine takes by itself; \<open>Tick\<close> is a step of its ticker.\<close>

fun is_move :: "bg_event \<Rightarrow> bool" where
  "is_move (GetTick i) = True"
| "is_move (Rotation i now) = True"
| "is_move (GetStop i) = True"
| "is_move _ = False"

fun is_tick :: "bg_event \<Rightarrow> bool" where
  "is_tick (Tick i) = True"
| "is_tick _ = False"

text \<open>How many moves a worker has left without further ticks.\<close>

definition moves_left :: "Worker \<Rightarrow> nat" where
  "moves_left w = (case wk_phase w of Selecting \<Rightarrow> 1 | Rotating \<Rightarrow> 2 | Returned \<Rightarrow> 0)
     + (if wk_tick w \<and> wk_phase w \<noteq> Returned then 2 else 0)"

definition load :: "'f Background \<Rightarrow> nat" where
  "load s = (\<Sum>w \<leftarrow> bg_workers s. moves_left w)"

lemma load_le: "load s \<le> 4 * length (bg_workers s)"
proof -
  have "moves_left w \<le> 4" for w by (simp add: moves_left_def split: Phase.split)
  then have "sum_list (map moves_left ws) \<le> 4 * length ws" for ws
  proof (induction ws)
    case (Cons w ws)
    then show ?case using Cons.prems [of w] Cons.IH by (simp add: add_mono)
  qed simp
  then show ?thesis by (simp add: load_def)
qed

lemma load_update:
  "i < length ws \<Longrightarrow> sum_list (map moves_left (ws[i := w])) + moves_left (ws ! i)
     = sum_list (map moves_left ws) + moves_left w"
proof (induction ws arbitrary: i)
  case (Cons v ws)
  then show ?case by (cases i) auto
qed simp

lemma with_rf_stopped_Stop: "rf_stopped (fst (rf_Stop rf))"
  by (simp add: rf_Stop_def)

lemma runLoop_load:
  assumes "runLoop quot zero i (bg_workers s ! i) s ev = Some s'" "i < length (bg_workers s)"
    "worker_of ev = Some i"
  shows "load s' + (if is_move ev then 1 else 0) \<le> load s + (if is_tick ev then 2 else 0)
    \<and> length (bg_workers s') = length (bg_workers s) \<and> rf_stopped (bg_rf s') = rf_stopped (bg_rf s)"
proof -
  let ?w = "bg_workers s ! i"
  obtain w' where ws: "bg_workers s' = (bg_workers s)[i := w']"
    and stop: "rf_stopped (bg_rf s') = rf_stopped (bg_rf s)"
    and less: "moves_left w' + (if is_move ev then 1 else 0)
      \<le> moves_left ?w + (if is_tick ev then 2 else 0)"
    using assms(1,3)
    by (cases ev; cases "wk_phase ?w")
      (auto simp: runLoop_def moves_left_def rotateOnce_stopped split: if_splits)
  have "load s' + moves_left ?w = load s + moves_left w'"
    unfolding load_def ws by (rule load_update [OF assms(2)])
  with less have "load s' + (if is_move ev then 1 else 0) \<le> load s + (if is_tick ev then 2 else 0)"
    by arith
  with ws stop show ?thesis by simp
qed

lemma bg_step_load:
  assumes "bg_step quot zero s ev = Some s'" "ev \<noteq> Start" "bg_inv s live"
  shows "load s' + (if is_move ev then 1 else 0) \<le> load s + (if is_tick ev then 2 else 0)
    \<and> (rf_stopped (bg_rf s) \<longrightarrow> rf_stopped (bg_rf s'))"
proof (cases "worker_of ev")
  case (Some i)
  then show ?thesis using assms(1) runLoop_load [of quot zero i s ev s']
    by (auto simp: bg_step_def split: if_splits)
next
  case None
  have wf: "wf_rf (bg_rf s)" "wf_pf (rf_pf (bg_rf s))" using assms(3) by (simp_all add: bg_inv_def wf_rf_def)
  from None have no: "\<not> is_move ev" "\<not> is_tick ev" by (cases ev; simp)+
  have s': "s' = client_step quot zero s ev"
    using assms(1) None by (simp add: bg_step_def split: if_splits)
  have "bg_workers s' = bg_workers s \<and> (rf_stopped (bg_rf s) \<longrightarrow> rf_stopped (bg_rf s'))"
    using None assms(2) wf rf_Restore_wf [OF wf(1)] unfolding s'
    by (cases ev) (auto simp: rotateOnce_stopped with_rf_stopped_Stop rf_Add_def pf_Add_Ok)
  with no show ?thesis by (simp add: load_def)
qed

lemma bg_run_load:
  assumes "bg_run quot zero (s, live) evs = Some (s', live')" "Start \<notin> set evs"
    "bg_reach quot zero s0 s live" "bg_inv s0 []"
  shows "load s' + length (filter is_move evs) \<le> load s + 2 * length (filter is_tick evs)
    \<and> (rf_stopped (bg_rf s) \<longrightarrow> rf_stopped (bg_rf s'))"
  using assms(1-3)
proof (induction evs arbitrary: s live)
  case (Cons ev evs)
  obtain s1 where s1: "bg_step quot zero s ev = Some s1"
    and rest: "bg_run quot zero (s1, live_after ev s s1 live) evs = Some (s', live')"
    using Cons.prems(1) by (auto split: option.splits)
  have inv: "bg_inv s live" by (rule bg_reach_inv [OF Cons.prems(3) assms(4)])
  have "ev \<noteq> Start" using Cons.prems(2) by auto
  note one = bg_step_load [OF s1 this inv]
  have "Start \<notin> set evs" using Cons.prems(2) by simp
  note ih = Cons.IH [OF rest this bg_next [OF Cons.prems(3) s1]]
  have len: "length (filter is_move (ev # evs)) = (if is_move ev then 1 else 0) + length (filter is_move evs)"
    "length (filter is_tick (ev # evs)) = (if is_tick ev then 1 else 0) + length (filter is_tick evs)"
    by simp_all
  show ?case unfolding len using one ih by (cases "is_tick ev") auto
qed simp

lemma stopped_move:
  assumes "\<not> bg_crashed s" "rf_stopped (bg_rf s)" "i < length (bg_workers s)"
    "wk_phase (bg_workers s ! i) \<noteq> Returned"
  shows "\<exists>ev. is_move ev \<and> bg_step quot zero s ev \<noteq> None"
proof (cases "wk_phase (bg_workers s ! i)")
  case Selecting
  with assms have "is_move (GetStop i) \<and> bg_step quot zero s (GetStop i) \<noteq> None"
    by (simp add: bg_step_def runLoop_def)
  then show ?thesis by blast
next
  case Rotating
  with assms have "is_move (Rotation i 0) \<and> bg_step quot zero s (Rotation i 0) \<noteq> None"
    by (simp add: bg_step_def runLoop_def)
  then show ?thesis by blast
qed (use assms(4) in simp)

text \<open>
  \<open>Stop\<close> does not wait: a goroutine whose tick is already pending may take it after \<open>Stop\<close> has
  returned, and empty one more partition.
\<close>

lemma rotation_after_stop:
  assumes "bg_inv s live" "i < length (bg_workers s)"
    "bg_workers s ! i = \<lparr>wk_phase = Selecting, wk_tick = True\<rparr>"
    "rf_Strategy (bg_rf s) = StrategyRoundRobin" "\<not> rf_stopped (bg_rf s)"
  shows "\<exists>s1 s' l. bg_step quot zero s Stop = Some s1 \<and> rf_stopped (bg_rf s1)
    \<and> bg_run quot zero (s1, live) [GetTick i, Rotation i now] = Some (s', l)
    \<and> pf_partitions (rf_pf (bg_rf s'))
        = (pf_partitions (rf_pf (bg_rf s1)))[nat (rf_current (bg_rf s1)) := new_part (rf_pf (bg_rf s1))]"
proof -
  let ?rf = "(bg_rf s)\<lparr>rf_stopped := True\<rparr>"
  let ?s1 = "s\<lparr>bg_rf := ?rf\<rparr>"
  have ok: "\<not> bg_crashed s" "wf_rf (bg_rf s)" using assms(1) by (simp_all add: bg_inv_def)
  have s1: "bg_step quot zero s Stop = Some ?s1"
    using ok(1) assms(5) by (simp add: bg_step_def rf_Stop_def with_rf_def)
  have wf: "wf_rf ?rf" using ok(2) by (simp add: wf_rf_def)
  from rotateOnce_rr [OF wf, of quot zero now] assms(4) obtain rf' where
    r: "rotateOnce quot zero now ?rf = (rf', Ok ())"
    and p: "pf_partitions (rf_pf rf') = (pf_partitions (rf_pf ?rf))[nat (rf_current ?rf) := new_part (rf_pf ?rf)]"
    by auto
  let ?s2 = "set_worker i \<lparr>wk_phase = Rotating, wk_tick = False\<rparr> ?s1"
  let ?s3 = "set_worker i \<lparr>wk_phase = Selecting, wk_tick = False\<rparr> (with_rf ?s2 (rf', Ok ()))"
  have s2: "bg_step quot zero ?s1 (GetTick i) = Some ?s2"
    using ok(1) assms(2,3) by (simp add: bg_step_def runLoop_def)
  have s3: "bg_step quot zero ?s2 (Rotation i now) = Some ?s3"
    using ok(1) assms(2) r by (simp add: bg_step_def runLoop_def)
  have "bg_run quot zero (?s1, live) [GetTick i, Rotation i now]
      = Some (?s3, live_after (Rotation i now) ?s2 ?s3 (live_after (GetTick i) ?s1 ?s2 live))"
    by (simp only: bg_run.simps s2 s3 option.case)
  moreover have "pf_partitions (rf_pf (bg_rf ?s3))
      = (pf_partitions (rf_pf (bg_rf ?s1)))[nat (rf_current (bg_rf ?s1)) := new_part (rf_pf (bg_rf ?s1))]"
    using p by simp
  moreover have "rf_stopped (bg_rf ?s1)" by simp
  ultimately show ?thesis using s1 by blast
qed

text \<open>The interval is not checked before the goroutine starts: \<open>Start\<close> on a configuration whose
  interval is not positive ends the program.\<close>

lemma Start_needs_interval: "bg_interval s \<le> 0 \<Longrightarrow> bg_crashed (rf_Start s)"
  by (simp add: rf_Start_def)

section \<open>Properties\<close>


text \<open>A filter with one partition, a goroutine, an item, and a stop.\<close>

definition demo :: "nat Background" where
  "demo = \<lparr>bg_rf = \<lparr>rf_pf = \<lparr>pf_partitions = [Some \<lparr>bf_m = 8, bf_k = 1, bf_bits = [0]\<rparr>],
       pf_count = 1, pf_m = 8, pf_k = 1\<rparr>, rf_Strategy = StrategyRoundRobin, rf_SaturationLimit = 0,
       rf_current = 0, rf_stopped = False, rf_history = []\<rparr>,
     bg_interval = 60, bg_workers = [], bg_crashed = False\<rparr>"

lemma demo_new: "NewRotatingFilter 1 8 1 StrategyRoundRobin 0 = Ok (bg_rf demo)"
  by (simp add: demo_def NewRotatingFilter_def pf_New_def bf_New_def unat_div)

lemma demo_start: "demo = \<lparr>bg_rf = bg_rf demo, bg_interval = 60, bg_workers = [], bg_crashed = False\<rparr>"
  by (simp add: demo_def)

lemma demo_run:
  "\<exists>s. bg_run (\<lambda>n m. n) 0 (demo, []) [Start, AddItem [65], Stop] = Some (s, [[65]])
     \<and> rf_stopped (bg_rf s) \<and> bg_workers s = [\<lparr>wk_phase = Selecting, wk_tick = False\<rparr>]"
proof -
  have "wf_rf (bg_rf demo)" by (rule NewRotatingFilter_wf [OF demo_new]) simp_all
  then have "rf_Add (bg_rf demo) [65] = Ok ((bg_rf demo)\<lparr>rf_pf := pf_add (rf_pf (bg_rf demo)) [65]\<rparr>)"
    by (simp add: rf_Add_def wf_rf_def pf_Add_Ok)
  moreover have "bg_interval demo = 60" "bg_workers demo = []" "\<not> bg_crashed demo"
    "\<not> rf_stopped (bg_rf demo)" "rf_history (bg_rf demo) = []" by (simp_all add: demo_def)
  ultimately show ?thesis
    by (simp add: bg_step_def rf_Start_def live_after_def with_rf_def rf_Stop_def)
qed




end
