(* ===== verification/Flags.thy ===== *)
theory Flags
  imports Bloom_Prelude "HOL-Library.Char_ord"
begin

text \<open>
  The parts of the standard library that turn command-line words into values: \<open>FlagSet.Parse\<close>
  of package \<open>flag\<close> for flags that take a value (the program has no boolean flag), and
  \<open>strconv.ParseUint(s, 0, 64)\<close>, with which \<open>flag\<close> reads a \<open>uint\<close>. Strings are lists of
  characters, one per byte.
\<close>

section \<open>Unsigned numbers\<close>

definition lower :: "char \<Rightarrow> char" where
  "lower c = (if CHR ''A'' \<le> c \<and> c \<le> CHR ''Z'' then char_of (of_char c + 32 :: nat) else c)"

definition digit :: "char \<Rightarrow> nat option" where
  "digit c = (if CHR ''0'' \<le> c \<and> c \<le> CHR ''9'' then Some (of_char c - 48)
     else if CHR ''a'' \<le> lower c \<and> lower c \<le> CHR ''z'' then Some (of_char (lower c) - 97 + 10)
     else None)"

text \<open>The digits in a given base, underscores skipped; \<open>None\<close> for a bad digit or a number above 64 bits.\<close>

fun parse_digits :: "nat \<Rightarrow> nat \<Rightarrow> string \<Rightarrow> nat option" where
  "parse_digits base n [] = Some n"
| "parse_digits base n (c # cs) =
     (if c = CHR ''_'' then parse_digits base n cs
      else case digit c of
             None \<Rightarrow> None
           | Some d \<Rightarrow> if base \<le> d then None
               else if 2 ^ 64 \<le> n * base + d then None
               else parse_digits base (n * base + d) cs)"

text \<open>\<open>underscoreOK\<close>: underscores stand only between digits; \<open>prev\<close> is the last kind of character.\<close>

datatype kind = Start | Digit | Underscore | Other

fun underscore_loop :: "bool \<Rightarrow> kind \<Rightarrow> string \<Rightarrow> bool" where
  "underscore_loop hex prev [] \<longleftrightarrow> prev \<noteq> Underscore"
| "underscore_loop hex prev (c # cs) \<longleftrightarrow>
     (if CHR ''0'' \<le> c \<and> c \<le> CHR ''9'' \<or> hex \<and> CHR ''a'' \<le> lower c \<and> lower c \<le> CHR ''f''
      then underscore_loop hex Digit cs
      else if c = CHR ''_'' then prev = Digit \<and> underscore_loop hex Underscore cs
      else prev \<noteq> Underscore \<and> underscore_loop hex Other cs)"

definition drop_sign :: "string \<Rightarrow> string" where
  "drop_sign s = (case s of [] \<Rightarrow> []
     | c # cs \<Rightarrow> if c = CHR ''-'' \<or> c = CHR ''+'' then cs else s)"

definition prefixed :: "string \<Rightarrow> char \<Rightarrow> bool" where
  "prefixed s b \<longleftrightarrow> 2 \<le> length s \<and> hd s = CHR ''0'' \<and> lower (s ! 1) = b"

definition underscoreOK :: "string \<Rightarrow> bool" where
  "underscoreOK s0 =
     (let s = drop_sign s0
      in if prefixed s CHR ''b'' \<or> prefixed s CHR ''o'' then underscore_loop False Digit (drop 2 s)
         else if prefixed s CHR ''x'' then underscore_loop True Digit (drop 2 s)
         else underscore_loop False Start s)"

definition ParseUint :: "string \<Rightarrow> nat option" where
  "ParseUint s =
     (if s = [] then None
      else let (base, ds) =
             (if hd s \<noteq> CHR ''0'' then (10, s)
              else if 3 \<le> length s \<and> prefixed s CHR ''b'' then (2, drop 2 s)
              else if 3 \<le> length s \<and> prefixed s CHR ''o'' then (8, drop 2 s)
              else if 3 \<le> length s \<and> prefixed s CHR ''x'' then (16, drop 2 s)
              else (8, drop 1 s))
           in if CHR ''_'' \<in> set ds \<and> \<not> underscoreOK s then None
              else parse_digits base 0 ds)"

section \<open>Flags\<close>

datatype flag_error = BadFlagSyntax | FlagNotDefined | HelpRequested | FlagNeedsArgument | InvalidFlagValue

text \<open>
  \<open>formal\<close> tells which flags are defined and \<open>valid\<close> whether \<open>Value.Set\<close> accepts a value. The
  result lists the assignments in order, and the arguments after the flags (\<open>FlagSet.Args\<close>).
\<close>

type_synonym assignments = "(string \<times> string) list"

fun assign :: "(string \<Rightarrow> string \<Rightarrow> bool) \<Rightarrow> string \<Rightarrow> string
    \<Rightarrow> (flag_error, assignments \<times> string list) outcome
    \<Rightarrow> (flag_error, assignments \<times> string list) outcome" where
  "assign valid name v r =
     (if \<not> valid name v then Err InvalidFlagValue
      else case r of Ok (as, rest) \<Rightarrow> Ok ((name, v) # as, rest) | Err e \<Rightarrow> Err e | Panic \<Rightarrow> Panic)"

definition flag_body :: "string \<Rightarrow> string" where
  "flag_body s = (if s ! 1 = CHR ''-'' then drop 2 s else drop 1 s)"

fun flag_Parse :: "(string \<Rightarrow> bool) \<Rightarrow> (string \<Rightarrow> string \<Rightarrow> bool) \<Rightarrow> string list
    \<Rightarrow> (flag_error, assignments \<times> string list) outcome" where
  "flag_Parse formal valid [] = Ok ([], [])"
| "flag_Parse formal valid (s # rest) =
     (if length s < 2 \<or> hd s \<noteq> CHR ''-'' then Ok ([], s # rest)
      else if s = ''--'' then Ok ([], rest)
      else if flag_body s = [] \<or> hd (flag_body s) = CHR ''-'' \<or> hd (flag_body s) = CHR ''=''
      then Err BadFlagSyntax
      else if \<not> formal (takeWhile (\<lambda>c. c \<noteq> CHR ''='') (flag_body s))
      then Err (if takeWhile (\<lambda>c. c \<noteq> CHR ''='') (flag_body s) \<in> {''help'', ''h''}
                then HelpRequested else FlagNotDefined)
      else if CHR ''='' \<in> set (flag_body s)
      then assign valid (takeWhile (\<lambda>c. c \<noteq> CHR ''='') (flag_body s))
             (drop 1 (dropWhile (\<lambda>c. c \<noteq> CHR ''='') (flag_body s))) (flag_Parse formal valid rest)
      else (case rest of
              [] \<Rightarrow> Err FlagNeedsArgument
            | v # rest' \<Rightarrow> assign valid (flag_body s) v (flag_Parse formal valid rest')))"

text \<open>The variable of a flag after parsing: its last assignment, or its default.\<close>

definition flag_value :: "string \<Rightarrow> string \<Rightarrow> assignments \<Rightarrow> string" where
  "flag_value name def as = foldl (\<lambda>old (n, v). if n = name then v else old) def as"

lemma parse_no_flags:
  "args = [] \<or> hd args = [] \<or> hd (hd args) \<noteq> CHR ''-'' \<Longrightarrow> flag_Parse formal valid args = Ok ([], args)"
  by (cases args) auto

lemma parse_pair:
  assumes "formal [c]" "valid [c] v" "c \<noteq> CHR ''-''" "c \<noteq> CHR ''=''"
    and "flag_Parse formal valid rest = Ok (as, pos)"
  shows "flag_Parse formal valid ((CHR ''-'' # [c]) # v # rest) = Ok (([c], v) # as, pos)"
  using assms by (simp add: flag_body_def)

end
