(* ===== verification/Cli.thy ===== *)
theory Cli
  imports Store Flags
begin

text \<open>
  \<open>main.go\<close>: the command line. \<open>main\<close> takes the words after the program name; \<open>reorderFlags\<close> and
  the flag parser of \<open>Flags\<close> turn them into the variables of each command. A string is a list
  of characters, one per byte; \<open>to_bytes\<close> is the conversion \<open>[]byte(s)\<close>. What a command prints is
  its outcome; \<open>fatal\<close>, which prints and exits, is \<open>Err\<close>. \<open>os.WriteFile\<close> truncates the file
  before it writes. The last section runs sequences of commands against a device that may
  refuse writes.
\<close>

datatype fatal = NoCommand | UnknownCommand string | FlagsRejected flag_error | NoFile | NoItems
  | ReadFailed | UnmarshalFailed codec_error | NewFailed filter_error
  | WriteFailed | StoreOpenFailed store_error | StoreFailed store_error | VersionFailed codec_error

datatype printed = Added nat | Present | Absent | Info int u64 u64 nat | CheckpointWritten

section \<open>Arguments\<close>

definition is_flag :: "string \<Rightarrow> bool" where
  "is_flag a \<longleftrightarrow> a \<noteq> [] \<and> hd a = CHR ''-''"

definition takes_value :: "string \<Rightarrow> string list \<Rightarrow> bool" where
  "takes_value a rest \<longleftrightarrow> rest \<noteq> [] \<and> \<not> is_flag (hd rest) \<and> CHR ''='' \<notin> set a"

text \<open>The loop of \<open>reorderFlags\<close> over the remaining arguments.\<close>

function reorder_loop :: "string list \<Rightarrow> string list \<Rightarrow> string list \<Rightarrow> string list \<times> string list" where
  "reorder_loop flags pos [] = (flags, pos)"
| "reorder_loop flags pos (a # rest) =
     (if is_flag a then
        if takes_value a rest then reorder_loop (flags @ [a, hd rest]) pos (tl rest)
        else reorder_loop (flags @ [a]) pos rest
      else reorder_loop flags (pos @ [a]) rest)"
  by pat_completeness auto
termination
  by (relation "measure (\<lambda>(_, _, args). length args)") auto

definition reorderFlags :: "string list \<Rightarrow> string list" where
  "reorderFlags args = (case reorder_loop [] [] args of (flags, pos) \<Rightarrow> flags @ pos)"

text \<open>\<open>strings.FieldsFunc(v, f)\<close> with the separators of \<open>stringSlice.Set\<close>.\<close>

definition is_sep :: "char \<Rightarrow> bool" where
  "is_sep r \<longleftrightarrow> r = CHR '','' \<or> r = CHR '' '' \<or> r = CHR 0x09"

function fields :: "string \<Rightarrow> string list" where
  "fields [] = []"
| "fields (c # cs) =
     (if is_sep c then fields cs
      else (c # takeWhile (\<lambda>r. \<not> is_sep r) cs) # fields (dropWhile (\<lambda>r. \<not> is_sep r) cs))"
  by pat_completeness auto
termination
  by (relation "measure length") (auto simp: less_Suc_eq_le length_dropWhile_le)

definition stringSlice_Set :: "string list \<Rightarrow> string \<Rightarrow> string list" where
  "stringSlice_Set s v = foldl (\<lambda>s p. if p \<noteq> [] then s @ [p] else s) s (fields v)"

section \<open>Commands\<close>

definition to_bytes :: "string \<Rightarrow> bytes" where
  "to_bytes s = map of_char s"

definition defaultM :: u64 where "defaultM = 65536"
definition defaultK :: u64 where "defaultK = 7"

definition os_WriteFile :: "World \<Rightarrow> string \<Rightarrow> bytes \<Rightarrow> World \<times> bool" where
  "os_WriteFile w path data =
     (case os_Create w path of (w, f) \<Rightarrow> case file_Write w f data of (w, _, ok) \<Rightarrow> (w, ok))"

definition with_flags :: "string list \<Rightarrow> (string \<Rightarrow> string \<Rightarrow> bool) \<Rightarrow> World \<Rightarrow> string list
    \<Rightarrow> (assignments \<Rightarrow> string list \<Rightarrow> World \<times> (fatal, printed) outcome)
    \<Rightarrow> World \<times> (fatal, printed) outcome" where
  "with_flags names valid w args body =
     (case flag_Parse (\<lambda>n. n \<in> set names) valid args of
        Ok (as, rest) \<Rightarrow> body as rest
      | Err e \<Rightarrow> (w, Err (FlagsRejected e))
      | Panic \<Rightarrow> (w, Panic))"

definition any_value :: "string \<Rightarrow> string \<Rightarrow> bool" where
  "any_value name v \<longleftrightarrow> True"

text \<open>The value of the repeatable flag \<open>-items\<close>.\<close>

definition flag_items :: "assignments \<Rightarrow> string list" where
  "flag_items as = foldl (\<lambda>items (n, v). if n = ''items'' then stringSlice_Set items v else items) [] as"

definition runAdd :: "World \<Rightarrow> string list \<Rightarrow> World \<times> (fatal, printed) outcome" where
  "runAdd w args = with_flags [''f'', ''items''] any_value w args (\<lambda>as rest.
     let path = flag_value ''f'' '''' as;
         items = flag_items as @ rest
     in if path = [] then (w, Err NoFile)
        else if items = [] then (w, Err NoItems)
        else case (case os_ReadFile w path of
                     Some data \<Rightarrow> wrap_err UnmarshalFailed (Unmarshal data)
                   | None \<Rightarrow> wrap_err NewFailed (bf_New defaultM defaultK)) of
               Err e \<Rightarrow> (w, Err e)
             | Panic \<Rightarrow> (w, Panic)
             | Ok f \<Rightarrow>
                 let f = foldl (\<lambda>f it. bf_Add f (to_bytes it)) f items
                 in case os_WriteFile w path (case Marshal (Some f) of None \<Rightarrow> [] | Some b \<Rightarrow> b) of
                      (w, ok) \<Rightarrow> if \<not> ok then (w, Err WriteFailed) else (w, Ok (Added (length items))))"

definition runCheck :: "World \<Rightarrow> string list \<Rightarrow> World \<times> (fatal, printed) outcome" where
  "runCheck w args = with_flags [''f'', ''item''] any_value w args (\<lambda>as rest.
     let path = flag_value ''f'' '''' as; item = flag_value ''item'' '''' as
     in if path = [] then (w, Err NoFile)
        else if item = [] then (w, Err NoItems)
        else case os_ReadFile w path of
               None \<Rightarrow> (w, Err ReadFailed)
             | Some data \<Rightarrow> (w, and_then (wrap_err UnmarshalFailed (Unmarshal data)) (\<lambda>f.
                 Ok (if bf_Test f (to_bytes item) then Present else Absent))))"

text \<open>The second line that \<open>info\<close> prints, a floating-point estimate, is left out.\<close>

definition runInfo :: "World \<Rightarrow> string list \<Rightarrow> World \<times> (fatal, printed) outcome" where
  "runInfo w args = with_flags [''f''] any_value w args (\<lambda>as rest.
     let path = flag_value ''f'' '''' as
     in if path = [] then (w, Err NoFile)
        else case os_ReadFile w path of
               None \<Rightarrow> (w, Err ReadFailed)
             | Some data \<Rightarrow> (w, and_then (wrap_err VersionFailed (Version data)) (\<lambda>ver.
                 and_then (wrap_err UnmarshalFailed (Unmarshal data)) (\<lambda>f.
                   Ok (Info ver (bf_m f) (bf_k f) (length data))))))"

fun store_add_all :: "World \<Rightarrow> Store \<Rightarrow> string list \<Rightarrow> World \<times> Store \<times> (store_error, unit) outcome" where
  "store_add_all w s [] = (w, s, Ok ())"
| "store_add_all w s (it # items) =
     (case store_Add w s (to_bytes it) of
        (w, s, Ok _) \<Rightarrow> store_add_all w s items
      | (w, s, Err e) \<Rightarrow> (w, s, Err e)
      | (w, s, Panic) \<Rightarrow> (w, s, Panic))"

definition uint_value :: "string \<Rightarrow> string \<Rightarrow> bool" where
  "uint_value name v \<longleftrightarrow> name \<in> {''m'', ''k''} \<longrightarrow> ParseUint v \<noteq> None"

definition flag_uint :: "string \<Rightarrow> u64 \<Rightarrow> assignments \<Rightarrow> u64" where
  "flag_uint name def as =
     foldl (\<lambda>old (n, v). if n = name then word_of_nat (the (ParseUint v)) else old) def as"

definition runStoreAdd :: "World \<Rightarrow> string list \<Rightarrow> World \<times> (fatal, printed) outcome" where
  "runStoreAdd w args = with_flags [''f'', ''m'', ''k'', ''items''] uint_value w args (\<lambda>as rest.
     let path = flag_value ''f'' '''' as;
         m = flag_uint ''m'' defaultM as; k = flag_uint ''k'' defaultK as;
         items = flag_items as @ rest
     in if path = [] then (w, Err NoFile)
        else if items = [] then (w, Err NoItems)
        else case (if w_files w path = None then store_Create w path m k else store_Open w path) of
               (w, Err e) \<Rightarrow> (w, Err (StoreOpenFailed e))
             | (w, Panic) \<Rightarrow> (w, Panic)
             | (w, Ok s) \<Rightarrow>
                 (case store_add_all w s items of
                    (w, s, Ok _) \<Rightarrow> (w, Ok (Added (length items)))
                  | (w, s, Err e) \<Rightarrow> (w, Err (StoreFailed e))
                  | (w, s, Panic) \<Rightarrow> (w, Panic)))"

definition runStoreCheck :: "World \<Rightarrow> string list \<Rightarrow> World \<times> (fatal, printed) outcome" where
  "runStoreCheck w args = with_flags [''f'', ''item''] any_value w args (\<lambda>as rest.
     let path = flag_value ''f'' '''' as; item = flag_value ''item'' '''' as
     in if path = [] then (w, Err NoFile)
        else if item = [] then (w, Err NoItems)
        else case store_Open w path of
               (w, Err e) \<Rightarrow> (w, Err (StoreOpenFailed e))
             | (w, Panic) \<Rightarrow> (w, Panic)
             | (w, Ok s) \<Rightarrow> (w, and_then (wrap_err StoreFailed (store_Test s (to_bytes item)))
                               (\<lambda>present. Ok (if present then Present else Absent))))"

definition runCheckpoint :: "World \<Rightarrow> string list \<Rightarrow> World \<times> (fatal, printed) outcome" where
  "runCheckpoint w args = with_flags [''f''] any_value w args (\<lambda>as rest.
     let path = flag_value ''f'' '''' as
     in if path = [] then (w, Err NoFile)
        else case store_Open w path of
               (w, Err e) \<Rightarrow> (w, Err (StoreOpenFailed e))
             | (w, Panic) \<Rightarrow> (w, Panic)
             | (w, Ok s) \<Rightarrow>
                 (case store_Checkpoint w s of
                    (w, s, Ok _) \<Rightarrow> (w, Ok CheckpointWritten)
                  | (w, s, Err e) \<Rightarrow> (w, Err (StoreFailed e))
                  | (w, s, Panic) \<Rightarrow> (w, Panic)))"

text \<open>The arguments are \<open>os.Args[1:]\<close>.\<close>

definition main :: "World \<Rightarrow> string list \<Rightarrow> World \<times> (fatal, printed) outcome" where
  "main w argv =
     (case argv of
        [] \<Rightarrow> (w, Err NoCommand)
      | cmd # rest \<Rightarrow>
          let args = reorderFlags rest
          in if cmd = ''add'' then runAdd w args
             else if cmd = ''check'' then runCheck w args
             else if cmd = ''info'' then runInfo w args
             else if cmd = ''store-add'' then runStoreAdd w args
             else if cmd = ''store-check'' then runStoreCheck w args
             else if cmd = ''checkpoint'' then runCheckpoint w args
             else (w, Err (UnknownCommand cmd)))"

section \<open>Reordering\<close>

text \<open>The loop without its accumulators.\<close>

definition flags_of :: "string list \<Rightarrow> string list" where
  "flags_of args = fst (reorder_loop [] [] args)"

definition positionals_of :: "string list \<Rightarrow> string list" where
  "positionals_of args = snd (reorder_loop [] [] args)"

lemma reorder_loop_acc:
  "reorder_loop flags pos args = (flags @ flags_of args, pos @ positionals_of args)"
proof -
  have "reorder_loop flags pos args = (flags @ fst (reorder_loop [] [] args), pos @ snd (reorder_loop [] [] args))"
    for flags pos
  proof (induction args arbitrary: flags pos rule: length_induct)
    case (1 args)
    show ?case
    proof (cases args)
      case (Cons a rest)
      have rest: "reorder_loop fl po rest
          = (fl @ fst (reorder_loop [] [] rest), po @ snd (reorder_loop [] [] rest))"
        and tl_rest: "reorder_loop fl po (tl rest)
          = (fl @ fst (reorder_loop [] [] (tl rest)), po @ snd (reorder_loop [] [] (tl rest)))" for fl po
        by (rule "1.IH" [rule_format], simp add: Cons)+
      consider "is_flag a" "takes_value a rest" | "is_flag a" "\<not> takes_value a rest" | "\<not> is_flag a"
        by blast
      then show ?thesis
      proof cases
        case 1
        then show ?thesis
          using tl_rest [of "flags @ [a, hd rest]" pos] tl_rest [of "[a, hd rest]" "[]"]
          by (simp only: Cons reorder_loop.simps if_True fst_conv snd_conv append_assoc append.simps)
      next
        case 2
        then show ?thesis
          using rest [of "flags @ [a]" pos] rest [of "[a]" "[]"]
          by (simp only: Cons reorder_loop.simps if_True if_False fst_conv snd_conv append_assoc append.simps)
      next
        case 3
        then show ?thesis
          using rest [of flags "pos @ [a]"] rest [of "[]" "[a]"]
          by (simp only: Cons reorder_loop.simps if_False fst_conv snd_conv append_assoc append.simps)
      qed
    qed simp
  qed
  then show ?thesis unfolding flags_of_def positionals_of_def .
qed

lemma split_Nil [simp]: "flags_of [] = []" "positionals_of [] = []"
  by (simp_all add: flags_of_def positionals_of_def)

lemma split_cons:
  "(flags_of (a # rest), positionals_of (a # rest)) =
     (if is_flag a then
        if takes_value a rest then (a # hd rest # flags_of (tl rest), positionals_of (tl rest))
        else (a # flags_of rest, positionals_of rest)
      else (flags_of rest, a # positionals_of rest))"
proof -
  have "(flags_of (a # rest), positionals_of (a # rest)) = reorder_loop [] [] (a # rest)"
    by (simp only: flags_of_def positionals_of_def prod.collapse)
  then show ?thesis
    by (simp only: reorder_loop.simps(2) append_Nil append_Cons
        reorder_loop_acc [of "[a, hd rest]"] reorder_loop_acc [of "[a]"] reorder_loop_acc [of _ "[a]"])
qed

lemma split_Cons:
  "flags_of (a # rest) = (if is_flag a then if takes_value a rest then a # hd rest # flags_of (tl rest)
      else a # flags_of rest else flags_of rest)"
  "positionals_of (a # rest) = (if is_flag a then if takes_value a rest then positionals_of (tl rest)
      else positionals_of rest else a # positionals_of rest)"
  using split_cons [of a rest] by (simp_all split: if_splits)

lemma reorderFlags_split: "reorderFlags args = flags_of args @ positionals_of args"
  by (simp add: reorderFlags_def reorder_loop_acc)

lemma args_induct [case_names Nil paired lone positional]:
  assumes "P []"
    and "\<And>a v rest. is_flag a \<Longrightarrow> takes_value a (v # rest) \<Longrightarrow> P rest \<Longrightarrow> P (a # v # rest)"
    and "\<And>a rest. is_flag a \<Longrightarrow> \<not> takes_value a rest \<Longrightarrow> P rest \<Longrightarrow> P (a # rest)"
    and "\<And>a rest. \<not> is_flag a \<Longrightarrow> P rest \<Longrightarrow> P (a # rest)"
  shows "P args"
proof (induction args rule: length_induct)
  case (1 args)
  show ?case
  proof (cases args)
    case (Cons a rest)
    have rest: "P rest" "P (tl rest)" using "1.IH" Cons by auto
    show ?thesis
    proof (cases "is_flag a \<and> takes_value a rest")
      case True
      then obtain v r where "rest = v # r" by (cases rest) (auto simp: takes_value_def)
      then show ?thesis using True rest Cons assms(2) by simp
    next
      case False
      then show ?thesis using rest Cons assms(3,4) by blast
    qed
  qed (simp add: assms(1))
qed

lemma split_mset: "mset (flags_of args) + mset (positionals_of args) = mset args"
  by (induction args rule: args_induct) (simp_all add: split_Cons)

lemma positionals_no_flag: "p \<in> set (positionals_of args) \<Longrightarrow> \<not> is_flag p"
  by (induction args rule: args_induct) (auto simp: split_Cons)

lemma positionals_subseq: "subseq (positionals_of args) args"
  by (induction args rule: args_induct) (auto simp: split_Cons)

lemma only_positionals: "list_all (\<lambda>a. \<not> is_flag a) ps \<Longrightarrow> flags_of ps = [] \<and> positionals_of ps = ps"
  by (induction ps) (simp_all add: split_Cons)

lemma flags_of_first: "rest \<noteq> [] \<Longrightarrow> is_flag (hd rest) \<Longrightarrow> flags_of rest \<noteq> [] \<and> hd (flags_of rest) = hd rest"
  by (cases rest) (simp_all add: split_Cons)

lemma takes_value_append:
  assumes "\<not> takes_value a rest" "rest \<noteq> [] \<or> ps = []"
  shows "\<not> takes_value a (flags_of rest @ ps)"
  using assms flags_of_first [of rest] by (cases rest) (auto simp: takes_value_def)

lemma reorder_again:
  assumes "list_all (\<lambda>a. \<not> is_flag a) ps"
  shows "flags_of (flags_of args @ ps) @ positionals_of (flags_of args @ ps) = flags_of args @ ps"
proof (induction args rule: args_induct)
  case Nil
  then show ?case using only_positionals [OF assms] by simp
next
  case (paired a v rest)
  then have "takes_value a (v # flags_of rest @ ps)" by (simp add: takes_value_def)
  with paired show ?case by (simp add: split_Cons)
next
  case (lone a rest)
  show ?case
  proof (cases "takes_value a (flags_of rest @ ps)")
    case True
    with lone(2) takes_value_append [OF lone(2), of ps] have "rest = []" "ps \<noteq> []" by auto
    with True lone(1) show ?thesis
      using only_positionals [of "tl ps"] assms by (cases ps) (simp_all add: split_Cons)
  next
    case False
    with lone show ?thesis by (simp add: split_Cons)
  qed
next
  case (positional a rest)
  then show ?case by (simp add: split_Cons)
qed

section \<open>Positional arguments\<close>

abbreviation positional :: "string list \<Rightarrow> bool" where
  "positional ps \<equiv> list_all (\<lambda>a. \<not> is_flag a) ps"

lemma split_prefix:
  "positional ps \<Longrightarrow> flags_of (ps @ args) = flags_of args"
  "positional ps \<Longrightarrow> positionals_of (ps @ args) = ps @ positionals_of args"
  by (induction ps) (simp_all add: split_Cons)

lemma reorder_pair:
  assumes "positional ps" "positional qs" "is_flag a" "CHR ''='' \<notin> set a" "\<not> is_flag v"
  shows "reorderFlags (ps @ a # v # qs) = a # v # ps @ qs"
  using assms only_positionals [OF assms(2)]
  by (simp add: reorderFlags_split split_prefix split_Cons takes_value_def)

lemma reorder_pairs:
  assumes "is_flag a" "CHR ''='' \<notin> set a" "\<not> is_flag v" "is_flag b" "CHR ''='' \<notin> set b" "\<not> is_flag u"
  shows "reorderFlags [a, v, b, u] = [a, v, b, u]"
  using assms by (simp add: reorderFlags_split split_Cons takes_value_def)

lemma parse_positional: "positional ps \<Longrightarrow> flag_Parse formal valid ps = Ok ([], ps)"
  by (rule parse_no_flags) (cases ps; auto simp: is_flag_def)

lemma flag_f [simp]: "is_flag ''-f''" "is_flag ''-item''"
  by (simp_all add: is_flag_def)

lemma parse_f:
  assumes "positional ps" "formal ''f''" "valid ''f'' p"
  shows "flag_Parse formal valid (''-f'' # p # ps) = Ok ([(''f'', p)], ps)"
  using assms parse_positional [OF assms(1)] by (simp add: flag_body_def)

definition plain_path :: "string \<Rightarrow> bool" where
  "plain_path p \<longleftrightarrow> p \<noteq> [] \<and> \<not> is_flag p"

definition plain_item :: "string \<Rightarrow> bool" where
  "plain_item x \<longleftrightarrow> x \<noteq> [] \<and> \<not> is_flag x \<and> length x < 2 ^ 32"

lemma plain_items_positional: "list_all plain_item xs \<Longrightarrow> positional xs"
  by (auto simp: list_all_iff plain_item_def)

lemma with_f:
  assumes "positional xs" "plain_path p" "''f'' \<in> set names" "valid ''f'' p"
  shows "with_flags names valid w (reorderFlags (xs @ [''-f'', p])) body = body [(''f'', p)] xs"
  using assms parse_f [OF assms(1), of "\<lambda>n. n \<in> set names" valid p] reorder_pair [OF assms(1), of "[]" "''-f''" p]
  by (simp add: with_flags_def plain_path_def)

lemma with_f_item:
  assumes "plain_path p" "\<not> is_flag x"
  shows "with_flags [''f'', ''item''] any_value w (reorderFlags [''-f'', p, ''-item'', x]) body
     = body [(''f'', p), (''item'', x)] []"
  using assms reorder_pairs [of "''-f''" p "''-item''" x]
  by (simp add: with_flags_def plain_path_def flag_body_def any_value_def)

section \<open>Store commands on a device that may refuse writes\<close>

text \<open>The file holds whole records, then possibly a torn one, and they determine a filter with \<open>X\<close>.\<close>

definition disk_covers :: "World \<Rightarrow> string \<Rightarrow> bytes set \<Rightarrow> bool" where
  "disk_covers w p X \<longleftrightarrow> (\<exists>m rs t g. w_files w p = Some (store_file m rs @ t) \<and> list_all rec_ok rs
     \<and> parseRecord t = None \<and> recovered m rs = Ok (Some g, bf_k g) \<and> wf_bloom g \<and> fits32 g
     \<and> (\<forall>x \<in> X. bf_Test g x))"

lemma covers_torn_disk:
  assumes "store_covers w s m rs X" "w_files w' p = Some (store_file m rs @ t)" "parseRecord t = None"
  shows "disk_covers w' p X"
  unfolding disk_covers_def
  using assms by (intro exI [of _ m] exI [of _ rs] exI [of _ t]) (auto simp: store_covers_def store_log_def)

lemma parse_Nil: "parseRecord [] = None"
  by (simp add: parseRecord_def)

lemma covers_disk: "store_covers w s m rs X \<Longrightarrow> disk_covers w (st_path s) X"
  using covers_torn_disk [of w s m rs X w "st_path s" "[]"] store_log_file [of w s m rs] parse_Nil
  by (simp add: store_covers_def)

lemma disk_covers_mono: "disk_covers w p X \<Longrightarrow> Y \<subseteq> X \<Longrightarrow> disk_covers w p Y"
  unfolding disk_covers_def by blast

lemma disk_Open:
  assumes "disk_covers w p X"
  shows "\<exists>w' s m rs. store_Open w p = (w', Ok s) \<and> store_covers w' s m rs X \<and> st_path s = p"
proof -
  from assms obtain m rs t g where f: "w_files w p = Some (store_file m rs @ t)" "list_all rec_ok rs"
      "parseRecord t = None"
    and g: "recovered m rs = Ok (Some g, bf_k g)" "wf_bloom g" "fits32 g" "\<forall>x \<in> X. bf_Test g x"
    by (auto simp: disk_covers_def)
  from Open_recovered [OF f g(1-3) refl] obtain w' s where "store_Open w p = (w', Ok s)"
    "store_sync w' s m rs" "st_filter s = Some g" "st_path s = p" by blast
  with g show ?thesis
    by (intro exI [of _ w'] exI [of _ s] exI [of _ m] exI [of _ rs])
      (auto simp: store_covers_def store_sync_def)
qed

lemma writeRecord_torn:
  assumes "st_f s = Some f" "fl_path f = st_path s" "at_end w f (store_file m rs)" "rec_ok r"
    and "writeRecord w s (rec_typ r) (rec_payload r) = (w', s', res)" "res \<noteq> Ok ()"
  shows "\<exists>t. w_files w' (st_path s) = Some (store_file m rs @ t) \<and> parseRecord t = None"
    and "st_path s' = st_path s"
proof -
  obtain w1 f1 ok where wr: "file_Write w f (enc_rec r) = (w1, f1, ok)"
    by (cases "file_Write w f (enc_rec r)") auto
  with assms(1,5,6) have eq: "\<not> ok" "w' = w1" "s' = s\<lparr>st_f := Some f1\<rparr>"
    by (auto simp: writeRecord_def enc_rec_def split: if_splits)
  show "st_path s' = st_path s" by (simp add: eq)
  from wr eq(1) have "file_Write w f (enc_rec r) = (w1, f1, False)" by simp
  from file_Write_torn [OF assms(3) this] obtain n where "n < length (enc_rec r)"
    "at_end w1 f1 (store_file m rs @ take n (enc_rec r))" "fl_path f1 = fl_path f" by blast
  with assms(2,4) eq parse_torn [of r n]
  show "\<exists>t. w_files w' (st_path s) = Some (store_file m rs @ t) \<and> parseRecord t = None"
    by (auto simp: at_end_def)
qed

lemma covers_write_failed:
  assumes "store_covers w s m rs X" "rec_ok r" "st_f s' = st_f s" "st_path s' = st_path s"
    and "writeRecord w s' (rec_typ r) (rec_payload r) = (w', s'', res)" "res \<noteq> Ok ()"
  shows "disk_covers w' (st_path s) X" and "st_path s'' = st_path s"
proof -
  from assms(1) obtain f where "st_f s = Some f" "fl_path f = st_path s" "at_end w f (store_file m rs)"
    by (auto simp: store_covers_def store_log_def)
  then have f: "st_f s' = Some f" "fl_path f = st_path s'" "at_end w f (store_file m rs)"
    using assms(3,4) by simp_all
  note torn = writeRecord_torn [OF f assms(2,5,6)]
  show "st_path s'' = st_path s" using torn(2) assms(4) by simp
  show "disk_covers w' (st_path s) X"
    using torn(1) assms(4) covers_torn_disk [OF assms(1)] by auto
qed

lemma covers_add_failed:
  assumes "store_covers w s m rs X" "length x < 2 ^ 32" "store_Add w s x = (w', s', res)" "res \<noteq> Ok ()"
  shows "disk_covers w' (st_path s) X"
proof -
  from assms(1) obtain bf where bf: "st_filter s = Some bf" by (auto simp: store_covers_def)
  let ?s = "s\<lparr>st_filter := Some (bf_Add bf x)\<rparr>"
  have "writeRecord w ?s (rec_typ (add_rec x)) (rec_payload (add_rec x)) = (w', s', res)"
    using assms(3) bf by (simp add: store_Add_def)
  from covers_write_failed(1) [OF assms(1) rec_ok_add [OF assms(2)] _ _ this assms(4)]
  show ?thesis by simp
qed

lemma covers_checkpoint_failed:
  assumes "store_covers w s m rs X" "store_Checkpoint w s = (w', s', res)" "res \<noteq> Ok ()"
  shows "disk_covers w' (st_path s) X"
proof -
  from assms(1) obtain bf where bf: "st_filter s = Some bf" "wf_bloom bf" "fits32 bf"
    by (auto simp: store_covers_def store_log_def)
  let ?b = "the (Marshal (Some bf))"
  have ok: "rec_ok (cp_rec ?b)" using marshal_size [OF bf(2,3)] by (simp add: rec_ok_def)
  have "writeRecord w s (rec_typ (cp_rec ?b)) (rec_payload (cp_rec ?b)) = (w', s', res)"
    using assms(2) bf by (simp add: store_Checkpoint_def)
  from covers_write_failed(1) [OF assms(1) ok refl refl this assms(3)] show ?thesis .
qed

lemma writeRecord_path: "writeRecord w s ty p = (w', s', r) \<Longrightarrow> st_path s' = st_path s"
  by (auto simp: writeRecord_def split: option.splits prod.splits)

lemma store_Add_path: "store_Add w s x = (w', s', r) \<Longrightarrow> st_path s' = st_path s"
  by (auto simp: store_Add_def split: option.splits dest!: writeRecord_path)

lemma add_all_covers:
  assumes "store_covers w s m rs X" "list_all (\<lambda>x. length x < 2 ^ 32) items"
    and "store_add_all w s items = (w', s', res)"
  shows "disk_covers w' (st_path s) (if res = Ok () then X \<union> to_bytes ` set items else X)"
  using assms
proof (induction items arbitrary: w s rs X)
  case Nil
  then show ?case using covers_disk [of w s m rs X] by auto
next
  case (Cons x items)
  obtain w1 s1 r1 where step: "store_Add w s (to_bytes x) = (w1, s1, r1)"
    by (cases "store_Add w s (to_bytes x)") auto
  have len: "length (to_bytes x) < 2 ^ 32" "list_all (\<lambda>x. length x < 2 ^ 32) items"
    using Cons.prems(2) by (simp_all add: to_bytes_def)
  note path = store_Add_path [OF step]
  show ?case
  proof (cases "r1 = Ok ()")
    case True
    with step have ok: "store_Add w s (to_bytes x) = (w1, s1, Ok ())" by simp
    have rest: "store_add_all w1 s1 items = (w', s', res)" using Cons.prems(3) ok by simp
    from Cons.IH [OF store_covers_add [OF Cons.prems(1) len(1) ok] len(2) rest]
    have "disk_covers w' (st_path s)
        (if res = Ok () then insert (to_bytes x) X \<union> to_bytes ` set items else insert (to_bytes x) X)"
      by (simp add: path)
    then show ?thesis by (rule disk_covers_mono) auto
  next
    case False
    with step Cons.prems(3) have "res = r1" "w' = w1" by (cases r1; auto)+
    with False covers_add_failed [OF Cons.prems(1) len(1) step False] show ?thesis by simp
  qed
qed

text \<open>The commands of a session on the store \<open>p\<close>. Items stand before the flag.\<close>

datatype store_cmd = CmdAdd "string list" | CmdCheckpoint | CmdCheck string

fun cmd_line :: "string \<Rightarrow> store_cmd \<Rightarrow> string list" where
  "cmd_line p (CmdAdd items) = ''store-add'' # items @ [''-f'', p]"
| "cmd_line p CmdCheckpoint = [''checkpoint'', ''-f'', p]"
| "cmd_line p (CmdCheck x) = [''store-check'', ''-f'', p, ''-item'', x]"

fun cmd_ok :: "store_cmd \<Rightarrow> bool" where
  "cmd_ok (CmdAdd items) \<longleftrightarrow> list_all plain_item items"
| "cmd_ok CmdCheckpoint \<longleftrightarrow> True"
| "cmd_ok (CmdCheck x) \<longleftrightarrow> plain_item x"

text \<open>The items that a command has acknowledged, if it printed that they were added.\<close>

fun acknowledged :: "store_cmd \<Rightarrow> (fatal, printed) outcome \<Rightarrow> string set" where
  "acknowledged (CmdAdd items) (Ok (Added n)) = set items"
| "acknowledged c r = {}"

fun run_cmds :: "World \<Rightarrow> string \<Rightarrow> store_cmd list \<Rightarrow> World \<times> string set" where
  "run_cmds w p [] = (w, {})"
| "run_cmds w p (c # cs) =
     (case main w (cmd_line p c) of (w, r) \<Rightarrow>
      case run_cmds w p cs of (w, X) \<Rightarrow> (w, acknowledged c r \<union> X))"

text \<open>Before the first item is acknowledged the file may be missing, or cut inside its header.\<close>

definition session :: "World \<Rightarrow> string \<Rightarrow> string set \<Rightarrow> bool" where
  "session w p X \<longleftrightarrow> disk_covers w p (to_bytes ` X)
     \<or> X = {} \<and> (case w_files w p of None \<Rightarrow> True | Some bs \<Rightarrow> length bs < headerSize)"

lemma main_store_add:
  assumes "plain_path p" "positional items"
  shows "main w (cmd_line p (CmdAdd items)) =
    (if items = [] then (w, Err NoItems)
     else case (if w_files w p = None then store_Create w p defaultM defaultK else store_Open w p) of
       (w, Err e) \<Rightarrow> (w, Err (StoreOpenFailed e))
     | (w, Panic) \<Rightarrow> (w, Panic)
     | (w, Ok s) \<Rightarrow>
         (case store_add_all w s items of
            (w, s, Ok _) \<Rightarrow> (w, Ok (Added (length items)))
          | (w, s, Err e) \<Rightarrow> (w, Err (StoreFailed e))
          | (w, s, Panic) \<Rightarrow> (w, Panic)))"
  using assms(1)
  by (simp add: main_def Let_def runStoreAdd_def with_f [OF assms(2,1)] uint_value_def
      flag_value_def flag_uint_def flag_items_def plain_path_def)

lemma main_checkpoint:
  assumes "plain_path p"
  shows "main w (cmd_line p CmdCheckpoint) =
    (case store_Open w p of
       (w, Err e) \<Rightarrow> (w, Err (StoreOpenFailed e))
     | (w, Panic) \<Rightarrow> (w, Panic)
     | (w, Ok s) \<Rightarrow>
         (case store_Checkpoint w s of
            (w, s, Ok _) \<Rightarrow> (w, Ok CheckpointWritten)
          | (w, s, Err e) \<Rightarrow> (w, Err (StoreFailed e))
          | (w, s, Panic) \<Rightarrow> (w, Panic)))"
  using assms with_f [of "[]" p "[''f'']" any_value w]
  by (simp add: main_def Let_def runCheckpoint_def any_value_def flag_value_def plain_path_def)

lemma main_store_check:
  assumes "plain_path p" "plain_item x"
  shows "main w (cmd_line p (CmdCheck x)) =
    (case store_Open w p of
       (w, Err e) \<Rightarrow> (w, Err (StoreOpenFailed e))
     | (w, Panic) \<Rightarrow> (w, Panic)
     | (w, Ok s) \<Rightarrow> (w, and_then (wrap_err StoreFailed (store_Test s (to_bytes x)))
                       (\<lambda>present. Ok (if present then Present else Absent))))"
  using assms with_f_item [of p x]
  by (simp add: main_def Let_def runStoreCheck_def flag_value_def plain_path_def plain_item_def)

lemma Open_short:
  assumes "case w_files w p of None \<Rightarrow> True | Some bs \<Rightarrow> length bs < headerSize"
  shows "\<exists>e. store_Open w p = (w, Err e)"
  using assms by (auto simp: store_Open_def os_ReadFile_def split: option.splits)

lemma Create_failed:
  assumes "store_Create w p m k = (w', r)" "\<not> (\<exists>s. r = Ok s)" "w_files w p = None"
  shows "case w_files w' p of None \<Rightarrow> True | Some bs \<Rightarrow> length bs < headerSize"
proof -
  let ?w = "fst (os_Create w p)" and ?f = "snd (os_Create w p)"
  have at: "at_end ?w ?f []" "fl_path ?f = p" by (simp_all add: os_Create_def at_end_def)
  obtain w1 f1 ok where wr: "file_Write ?w ?f (header_bytes m) = (w1, f1, ok)"
    by (cases "file_Write ?w ?f (header_bytes m)") auto
  show ?thesis
  proof (cases "\<exists>bf. bf_New m k = Ok bf")
    case True
    then have ok: "\<not> ok" "w' = w1"
      using assms(1,2) wr by (auto simp: store_Create_def split: prod.splits if_splits)
    with wr have "file_Write ?w ?f (header_bytes m) = (w1, f1, False)" by simp
    from file_Write_torn [OF at(1) this] at(2) ok(2) show ?thesis
      by (auto simp: at_end_def)
  next
    case False
    then have "w' = w" using assms(1) by (auto simp: store_Create_def split: outcome.splits)
    with assms(3) show ?thesis by simp
  qed
qed

lemma default_small: "unat defaultM < 2 ^ 32" "unat defaultK < 2 ^ 32"
  by (simp_all add: defaultM_def defaultK_def)

lemma session_add_all:
  assumes "store_covers w s m rs (to_bytes ` X)" "st_path s = p" "list_all plain_item items"
    and "store_add_all w s items = (w', s', res)"
  shows "session w' p (if res = Ok () then X \<union> set items else X)"
proof -
  have "list_all (\<lambda>x. length x < 2 ^ 32) items"
    using assms(3) by (auto simp: list_all_iff plain_item_def)
  from add_all_covers [OF assms(1) this assms(4)] assms(2)
  show ?thesis by (auto simp: session_def image_Un)
qed

lemma session_CmdAdd:
  assumes "session w p X" "plain_path p" "list_all plain_item items"
    and "main w (cmd_line p (CmdAdd items)) = (w', r)"
  shows "session w' p (X \<union> acknowledged (CmdAdd items) r)"
proof (cases "items = []")
  case True
  with assms show ?thesis
    using main_store_add [OF assms(2) plain_items_positional [OF assms(3)], of w] by auto
next
  case nonempty: False
  let ?open = "if w_files w p = None then store_Create w p defaultM defaultK else store_Open w p"
  obtain w1 o1 where op: "?open = (w1, o1)" by (cases ?open) auto
  have run: "main w (cmd_line p (CmdAdd items)) = (case o1 of
       Err e \<Rightarrow> (w1, Err (StoreOpenFailed e)) | Panic \<Rightarrow> (w1, Panic)
     | Ok s \<Rightarrow> (case store_add_all w1 s items of
            (w, s, Ok _) \<Rightarrow> (w, Ok (Added (length items)))
          | (w, s, Err e) \<Rightarrow> (w, Err (StoreFailed e))
          | (w, s, Panic) \<Rightarrow> (w, Panic)))"
    using main_store_add [OF assms(2) plain_items_positional [OF assms(3)], of w] nonempty op
    by (cases o1) simp_all
  show ?thesis
  proof (cases "\<exists>s. o1 = Ok s")
    case True
    then obtain s where s: "o1 = Ok s" by blast
    obtain w2 s2 res where adds: "store_add_all w1 s items = (w2, s2, res)"
      by (cases "store_add_all w1 s items") auto
    have "\<exists>m rs. store_covers w1 s m rs (to_bytes ` X) \<and> st_path s = p"
    proof (cases "w_files w p")
      case None
      then have "X = {}" using assms(1) by (auto simp: session_def disk_covers_def)
      with None op s store_Create_covers [OF _ default_small] store_Create_log(3) [OF _ default_small]
      show ?thesis by fastforce
    next
      case (Some bs)
      with op s have open': "store_Open w p = (w1, Ok s)" by simp
      then have "disk_covers w p (to_bytes ` X)"
        using assms(1) Open_short [of w p] by (auto simp: session_def)
      with disk_Open [OF this] open' show ?thesis by auto
    qed
    then obtain m rs where cov: "store_covers w1 s m rs (to_bytes ` X)" "st_path s = p" by blast
    from session_add_all [OF cov assms(3) adds] run s adds assms(4)
    show ?thesis by (cases res) auto
  next
    case False
    with run assms(4) have eq: "w' = w1" "acknowledged (CmdAdd items) r = {}" by (cases o1; auto)+
    have "session w1 p X"
    proof (cases "w_files w p")
      case None
      then have "X = {}" using assms(1) by (auto simp: session_def disk_covers_def)
      with None op False Create_failed [of w p defaultM defaultK w1 o1]
      show ?thesis by (simp add: session_def)
    next
      case (Some bs)
      with op have open': "store_Open w p = (w1, o1)" by simp
      with False disk_Open [of w p "to_bytes ` X"] have "\<not> disk_covers w p (to_bytes ` X)" by auto
      with assms(1) Open_short [of w p] open' show ?thesis by (auto simp: session_def)
    qed
    with eq show ?thesis by simp
  qed
qed

lemma session_CmdCheckpoint:
  assumes "session w p X" "plain_path p" "main w (cmd_line p CmdCheckpoint) = (w', r)"
  shows "session w' p X"
proof (cases "disk_covers w p (to_bytes ` X)")
  case True
  from disk_Open [OF this] obtain w1 s m rs where
    op: "store_Open w p = (w1, Ok s)" and cov: "store_covers w1 s m rs (to_bytes ` X)" "st_path s = p"
    by blast
  obtain w2 s2 res where cp: "store_Checkpoint w1 s = (w2, s2, res)"
    by (cases "store_Checkpoint w1 s") auto
  have path: "st_path s2 = st_path s"
    using cp by (auto simp: store_Checkpoint_def Let_def dest: writeRecord_path)
  have "disk_covers w2 p (to_bytes ` X)"
  proof (cases "res = Ok ()")
    case True
    with cp store_covers_checkpoint [OF cov(1)] covers_disk [of w2 s2 m _ "to_bytes ` X"] path cov(2)
    show ?thesis by fastforce
  next
    case False
    from covers_checkpoint_failed [OF cov(1) cp False] cov(2) show ?thesis by simp
  qed
  moreover have "w' = w2"
    using assms(3) main_checkpoint [OF assms(2), of w] op cp by (cases res) simp_all
  ultimately show ?thesis by (simp add: session_def)
next
  case False
  with assms(1) Open_short [of w p] assms(3) main_checkpoint [OF assms(2), of w]
  show ?thesis by (auto simp: session_def)
qed

lemma session_CmdCheck:
  assumes "session w p X" "plain_path p" "plain_item x"
    and "main w (cmd_line p (CmdCheck x)) = (w', r)"
  shows "session w' p X" and "x \<in> X \<Longrightarrow> r = Ok Present"
proof -
  have "session w' p X \<and> (x \<in> X \<longrightarrow> r = Ok Present)"
  proof (cases "disk_covers w p (to_bytes ` X)")
    case True
    from disk_Open [OF this] obtain w1 s m rs where
      op: "store_Open w p = (w1, Ok s)" and cov: "store_covers w1 s m rs (to_bytes ` X)" "st_path s = p"
      by blast
    from cov(1) obtain bf where "st_filter s = Some bf" "\<forall>y \<in> to_bytes ` X. bf_Test bf y"
      by (auto simp: store_covers_def)
    with op assms(4) main_store_check [OF assms(2,3), of w] covers_disk [OF cov(1)] cov(2)
    show ?thesis by (auto simp: store_Test_def session_def)
  next
    case False
    with assms(1) Open_short [of w p] assms(4) main_store_check [OF assms(2,3), of w]
    show ?thesis by (auto simp: session_def)
  qed
  then show "session w' p X" "x \<in> X \<Longrightarrow> r = Ok Present" by auto
qed

lemma session_run:
  assumes "session w p X" "plain_path p" "list_all cmd_ok cs" "run_cmds w p cs = (w', Y)"
  shows "session w' p (X \<union> Y)"
  using assms
proof (induction cs arbitrary: w X Y)
  case (Cons c cs)
  obtain w1 r where step: "main w (cmd_line p c) = (w1, r)" by (cases "main w (cmd_line p c)") auto
  obtain Z where rest: "run_cmds w1 p cs = (w', Z)" and eq: "Y = acknowledged c r \<union> Z"
    using Cons.prems(4) step by (auto split: prod.splits)
  have "session w1 p (X \<union> acknowledged c r)"
    using Cons.prems(1,3) session_CmdAdd [OF Cons.prems(1,2)] session_CmdCheckpoint [OF Cons.prems(1,2)]
      session_CmdCheck(1) [OF Cons.prems(1,2)] step
    by (cases c) auto
  have "list_all cmd_ok cs" using Cons.prems(3) by simp
  from Cons.IH [OF \<open>session w1 p _\<close> Cons.prems(2) this rest] eq show ?case by (simp add: Un_assoc)
qed simp

section \<open>Add and check on a filter file\<close>

lemma foldl_Add_wf:
  "wf_bloom f \<Longrightarrow> fits32 f \<Longrightarrow> wf_bloom (foldl (\<lambda>f it. bf_Add f (to_bytes it)) f items)
     \<and> fits32 (foldl (\<lambda>f it. bf_Add f (to_bytes it)) f items)"
  by (induction items arbitrary: f) (simp_all add: bf_Add_wf fits32_add)

lemma foldl_Add_mono:
  "wf_bloom f \<Longrightarrow> bf_Test f x \<Longrightarrow> bf_Test (foldl (\<lambda>f it. bf_Add f (to_bytes it)) f items) x"
  by (induction items arbitrary: f) (simp_all add: bf_Add_wf bloom.test_mono)

lemma foldl_Add_test:
  "wf_bloom f \<Longrightarrow> y \<in> set items \<Longrightarrow>
     bf_Test (foldl (\<lambda>f it. bf_Add f (to_bytes it)) f items) (to_bytes y)"
proof (induction items arbitrary: f)
  case (Cons it items)
  then show ?case
    using foldl_Add_mono [of "bf_Add f (to_bytes it)" "to_bytes it" items]
    by (auto simp: bf_Add_wf bloom.test_added)
qed simp

lemma foldl_Add_length:
  "length (bf_bits (foldl (\<lambda>f it. bf_Add f (to_bytes it)) f items)) = length (bf_bits f)"
  by (induction items arbitrary: f) simp_all

lemma os_WriteFile_ok: "os_WriteFile w p data = (w', True) \<Longrightarrow> w_files w' p = Some data"
  using file_Write_ok [of "fst (os_Create w p)" "snd (os_Create w p)" "[]" data w']
  by (auto simp: os_WriteFile_def os_Create_def at_end_def split: prod.splits)

lemma main_add:
  assumes "plain_path p" "positional items" "items \<noteq> []"
  shows "main w (''add'' # items @ [''-f'', p]) =
    (case (case w_files w p of
             Some data \<Rightarrow> wrap_err UnmarshalFailed (Unmarshal data)
           | None \<Rightarrow> wrap_err NewFailed (bf_New defaultM defaultK)) of
       Err e \<Rightarrow> (w, Err e)
     | Panic \<Rightarrow> (w, Panic)
     | Ok f \<Rightarrow>
         (case os_WriteFile w p (the (Marshal (Some (foldl (\<lambda>f it. bf_Add f (to_bytes it)) f items)))) of
            (w, ok) \<Rightarrow> if \<not> ok then (w, Err WriteFailed) else (w, Ok (Added (length items)))))"
  using assms(1,3)
  by (cases "w_files w p")
    (simp_all add: main_def Let_def runAdd_def with_f [OF assms(2,1)] any_value_def flag_value_def
      flag_items_def plain_path_def os_ReadFile_def split: outcome.split prod.split)

lemma main_check:
  assumes "plain_path p" "plain_item x"
  shows "main w [''check'', ''-f'', p, ''-item'', x] =
    (case w_files w p of
       None \<Rightarrow> (w, Err ReadFailed)
     | Some data \<Rightarrow> (w, and_then (wrap_err UnmarshalFailed (Unmarshal data)) (\<lambda>f.
         Ok (if bf_Test f (to_bytes x) then Present else Absent))))"
  using assms with_f_item [of p x]
  by (cases "w_files w p")
    (simp_all add: main_def Let_def runCheck_def flag_value_def plain_path_def plain_item_def os_ReadFile_def)

lemma loaded_wf:
  assumes "(case w_files w p of
             Some data \<Rightarrow> wrap_err UnmarshalFailed (Unmarshal data)
           | None \<Rightarrow> wrap_err NewFailed (bf_New defaultM defaultK)) = Ok f"
  shows "wf_bloom f" "fits32 f"
proof -
  have "wf_bloom f \<and> fits32 f"
  proof (cases "w_files w p")
    case None
    with assms bf_New_wf [of defaultM defaultK f] default_small show ?thesis
      by (auto simp: fits32_def)
  next
    case (Some data)
    with assms Unmarshal_wf [of data f] show ?thesis by auto
  qed
  then show "wf_bloom f" "fits32 f" by simp_all
qed

section \<open>Properties\<close>

abbreviation empty_disk :: World where
  "empty_disk \<equiv> \<lparr>w_files = \<lambda>_. None, w_quota = None, w_sync = True\<rparr>"


lemma first_store_add:
  assumes "plain_path p" "w_files w p = None" "w_quota w = None"
  shows "snd (main w (cmd_line p (CmdAdd [''ab'']))) = Ok (Added 1)"
proof -
  have pos: "positional [''ab'']" by (simp add: is_flag_def)
  show ?thesis
    unfolding main_store_add [OF assms(1) pos]
    by (simp add: assms store_Create_def bf_New_def defaultM_def defaultK_def
        os_Create_def file_Write_def accepted_def Let_def store_Add_def writeRecord_def)
qed



lemma first_add:
  assumes "plain_path p" "w_files w p = None" "w_quota w = None"
  shows "\<exists>w'. main w (''add'' # [''ab''] @ [''-f'', p]) = (w', Ok (Added 1))"
proof -
  have pos: "positional [''ab'']" by (simp add: is_flag_def)
  show ?thesis
    unfolding main_add [OF assms(1) pos not_Cons_self2]
    by (simp add: assms bf_New_def defaultM_def defaultK_def os_WriteFile_def os_Create_def
        file_Write_def accepted_def Let_def)
qed


text \<open>C24: \<open>reorderFlags\<close> loses and invents no argument, keeps the order of the positional ones and
  puts them last, and changes nothing when applied again; so positional items may stand on
  either side of \<open>-f file\<close> in every command. A flag that is last on the line, however, is
  moved in front of a positional and takes it as its value: \<open>x y -f\<close> means \<open>-f x y\<close>.\<close>

theorem reorderFlags_moves_flags:
  "mset (reorderFlags args) = mset args
   \<and> (\<exists>fl ps. reorderFlags args = fl @ ps \<and> subseq ps args \<and> positional ps
        \<and> (\<forall>qs. positional qs \<longrightarrow> reorderFlags (qs @ args) = fl @ qs @ ps))
   \<and> reorderFlags (reorderFlags args) = reorderFlags args
   \<and> (positional xs \<and> positional ys \<and> plain_path p \<longrightarrow>
        main w (cmd # xs @ ''-f'' # p # ys) = main w (cmd # ''-f'' # p # xs @ ys))
   \<and> (positional (p # xs) \<longrightarrow> main w (cmd # p # xs @ [''-f'']) = main w (cmd # ''-f'' # p # xs))"
proof -
  have pos: "positional (positionals_of args)"
    using positionals_no_flag by (auto simp: list_all_iff)
  have "mset (reorderFlags args) = mset args"
    using split_mset [of args] by (simp add: reorderFlags_split)
  moreover have "\<exists>fl ps. reorderFlags args = fl @ ps \<and> subseq ps args \<and> positional ps
      \<and> (\<forall>qs. positional qs \<longrightarrow> reorderFlags (qs @ args) = fl @ qs @ ps)"
    using pos positionals_subseq [of args]
    by (intro exI [of _ "flags_of args"] exI [of _ "positionals_of args"])
      (simp add: reorderFlags_split split_prefix)
  moreover have "reorderFlags (reorderFlags args) = reorderFlags args"
    using reorder_again [OF pos] by (simp add: reorderFlags_split)
  moreover have "main w (cmd # xs @ ''-f'' # p # ys) = main w (cmd # ''-f'' # p # xs @ ys)"
    if "positional xs" "positional ys" "plain_path p"
    using that reorder_pair [of xs ys "''-f''" p] reorder_pair [of "[]" "xs @ ys" "''-f''" p]
    by (simp add: main_def plain_path_def)
  moreover have "main w (cmd # p # xs @ [''-f'']) = main w (cmd # ''-f'' # p # xs)"
    if "positional (p # xs)"
    using that reorder_pair [of "[]" xs "''-f''" p]
      split_prefix [of "p # xs" "[''-f'']"]
    by (simp add: main_def reorderFlags_split split_Cons takes_value_def)
  ultimately show ?thesis by blast
qed

theorem reorderFlags_moves_flags_witness:
  "main empty_disk [''add'', ''x'', ''y'', ''-f''] = main empty_disk [''add'', ''-f'', ''x'', ''y'']
   \<and> main empty_disk [''add'', ''x'', ''-f'', ''p'', ''y''] = main empty_disk [''add'', ''-f'', ''p'', ''x'', ''y'']
   \<and> reorderFlags [''x'', ''-f''] = [''-f'', ''x'']"
  using reorderFlags_moves_flags [of "[''x'', ''-f'']" "[]" "[]" "''x''" empty_disk "''add''"]
    reorderFlags_moves_flags [of "[]" "[''x'']" "[''y'']" "''p''" empty_disk "''add''"]
    reorderFlags_moves_flags [of "[]" "[''y'']" "[]" "''x''" empty_disk "''add''"]
  by (simp add: is_flag_def plain_path_def reorderFlags_def takes_value_def)

text \<open>\<open>add\<close> rewrites the filter file in place, after truncating it. When the device takes fewer
  bytes than the filter has, the command fails, the items added before are lost, and later
  commands refuse the file.\<close>

lemma failed_add_destroys:
  assumes "plain_path p" "list_all plain_item items" "items \<noteq> []"
    and "w_files w p = Some data" "Unmarshal data = Ok f"
    and "w_quota w = Some q" "q < headerSizeV2 + length (bf_bits f) + trailerV2" "plain_item x"
  shows "\<exists>w'. main w (''add'' # items @ [''-f'', p]) = (w', Err WriteFailed)
    \<and> (\<exists>d. w_files w' p = Some d \<and> length d = q)
    \<and> (\<exists>e. main w' [''check'', ''-f'', p, ''-item'', x] = (w', Err (UnmarshalFailed e)))"
proof -
  let ?g = "foldl (\<lambda>f it. bf_Add f (to_bytes it)) f items"
  obtain b where b: "Marshal (Some ?g) = Some b" by simp
  have len: "length b = headerSizeV2 + length (bf_bits f) + trailerV2"
    using b foldl_Add_length [of f items] by auto
  have wf: "wf_bloom ?g" "fits32 ?g" using Unmarshal_wf [OF assms(5)] foldl_Add_wf [of f items] by auto
  obtain w' ok where wr: "os_WriteFile w p b = (w', ok)" by (cases "os_WriteFile w p b") auto
  then have res: "\<not> ok" "w_files w' p = Some (take q b)"
    using assms(6,7) len
    by (auto simp: os_WriteFile_def os_Create_def file_Write_def Let_def accepted_def overwrite_def)
  have "main w (''add'' # items @ [''-f'', p]) = (w', Err WriteFailed)"
    unfolding main_add [OF assms(1) plain_items_positional [OF assms(2)] assms(3)]
    using assms(4,5) b wr res(1) by simp
  moreover have "\<exists>e. Unmarshal (take q b) = Err e"
    using Unmarshal_prefix [OF wf b] assms(7) len by simp
  ultimately show ?thesis
    using res(2) assms(7) len by (auto simp: main_check [OF assms(1,8)])
qed

lemma failed_add_destroys_witness:
  "\<exists>f b w'. bf_New 8 1 = Ok f \<and> Marshal (Some f) = Some b
   \<and> main \<lparr>w_files = [''b'' \<mapsto> b], w_quota = Some 5, w_sync = True\<rparr> [''add'', ''ab'', ''-f'', ''b'']
       = (w', Err WriteFailed)
   \<and> (\<exists>e. main w' [''check'', ''-f'', ''b'', ''-item'', ''x''] = (w', Err (UnmarshalFailed e)))"
proof -
  obtain f where f: "bf_New 8 1 = Ok f" by (simp add: bf_New_def)
  then have wf: "wf_bloom f" "fits32 f" using bf_New_wf [OF f] by (simp_all add: fits32_def)
  obtain b where b: "Marshal (Some f) = Some b" by simp
  have un: "Unmarshal b = Ok f" using Unmarshal_Marshal [OF wf b, of "[]"] by simp
  let ?w = "\<lparr>w_files = [''b'' \<mapsto> b], w_quota = Some 5, w_sync = True\<rparr>"
  have "\<exists>w'. main ?w (''add'' # [''ab''] @ [''-f'', ''b'']) = (w', Err WriteFailed)
    \<and> (\<exists>d. w_files w' ''b'' = Some d \<and> length d = 5)
    \<and> (\<exists>e. main w' [''check'', ''-f'', ''b'', ''-item'', ''x''] = (w', Err (UnmarshalFailed e)))"
    by (rule failed_add_destroys [where data = b and f = f])
      (simp_all add: plain_path_def plain_item_def is_flag_def un)
  with f b show ?thesis by auto
qed

end
