(* ===== verification/Float64.thy ===== *)
theory Float64
  imports Bloom_Prelude Complex_Main
begin

text \<open>
  Floating-point numbers. The formulas of the program are translated over the operations of a
  record \<open>'f Float\<close>, one field per operation that the Go code uses: arithmetic, comparisons
  (false when an operand is NaN), conversions, literals, and the functions of package \<open>math\<close>,
  whose last digits Go does not specify. A conversion to an integer type that is out of range is
  implementation-specific in Go, so \<open>fp_to_uint\<close> and \<open>fp_to_int\<close> are arbitrary functions. What is
  proved for every such record holds for \<open>float64\<close> on every platform; \<open>exact\<close> is the instance
  with real numbers, in which the formulas are judged without rounding.
\<close>

record 'f Float =
  fp_add :: "'f \<Rightarrow> 'f \<Rightarrow> 'f"
  fp_sub :: "'f \<Rightarrow> 'f \<Rightarrow> 'f"
  fp_mul :: "'f \<Rightarrow> 'f \<Rightarrow> 'f"
  fp_div :: "'f \<Rightarrow> 'f \<Rightarrow> 'f"
  fp_neg :: "'f \<Rightarrow> 'f"
  fp_lt :: "'f \<Rightarrow> 'f \<Rightarrow> bool"
  fp_le :: "'f \<Rightarrow> 'f \<Rightarrow> bool"
  fp_of_int :: "int \<Rightarrow> 'f"
  fp_to_int :: "'f \<Rightarrow> int"
  fp_to_uint :: "'f \<Rightarrow> u64"
  fp_lit :: "rat \<Rightarrow> 'f"
  fp_ln2 :: "'f"
  fp_ln2_sq :: "'f"
  fp_Log :: "'f \<Rightarrow> 'f"
  fp_Exp :: "'f \<Rightarrow> 'f"
  fp_Pow :: "'f \<Rightarrow> 'f \<Rightarrow> 'f"
  fp_Ceil :: "'f \<Rightarrow> 'f"
  fp_Round :: "'f \<Rightarrow> 'f"

text \<open>\<open>float64(x)\<close> of a \<open>uint\<close>.\<close>

definition fp_of_uint :: "'f Float \<Rightarrow> u64 \<Rightarrow> 'f" where
  "fp_of_uint F x = fp_of_int F (uint x)"

text \<open>The exact instance; \<open>math.Round\<close> rounds half away from zero, conversions truncate.\<close>

definition exact :: "real Float" where
  "exact = \<lparr>
     fp_add = (+), fp_sub = (-), fp_mul = (*), fp_div = (/), fp_neg = uminus,
     fp_lt = (<), fp_le = (\<le>), fp_of_int = of_int,
     fp_to_int = (\<lambda>x. if \<bar>x\<bar> < 2 ^ 63 then (if 0 \<le> x then \<lfloor>x\<rfloor> else \<lceil>x\<rceil>) else - (2 ^ 63)),
     fp_to_uint = (\<lambda>x. if 0 \<le> x \<and> x < 2 ^ 63 then word_of_int \<lfloor>x\<rfloor> else 2 ^ 63),
     fp_lit = of_rat, fp_ln2 = ln 2, fp_ln2_sq = ln 2 * ln 2,
     fp_Log = ln, fp_Exp = exp, fp_Pow = (powr), fp_Ceil = (\<lambda>x. of_int \<lceil>x\<rceil>),
     fp_Round = (\<lambda>x. if 0 \<le> x then of_int \<lfloor>x + 1 / 2\<rfloor> else - of_int \<lfloor>- x + 1 / 2\<rfloor>) \<rparr>"

lemma exact_ops [simp]:
  "fp_add exact x y = x + y" "fp_sub exact x y = x - y" "fp_mul exact x y = x * y"
  "fp_div exact x y = x / y" "fp_neg exact x = - x" "fp_lt exact x y \<longleftrightarrow> x < y"
  "fp_le exact x y \<longleftrightarrow> x \<le> y" "fp_of_int exact n = of_int n" "fp_lit exact q = of_rat q"
  "fp_ln2 exact = ln 2" "fp_ln2_sq exact = ln 2 * ln 2" "fp_Log exact x = ln x"
  "fp_Exp exact x = exp x" "fp_Pow exact x y = x powr y" "fp_Ceil exact x = of_int \<lceil>x\<rceil>"
  by (simp_all add: exact_def)

lemma exact_of_uint [simp]: "fp_of_uint exact w = real (unat w)"
  by (simp add: fp_of_uint_def of_nat_unat)

lemma unat_pos_real: "w \<noteq> (0 :: u64) \<Longrightarrow> 0 < real (unat w)"
  by (simp add: unat_gt_0)

lemma exact_to_int: "0 \<le> x \<Longrightarrow> x < 2 ^ 63 \<Longrightarrow> fp_to_int exact x = \<lfloor>x\<rfloor>"
  by (simp add: exact_def)

lemma exact_to_uint: "0 \<le> x \<Longrightarrow> x < 2 ^ 63 \<Longrightarrow> fp_to_uint exact x = word_of_int \<lfloor>x\<rfloor>"
  by (simp add: exact_def)

lemma exact_Round: "0 \<le> x \<Longrightarrow> fp_Round exact x = of_int \<lfloor>x + 1 / 2\<rfloor>"
  by (simp add: exact_def)

lemma unat_word_of_int_u64: "0 \<le> i \<Longrightarrow> i < 2 ^ 64 \<Longrightarrow> unat (word_of_int i :: u64) = nat i"
proof -
  assume "0 \<le> i" "i < 2 ^ 64"
  then have "uint (word_of_int i :: u64) = i" by (simp add: uint_word_of_int)
  then show ?thesis by (simp add: unat_eq_nat_uint)
qed

lemma exact_to_uint_nat:
  assumes "0 \<le> x" "x < 2 ^ 63"
  shows "unat (fp_to_uint exact x) = nat \<lfloor>x\<rfloor>"
proof -
  have "\<lfloor>x\<rfloor> < 2 ^ 63" "0 \<le> \<lfloor>x\<rfloor>" using assms by (simp_all add: floor_less_iff)
  then show ?thesis using assms unat_word_of_int_u64 [of "\<lfloor>x\<rfloor>"] by (simp add: exact_to_uint)
qed

text \<open>On a platform where \<open>roomy\<close> holds, no conversion gives one of the last seven 64-bit numbers.\<close>

definition roomy :: "'f Float \<Rightarrow> bool" where
  "roomy F \<longleftrightarrow> (\<forall>x. unat (fp_to_uint F x) < 2 ^ 64 - 7)"

lemma roomy_exact: "roomy exact"
proof -
  have "unat (fp_to_uint exact x) \<le> 2 ^ 63" for x
  proof (cases "0 \<le> x \<and> x < 2 ^ 63")
    case True
    then have "\<lfloor>x\<rfloor> < 2 ^ 63" by (simp add: floor_less_iff)
    with True show ?thesis by (simp add: exact_to_uint_nat nat_le_iff)
  next
    case False
    then show ?thesis by (auto simp: exact_def)
  qed
  then have "unat (fp_to_uint exact x) < 2 ^ 64 - 7" for x
    by (rule order_le_less_trans) simp
  then show ?thesis by (simp add: roomy_def)
qed

end
