(* ===== verification/Sizing.thy ===== *)
theory Sizing
  imports Bloom_Ops Float64
begin

text \<open>
  The formulas of \<open>internal/filter/filter.go\<close> that size a filter and predict its false-positive
  rate, and \<open>Saturation\<close> of \<open>ops.go\<close>, over the floating-point record of \<open>Float64\<close>. The first
  lemmas hold for every such record; the last section judges the formulas in exact arithmetic.
\<close>

section \<open>Formulas\<close>

definition FalsePositiveRate :: "'f Float \<Rightarrow> BloomFilter \<Rightarrow> int \<Rightarrow> 'f" where
  "FalsePositiveRate F f n =
     (if bf_m f = 0 then fp_lit F 1
      else let exponent = fp_div F (fp_mul F (fp_neg F (fp_of_uint F (bf_k f))) (fp_of_int F n))
                                   (fp_of_uint F (bf_m f))
           in fp_Pow F (fp_sub F (fp_lit F 1) (fp_Exp F exponent)) (fp_of_uint F (bf_k f)))"

definition bad_rate :: "'f Float \<Rightarrow> 'f \<Rightarrow> bool" where
  "bad_rate F fpr \<longleftrightarrow> fp_le F fpr (fp_lit F 0) \<or> fp_le F (fp_lit F 1) fpr"

definition MaxInsertions :: "'f Float \<Rightarrow> BloomFilter \<Rightarrow> 'f \<Rightarrow> int" where
  "MaxInsertions F f maxFPR =
     (if bad_rate F maxFPR \<or> bf_m f = 0 \<or> bf_k f = 0 then 0
      else let inner = fp_sub F (fp_lit F 1)
                 (fp_Pow F maxFPR (fp_div F (fp_lit F 1) (fp_of_uint F (bf_k f))))
           in if fp_le F inner (fp_lit F 0) then 0
              else let n = fp_div F (fp_mul F (fp_neg F (fp_of_uint F (bf_m f))) (fp_Log F inner))
                                    (fp_of_uint F (bf_k f))
                   in if fp_lt F n (fp_lit F 0) then 0 else fp_to_int F n)"

definition OptimalK :: "'f Float \<Rightarrow> u64 \<Rightarrow> u64 \<Rightarrow> u64" where
  "OptimalK F m n =
     (if n = 0 \<or> m = 0 then 1
      else let k = fp_mul F (fp_div F (fp_of_uint F m) (fp_of_uint F n)) (fp_ln2 F);
               ki = fp_to_uint F (fp_Round F k)
           in if ki < 1 then 1 else ki)"

definition RequiredBits :: "'f Float \<Rightarrow> u64 \<Rightarrow> 'f \<Rightarrow> u64" where
  "RequiredBits F n fpr =
     (if n = 0 \<or> bad_rate F fpr then 8
      else let m = fp_div F (fp_mul F (fp_neg F (fp_of_uint F n)) (fp_Log F fpr)) (fp_ln2_sq F);
               m = fp_mul F m (fp_lit F (102 / 100));
               mi = fp_to_uint F (fp_Ceil F m)
           in if mi < 8 then 8 else mi)"

definition NewFromCapacity :: "'f Float \<Rightarrow> u64 \<Rightarrow> 'f \<Rightarrow> (filter_error, BloomFilter) outcome" where
  "NewFromCapacity F expectedN maxFPR =
     (if expectedN = 0 \<or> bad_rate F maxFPR then Err ErrInvalidParams
      else let m = RequiredBits F expectedN maxFPR; k = OptimalK F m expectedN
           in bf_New m k)"

definition bf_Saturation :: "'f Float \<Rightarrow> BloomFilter \<Rightarrow> 'f" where
  "bf_Saturation F f =
     (if bf_m f = 0 then fp_lit F 0
      else fp_div F (fp_of_int F (int (bf_PopCount f))) (fp_of_uint F (bf_m f)))"

section \<open>In every arithmetic\<close>

lemma word_one_le: "\<not> w < 1 \<Longrightarrow> w \<noteq> (0 :: u64)"
  by auto

lemma OptimalK_pos: "OptimalK F m n \<noteq> 0"
  by (auto simp: OptimalK_def Let_def)

lemma RequiredBits_min: "8 \<le> unat (RequiredBits F n fpr)"
proof -
  have "8 \<le> RequiredBits F n fpr" by (auto simp: RequiredBits_def Let_def)
  then show ?thesis by (simp add: word_le_nat_alt)
qed

lemma RequiredBits_roomy: "roomy F \<Longrightarrow> unat (RequiredBits F n fpr) < 2 ^ 64 - 7"
  by (auto simp: RequiredBits_def Let_def roomy_def)

lemma RequiredBits_pos: "RequiredBits F n fpr \<noteq> 0"
  using RequiredBits_min [of F n fpr] by auto

text \<open>The two guards are the only way to fail; a rate that compares false with everything passes.\<close>

lemma NewFromCapacity_cases:
  "NewFromCapacity F n p = (if n = 0 \<or> bad_rate F p then Err ErrInvalidParams
     else Ok \<lparr>bf_m = RequiredBits F n p, bf_k = OptimalK F (RequiredBits F n p) n,
              bf_bits = replicate (unat ((RequiredBits F n p + 7) div 8)) 0\<rparr>)"
  using RequiredBits_pos [of F n p] OptimalK_pos [of F "RequiredBits F n p" n]
  by (simp add: NewFromCapacity_def Let_def bf_New_def)

lemma NewFromCapacity_New:
  "NewFromCapacity F n p = Ok f \<Longrightarrow>
     bf_New (RequiredBits F n p) (OptimalK F (RequiredBits F n p) n) = Ok f"
  by (auto simp: NewFromCapacity_def Let_def split: if_splits)

lemma NewFromCapacity_wf:
  assumes "NewFromCapacity F n p = Ok f" "roomy F"
  shows "wf_bloom f" "bits_of (bf_bits f) = {}" "bf_m f = RequiredBits F n p"
    "bf_k f = OptimalK F (RequiredBits F n p) n"
  using bf_New_wf [OF NewFromCapacity_New [OF assms(1)] RequiredBits_roomy [OF assms(2)]] by simp_all

section \<open>In exact arithmetic\<close>

text \<open>The rate after \<open>x\<close> insertions grows with \<open>x\<close>.\<close>

definition rate :: "BloomFilter \<Rightarrow> real \<Rightarrow> real" where
  "rate f x = (1 - exp (- real (unat (bf_k f)) * x / real (unat (bf_m f)))) powr real (unat (bf_k f))"

lemma FalsePositiveRate_exact:
  "bf_m f \<noteq> 0 \<Longrightarrow> FalsePositiveRate exact f n = rate f (of_int n)"
  by (simp add: FalsePositiveRate_def rate_def Let_def)

lemma rate_mono:
  assumes "bf_m f \<noteq> 0" "bf_k f \<noteq> 0" "0 \<le> x" "x < y"
  shows "rate f x < rate f y"
proof -
  let ?m = "real (unat (bf_m f))" and ?k = "real (unat (bf_k f))"
  have pos: "0 < ?m" "0 < ?k" using assms(1,2) by (simp_all add: unat_gt_0)
  have "exp (- ?k * y / ?m) < exp (- ?k * x / ?m)"
    using pos assms(4) by (simp add: divide_strict_right_mono)
  moreover have "exp (- ?k * x / ?m) \<le> 1" using pos assms(3) by simp
  ultimately show ?thesis using pos by (auto simp: rate_def intro: powr_less_mono2)
qed

text \<open>The solution of \<open>rate f x = p\<close> that \<open>MaxInsertions\<close> computes.\<close>

definition solution :: "BloomFilter \<Rightarrow> real \<Rightarrow> real" where
  "solution f p = - real (unat (bf_m f)) * ln (1 - p powr (1 / real (unat (bf_k f)))) / real (unat (bf_k f))"

lemma root_range:
  assumes "0 < p" "p < 1" "0 < (k :: real)"
  shows "0 < p powr (1 / k)" "p powr (1 / k) < 1"
  using assms powr_less_mono2 [of "1 / k" p 1] by simp_all

lemma rate_solution:
  assumes "bf_m f \<noteq> 0" "bf_k f \<noteq> 0" "0 < p" "p < 1"
  shows "rate f (solution f p) = p" "0 \<le> solution f p"
proof -
  let ?m = "real (unat (bf_m f))" and ?k = "real (unat (bf_k f))"
  let ?inner = "1 - p powr (1 / ?k)"
  have pos: "0 < ?m" "0 < ?k" using assms(1,2) by (simp_all add: unat_gt_0)
  have inner: "0 < ?inner" "?inner < 1" using root_range [OF assms(3,4) pos(2)] by simp_all
  have "- ?k * solution f p / ?m = ln ?inner" using pos by (simp add: solution_def)
  then have "rate f (solution f p) = (p powr (1 / ?k)) powr ?k"
    using inner(1) by (simp add: rate_def)
  then show "rate f (solution f p) = p" using pos assms(3) by (simp add: powr_powr)
  show "0 \<le> solution f p"
    using inner pos by (simp add: solution_def divide_nonpos_pos mult_nonneg_nonpos ln_le_zero_iff)
qed

lemma MaxInsertions_exact:
  assumes "bf_m f \<noteq> 0" "bf_k f \<noteq> 0" "0 < p" "p < 1" "solution f p < 2 ^ 63"
  shows "MaxInsertions exact f p = \<lfloor>solution f p\<rfloor>"
proof -
  have "0 < 1 - p powr (1 / real (unat (bf_k f)))"
    using root_range [OF assms(3,4) unat_pos_real [OF assms(2)]] by simp
  then have "MaxInsertions exact f p = fp_to_int exact (solution f p)"
    using assms rate_solution(2) [OF assms(1-4)]
    by (simp add: MaxInsertions_def bad_rate_def Let_def solution_def)
  then show ?thesis using rate_solution(2) [OF assms(1-4)] assms(5) by (simp add: exact_to_int)
qed

lemma MaxInsertions_largest:
  assumes "bf_m f \<noteq> 0" "bf_k f \<noteq> 0" "0 < p" "p < 1" "solution f p < 2 ^ 63"
  shows "0 \<le> MaxInsertions exact f p"
    and "0 \<le> n \<Longrightarrow> FalsePositiveRate exact f n \<le> p \<longleftrightarrow> n \<le> MaxInsertions exact f p"
proof -
  note sol = rate_solution [OF assms(1-4)]
  note max = MaxInsertions_exact [OF assms]
  show "0 \<le> MaxInsertions exact f p" using max sol(2) by simp
  show "FalsePositiveRate exact f n \<le> p \<longleftrightarrow> n \<le> MaxInsertions exact f p" if "0 \<le> n"
    using that sol rate_mono [OF assms(1,2), of "of_int n" "solution f p"]
      rate_mono [OF assms(1,2) sol(2), of "of_int n"] max
    by (cases "real_of_int n" "solution f p" rule: linorder_cases)
      (simp_all add: FalsePositiveRate_exact [OF assms(1)] le_floor_iff)
qed

text \<open>C26: The contract of \<open>MaxInsertions\<close>, in exact arithmetic: it returns the largest number of
  insertions that keeps the predicted false-positive rate at or below the limit.\<close>

theorem MaxInsertions_is_largest:
  assumes "bf_m f \<noteq> 0" "bf_k f \<noteq> 0" "0 < p" "p < 1"
    and "- real (unat (bf_m f)) * ln (1 - p powr (1 / real (unat (bf_k f)))) / real (unat (bf_k f)) < 2 ^ 63"
  shows "0 \<le> MaxInsertions exact f p \<and>
    (\<forall>n \<ge> 0. FalsePositiveRate exact f n \<le> p \<longleftrightarrow> n \<le> MaxInsertions exact f p)"
  using MaxInsertions_largest [OF assms(1-4)] assms(5) by (simp add: solution_def)

theorem MaxInsertions_is_largest_witness:
  "FalsePositiveRate exact \<lparr>bf_m = 8, bf_k = 1, bf_bits = [0]\<rparr>
     (MaxInsertions exact \<lparr>bf_m = 8, bf_k = 1, bf_bits = [0]\<rparr> (1 / 2)) \<le> 1 / 2"
proof -
  let ?f = "\<lparr>bf_m = 8, bf_k = 1, bf_bits = [0]\<rparr>"
  have "- real (unat (bf_m ?f)) * ln (1 - (1 / 2) powr (1 / real (unat (bf_k ?f)))) / real (unat (bf_k ?f))
      = 8 * ln 2"
    by (simp add: ln_div)
  also have "\<dots> < 2 ^ 63" using ln_2_less_1 by simp
  finally show ?thesis
    using MaxInsertions_is_largest [of ?f "1 / 2"] by simp
qed

text \<open>How many bits \<open>RequiredBits\<close> grants for a loose rate, and what they do.\<close>

definition raw_bits :: "real \<Rightarrow> real \<Rightarrow> real" where
  "raw_bits n p = - n * ln p / (ln 2 * ln 2) * (102 / 100)"

lemma ln2_sq: "1 / 4 \<le> ln 2 * (ln 2 :: real)"
proof -
  have "(1 / 2 :: real) \<le> ln 2" using ln_le_minus_one [of "1 / 2 :: real"] by (simp add: ln_div)
  then have "(1 / 2) * (1 / 2) \<le> ln 2 * (ln 2 :: real)" by (intro mult_mono) simp_all
  then show ?thesis by simp
qed

lemma minus_ln_le: "0 < p \<Longrightarrow> - ln p \<le> (1 - p) / (p :: real)"
  using ln_le_minus_one [of "1 / p"] by (simp add: ln_div diff_divide_distrib)

lemma raw_bits_range:
  assumes "0 < p" "p < 1" "0 \<le> n"
  shows "0 \<le> raw_bits n p" "raw_bits n p \<le> n * ((1 - p) / p) * (408 / 100)"
proof -
  have nn: "0 \<le> - ln p" using assms(1,2) by (simp add: ln_le_zero_iff)
  have sq: "0 < ln 2 * (ln 2 :: real)" using ln2_sq by linarith
  have raw: "raw_bits n p = n * (- ln p) / (ln 2 * ln 2) * (102 / 100)" by (simp add: raw_bits_def)
  show "0 \<le> raw_bits n p"
    unfolding raw using nn assms(3) sq by (intro mult_nonneg_nonneg divide_nonneg_pos) simp_all
  have "n * (- ln p) \<le> n * ((1 - p) / p)"
    using minus_ln_le [OF assms(1)] assms(3) by (intro mult_left_mono)
  also have "\<dots> \<le> n * ((1 - p) / p) * (4 * (ln 2 * ln 2))"
    using mult_left_mono [of 1 "4 * (ln 2 * ln 2)" "n * ((1 - p) / p)"] ln2_sq assms by simp
  finally have "n * (- ln p) \<le> (n * ((1 - p) / p) * 4) * (ln 2 * ln 2)" by (simp only: mult.assoc)
  then have "n * (- ln p) / (ln 2 * ln 2) \<le> n * ((1 - p) / p) * 4"
    by (simp only: pos_divide_le_eq [OF sq])
  then have "raw_bits n p \<le> (n * ((1 - p) / p) * 4) * (102 / 100)"
    unfolding raw by (rule mult_right_mono) simp
  then show "raw_bits n p \<le> n * ((1 - p) / p) * (408 / 100)" by simp
qed

lemma margin [simp]: "real_of_rat (51 / 50) = 51 / 50"
  by (simp add: of_rat_divide)

lemma RequiredBits_exact:
  assumes "n \<noteq> 0" "0 < p" "p < 1" "raw_bits (real (unat n)) p < 2 ^ 63 - 1"
  shows "real (unat (RequiredBits exact n p)) \<le> max 8 (raw_bits (real (unat n)) p + 1)"
    and "raw_bits (real (unat n)) p \<le> real (unat (RequiredBits exact n p))"
proof -
  let ?r = "raw_bits (real (unat n)) p"
  have r: "0 \<le> ?r" using raw_bits_range(1) [OF assms(2,3)] by simp
  have ceil: "of_int \<lceil>?r\<rceil> < ?r + 1" "?r \<le> of_int \<lceil>?r\<rceil>" by linarith+
  let ?mi = "fp_to_uint exact (of_int \<lceil>?r\<rceil>)"
  have mi: "unat ?mi = nat \<lceil>?r\<rceil>"
    using ceil(1) r assms(4) by (subst exact_to_uint_nat) simp_all
  have "RequiredBits exact n p = (if ?mi < 8 then 8 else ?mi)"
    using assms(1-3) by (simp add: RequiredBits_def bad_rate_def raw_bits_def Let_def)
  then have bits: "unat (RequiredBits exact n p) = max 8 (nat \<lceil>?r\<rceil>)"
    using mi by (auto simp: word_less_nat_alt)
  have "real (nat \<lceil>?r\<rceil>) = of_int \<lceil>?r\<rceil>" using r by simp
  then have "real (unat (RequiredBits exact n p)) = max 8 (of_int \<lceil>?r\<rceil>)"
    unfolding bits by (simp add: of_nat_max)
  with ceil show "real (unat (RequiredBits exact n p)) \<le> max 8 (?r + 1)"
    "?r \<le> real (unat (RequiredBits exact n p))" by linarith+
qed

lemma OptimalK_sparse:
  assumes "m \<noteq> 0" "n \<noteq> 0" "2 * unat m \<le> unat n"
  shows "OptimalK exact m n = 1"
proof -
  let ?x = "real (unat m) / real (unat n) * ln 2"
  have n: "0 < real (unat n)" by (rule unat_pos_real [OF assms(2)])
  have "2 * real (unat m) \<le> real (unat n)" using assms(3) by linarith
  then have half: "real (unat m) / real (unat n) \<le> 1 / 2" using n by (simp add: pos_divide_le_eq)
  then have "?x \<le> 1 / 2 * ln 2" by (intro mult_right_mono) simp_all
  also have "\<dots> < 1 / 2" using ln_2_less_1 by simp
  finally have "?x < 1 / 2" .
  moreover have "0 \<le> ?x" by simp
  ultimately have "\<lfloor>?x + 1 / 2\<rfloor> = 0" by linarith
  then have "fp_to_uint exact (fp_Round exact ?x) = 0"
    by (simp only: exact_Round [OF \<open>0 \<le> ?x\<close>]) (simp add: exact_to_uint)
  then show ?thesis using assms(1,2) by (simp add: OptimalK_def Let_def)
qed

lemma exp_minus_small: "0 < x \<Longrightarrow> exp (- x) < 2 / (x * (x :: real))"
proof -
  assume x: "0 < x"
  then have "x * x / 2 < exp x"
    using exp_lower_Taylor_quadratic [of x] by (simp add: power2_eq_square)
  then show ?thesis
    using x frac_less2 [of 1 1 "x * x / 2" "exp x"] by (simp add: exp_minus inverse_eq_divide)
qed

text \<open>\<open>NewFromCapacity\<close> promises a filter whose false-positive rate after \<open>n\<close> insertions is at
  most the given one. For loose rates it does not keep the promise, even in exact arithmetic:
  for every rate from 99\% on and every \<open>n\<close> that is not tiny, the filter has one hash function,
  and its predicted rate after \<open>n\<close> insertions exceeds the requested one.\<close>

lemma NewFromCapacity_misses_rate:
  assumes "99 / 100 \<le> p" "p < 1" "8 \<le> real (unat n) * (1 - p)"
  shows "\<exists>f. NewFromCapacity exact n p = Ok f \<and> bf_k f = 1
    \<and> p < FalsePositiveRate exact f (int (unat n))"
proof -
  let ?n = "real (unat n)" and ?M = "RequiredBits exact n p"
  let ?b = "real (unat ?M)" and ?q = "1 - p"
  have p: "0 < p" and q: "0 < ?q" "?q \<le> 1 / 100" using assms by simp_all
  have n0: "n \<noteq> 0" using assms(3) by auto
  have n: "0 < ?n" "?n < 18446744073709551616"
    using unat_pos_real [OF n0] unat_less_u64 [of n] by linarith+
  have "?q / p \<le> ?q * (100 / 99)"
    using p q mult_left_mono [of "99 / 100" p "?q * (100 / 99)"] assms(1) by (simp add: pos_divide_le_eq)
  then have "?n * (?q / p) \<le> ?n * (?q * (100 / 99))" using n(1) by (intro mult_left_mono) simp_all
  then have "?n * (?q / p) * (408 / 100) \<le> (?n * ?q) * (100 / 99) * (408 / 100)"
    by (intro mult_right_mono) (simp_all add: mult.assoc)
  moreover have "raw_bits ?n p \<le> ?n * (?q / p) * (408 / 100)"
    by (rule raw_bits_range(2) [OF p assms(2)]) simp
  ultimately have raw: "raw_bits ?n p \<le> 21 / 5 * (?n * ?q)" using assms(3) by linarith
  have "?n * ?q \<le> ?n * (1 / 100)" using q n by (intro mult_left_mono) simp_all
  then have small: "raw_bits ?n p < 2 ^ 63 - 1" using raw n(2) by simp
  note M = RequiredBits_exact [OF n0 p assms(2) small]
  have Mpos: "0 < ?b" by (rule unat_pos_real [OF RequiredBits_pos])
  have bits: "?b \<le> 5 * (?n * ?q)" using M(1) raw assms(3) by linarith
  have "2 * ?b \<le> ?n" using bits \<open>?n * ?q \<le> ?n * (1 / 100)\<close> n(1) by linarith
  then have "2 * unat ?M \<le> unat n" by linarith
  then have k: "OptimalK exact ?M n = 1" by (rule OptimalK_sparse [OF RequiredBits_pos n0])
  obtain f where f: "NewFromCapacity exact n p = Ok f" "bf_m f = ?M" "bf_k f = 1"
    using n0 assms(2) p k by (simp add: NewFromCapacity_cases bad_rate_def)
  let ?x = "?n / ?b"
  have x: "0 < ?x" using n(1) Mpos by simp
  have "1 \<le> 5 * (?n * ?q) / ?b" using bits Mpos by (simp only: pos_le_divide_eq mult_1)
  also have "\<dots> = 5 * ?q * ?x" by simp
  finally have inv: "1 / ?x \<le> 5 * ?q" by (simp only: pos_divide_le_eq [OF x])
  have "2 / (?x * ?x) = 2 * ((1 / ?x) * (1 / ?x))" by simp
  also have "\<dots> \<le> 2 * ((5 * ?q) * (5 * ?q))"
    using inv x q by (intro mult_left_mono mult_mono) simp_all
  also have "\<dots> = (50 * ?q) * ?q" by (simp add: algebra_simps)
  also have "\<dots> \<le> 1 * ?q" using q by (intro mult_right_mono) simp_all
  finally have "exp (- ?x) < 1 * ?q" by (rule order_less_le_trans [OF exp_minus_small [OF x]])
  then have less: "p < 1 - exp (- ?x)" by simp
  moreover have "rate f ?n = 1 - exp (- ?x)" using f(2,3) less p by (simp add: rate_def)
  moreover have "FalsePositiveRate exact f (int (unat n)) = rate f ?n"
    using FalsePositiveRate_exact [of f "int (unat n)"] f(2) RequiredBits_pos [of exact n p] by simp
  ultimately show ?thesis using f by auto
qed

lemma NewFromCapacity_misses_rate_witness:
  "\<exists>f. NewFromCapacity exact 1000 (99 / 100) = Ok f \<and> bf_k f = 1
    \<and> 99 / 100 < FalsePositiveRate exact f 1000"
  using NewFromCapacity_misses_rate [of "99 / 100" 1000] by simp

end
