(* ===== verification/Builder.thy ===== *)
theory Builder
  imports Sizing
begin

text \<open>
  \<open>internal/filter/builder.go\<close>: the fluent builder, and the scalable filter that appends a larger
  sub-filter when the active one has received its share of items. The sizing formulas come from
  \<open>Sizing\<close>, over any floating-point arithmetic. Go's \<open>int\<close> conversion of a \<open>uint\<close> is \<open>sint\<close>.
\<close>

datatype builder_error = ErrBuilderNoItems | ErrFprScale | BuilderFilterErr filter_error

record 'f Builder =
  bd_expectedN :: u64
  bd_maxFPR :: 'f
  bd_m :: u64
  bd_k :: u64
  bd_useManual :: bool
  bd_preload :: "bytes list"

section \<open>The builder\<close>

definition NewBuilder :: "'f Float \<Rightarrow> 'f Builder" where
  "NewBuilder F = \<lparr>bd_expectedN = 0, bd_maxFPR = fp_lit F (1 / 100), bd_m = 0, bd_k = 0,
     bd_useManual = False, bd_preload = []\<rparr>"

definition WithCapacity :: "u64 \<Rightarrow> 'f \<Rightarrow> 'f Builder \<Rightarrow> 'f Builder" where
  "WithCapacity expectedN maxFPR b =
     b\<lparr>bd_expectedN := expectedN, bd_maxFPR := maxFPR, bd_useManual := False\<rparr>"

definition WithParams :: "u64 \<Rightarrow> u64 \<Rightarrow> 'f Builder \<Rightarrow> 'f Builder" where
  "WithParams m k b = b\<lparr>bd_m := m, bd_k := k, bd_useManual := True\<rparr>"

definition WithPreload :: "bytes list \<Rightarrow> 'f Builder \<Rightarrow> 'f Builder" where
  "WithPreload items b = b\<lparr>bd_preload := items\<rparr>"

definition Build :: "'f Float \<Rightarrow> 'f Builder \<Rightarrow> (builder_error, BloomFilter) outcome" where
  "Build F b =
     and_then
       (if bd_useManual b then wrap_err BuilderFilterErr (bf_New (bd_m b) (bd_k b))
        else if bd_expectedN b = 0 then Err ErrBuilderNoItems
        else if bad_rate F (bd_maxFPR b) then Err (BuilderFilterErr ErrInvalidParams)
        else wrap_err BuilderFilterErr (NewFromCapacity F (bd_expectedN b) (bd_maxFPR b)))
       (\<lambda>f. Ok (foldl bf_Add f (bd_preload b)))"

definition EstimateParams :: "'f Float \<Rightarrow> 'f Builder \<Rightarrow> u64 \<times> u64" where
  "EstimateParams F b =
     (if bd_useManual b then (bd_m b, bd_k b)
      else if bd_expectedN b = 0 \<or> bad_rate F (bd_maxFPR b) then (0, 0)
      else let m = RequiredBits F (bd_expectedN b) (bd_maxFPR b);
               k = OptimalK F m (bd_expectedN b)
           in (m, k))"

section \<open>The scalable filter\<close>

record 'f ScalableBloom =
  sb_filters :: "BloomFilter list"
  sb_targetFPR :: 'f
  sb_fprScale :: 'f
  sb_growthFactor :: u64
  sb_initCap :: u64
  sb_currentN :: int
  sb_maxN :: int

definition NewScalableBloom ::
  "'f Float \<Rightarrow> u64 \<Rightarrow> 'f \<Rightarrow> 'f \<Rightarrow> u64 \<Rightarrow> (builder_error, 'f ScalableBloom) outcome" where
  "NewScalableBloom F initCap targetFPR fprScale growthFactor =
     (if initCap = 0 \<or> bad_rate F targetFPR then Err (BuilderFilterErr ErrInvalidParams)
      else if bad_rate F fprScale then Err ErrFprScale
      else let growthFactor = (if growthFactor < 1 then 2 else growthFactor)
           in and_then (wrap_err BuilderFilterErr (NewFromCapacity F initCap targetFPR)) (\<lambda>first.
                Ok \<lparr>sb_filters = [first], sb_targetFPR = targetFPR, sb_fprScale = fprScale,
                    sb_growthFactor = growthFactor, sb_initCap = initCap, sb_currentN = 0,
                    sb_maxN = MaxInsertions F first targetFPR\<rparr>))"

text \<open>The loop of \<open>grow\<close>: capacity (which wraps) and rate of the \<open>n\<close>-th additional filter.\<close>

fun grow_loop :: "'f Float \<Rightarrow> 'f ScalableBloom \<Rightarrow> nat \<Rightarrow> u64 \<Rightarrow> 'f \<Rightarrow> u64 \<times> 'f" where
  "grow_loop F sb 0 cap fpr = (cap, fpr)"
| "grow_loop F sb (Suc n) cap fpr =
     grow_loop F sb n (cap * sb_growthFactor sb) (fp_mul F fpr (sb_fprScale sb))"

definition grown_size :: "'f Float \<Rightarrow> 'f ScalableBloom \<Rightarrow> nat \<Rightarrow> u64 \<times> 'f" where
  "grown_size F sb n =
     (case grow_loop F sb n (sb_initCap sb) (sb_targetFPR sb) of
        (cap, fpr) \<Rightarrow>
          (cap, if fp_lt F fpr (fp_lit F (1 / 10000000000)) then fp_lit F (1 / 10000000000) else fpr))"

text \<open>A fallback that fails as well leaves a nil filter, whose method call panics.\<close>

definition sb_grow :: "'f Float \<Rightarrow> 'f ScalableBloom \<Rightarrow> (builder_error, 'f ScalableBloom) outcome" where
  "sb_grow F sb =
     (case grown_size F sb (length (sb_filters sb)) of (cap, fpr) \<Rightarrow>
        let nf = (case NewFromCapacity F cap fpr of
                    Ok f \<Rightarrow> Some f
                  | _ \<Rightarrow> (case NewFromCapacity F (sb_initCap sb) (sb_targetFPR sb) of
                            Ok f \<Rightarrow> Some f | _ \<Rightarrow> None))
        in case nf of
             None \<Rightarrow> Panic
           | Some f \<Rightarrow>
               let maxN = MaxInsertions F f fpr
               in Ok (sb\<lparr>sb_filters := sb_filters sb @ [f], sb_currentN := 0,
                         sb_maxN := (if maxN \<le> 0 then sint cap else maxN)\<rparr>))"

definition sb_Add :: "'f Float \<Rightarrow> 'f ScalableBloom \<Rightarrow> bytes \<Rightarrow> (builder_error, 'f ScalableBloom) outcome" where
  "sb_Add F sb data =
     and_then (if sb_maxN sb \<le> sb_currentN sb then sb_grow F sb else Ok sb) (\<lambda>sb.
       if sb_filters sb = [] then Panic
       else Ok (sb\<lparr>sb_filters := butlast (sb_filters sb) @ [bf_Add (last (sb_filters sb)) data],
                   sb_currentN := sb_currentN sb + 1\<rparr>))"

definition sb_Test :: "'f ScalableBloom \<Rightarrow> bytes \<Rightarrow> bool" where
  "sb_Test sb data = list_ex (\<lambda>f. bf_Test f data) (sb_filters sb)"

definition sb_Len :: "'f Float \<Rightarrow> 'f ScalableBloom \<Rightarrow> int" where
  "sb_Len F sb =
     foldl (\<lambda>total f. total + MaxInsertions F f (sb_targetFPR sb)) 0 (butlast (sb_filters sb))
     + sb_currentN sb"

definition NumFilters :: "'f ScalableBloom \<Rightarrow> nat" where
  "NumFilters sb = length (sb_filters sb)"

fun sb_adds :: "'f Float \<Rightarrow> 'f ScalableBloom \<Rightarrow> bytes list \<Rightarrow> (builder_error, 'f ScalableBloom) outcome" where
  "sb_adds F sb [] = Ok sb"
| "sb_adds F sb (x # xs) = and_then (sb_Add F sb x) (\<lambda>sb. sb_adds F sb xs)"

section \<open>The scalable filter never fails\<close>

definition wf_sb :: "'f Float \<Rightarrow> 'f ScalableBloom \<Rightarrow> bool" where
  "wf_sb F sb \<longleftrightarrow> sb_filters sb \<noteq> [] \<and> (\<forall>f \<in> set (sb_filters sb). wf_bloom f)
     \<and> sb_initCap sb \<noteq> 0 \<and> \<not> bad_rate F (sb_targetFPR sb)"

lemma New_wf_sb:
  assumes "NewScalableBloom F n p s g = Ok sb" "roomy F"
  shows "wf_sb F sb"
  using assms NewFromCapacity_wf(1) [of F n p]
  by (auto simp: NewScalableBloom_def wf_sb_def and_then_Ok_iff Let_def split: if_splits)

lemma grow_ok:
  assumes "wf_sb F sb" "roomy F"
  shows "\<exists>f maxN. sb_grow F sb = Ok (sb\<lparr>sb_filters := sb_filters sb @ [f], sb_currentN := 0, sb_maxN := maxN\<rparr>)
    \<and> wf_bloom f"
proof -
  obtain cap fpr where size: "grown_size F sb (length (sb_filters sb)) = (cap, fpr)"
    by (cases "grown_size F sb (length (sb_filters sb))") auto
  let ?nf = "case NewFromCapacity F cap fpr of Ok f \<Rightarrow> Some f
      | _ \<Rightarrow> (case NewFromCapacity F (sb_initCap sb) (sb_targetFPR sb) of Ok f \<Rightarrow> Some f | _ \<Rightarrow> None)"
  have "\<exists>f. ?nf = Some f \<and> wf_bloom f"
    using assms NewFromCapacity_wf(1) [of F cap fpr] NewFromCapacity_wf(1) [of F "sb_initCap sb" "sb_targetFPR sb"]
    by (auto simp: wf_sb_def NewFromCapacity_cases split: outcome.split)
  then obtain f where f: "?nf = Some f" "wf_bloom f" by blast
  let ?max = "if MaxInsertions F f fpr \<le> 0 then sint cap else MaxInsertions F f fpr"
  have "sb_grow F sb = Ok (sb\<lparr>sb_filters := sb_filters sb @ [f], sb_currentN := 0, sb_maxN := ?max\<rparr>)"
    using f(1) by (simp only: sb_grow_def size Let_def prod.case option.case)
  with f(2) show ?thesis by blast
qed

lemma sb_Test_append: "sb_Test (sb\<lparr>sb_filters := fs @ gs, sb_currentN := n\<rparr>) y
    \<longleftrightarrow> list_ex (\<lambda>f. bf_Test f y) fs \<or> list_ex (\<lambda>f. bf_Test f y) gs"
  by (simp add: sb_Test_def)

lemma add_last_ok:
  assumes "wf_sb F sb"
    and sb'_def: "sb' = sb\<lparr>sb_filters := butlast (sb_filters sb) @ [bf_Add (last (sb_filters sb)) x], sb_currentN := n\<rparr>"
  shows "wf_sb F sb'" "sb_Test sb' x" "\<And>y. sb_Test sb y \<Longrightarrow> sb_Test sb' y"
proof -
  let ?fs = "butlast (sb_filters sb)" and ?l = "last (sb_filters sb)"
  have fs: "sb_filters sb = ?fs @ [?l]" using assms(1) by (simp add: wf_sb_def)
  then have wf: "wf_bloom ?l" "\<forall>f \<in> set ?fs. wf_bloom f"
    using assms(1) by (auto simp: wf_sb_def dest: in_set_butlastD)
  show "wf_sb F sb'" using wf assms(1) by (auto simp: sb'_def wf_sb_def bf_Add_wf)
  show "sb_Test sb' x" using wf(1) by (simp add: sb'_def sb_Test_append bloom.test_added)
  show "sb_Test sb' y" if "sb_Test sb y" for y
  proof -
    have "list_ex (\<lambda>f. bf_Test f y) (?fs @ [?l])" using that fs by (metis sb_Test_def)
    then show ?thesis using wf(1) by (auto simp: sb'_def sb_Test_append bloom.test_mono)
  qed
qed

lemma sb_Add_ok:
  assumes "wf_sb F sb" "roomy F"
  shows "\<exists>sb'. sb_Add F sb x = Ok sb' \<and> wf_sb F sb' \<and> sb_Test sb' x \<and> (\<forall>y. sb_Test sb y \<longrightarrow> sb_Test sb' y)"
proof -
  have "\<exists>sb1. (if sb_maxN sb \<le> sb_currentN sb then sb_grow F sb else Ok sb) = Ok sb1 \<and> wf_sb F sb1
      \<and> (\<forall>y. sb_Test sb y \<longrightarrow> sb_Test sb1 y)"
    using grow_ok [OF assms] assms(1) by (fastforce simp: wf_sb_def sb_Test_def)
  then obtain sb1 where sb1: "(if sb_maxN sb \<le> sb_currentN sb then sb_grow F sb else Ok sb) = Ok sb1"
      "wf_sb F sb1" "\<forall>y. sb_Test sb y \<longrightarrow> sb_Test sb1 y" by blast
  have "sb_filters sb1 \<noteq> []" using sb1(2) by (simp add: wf_sb_def)
  with sb1 add_last_ok [OF sb1(2) refl] show ?thesis by (simp add: sb_Add_def)
qed

lemma sb_adds_ok:
  assumes "wf_sb F sb" "roomy F"
  shows "\<exists>sb'. sb_adds F sb xs = Ok sb' \<and> wf_sb F sb' \<and> (\<forall>y. y \<in> set xs \<or> sb_Test sb y \<longrightarrow> sb_Test sb' y)"
  using assms(1)
proof (induction xs arbitrary: sb)
  case (Cons x xs)
  from sb_Add_ok [OF Cons.prems assms(2)] obtain sb1 where sb1: "sb_Add F sb x = Ok sb1" "wf_sb F sb1"
      "sb_Test sb1 x" "\<forall>y. sb_Test sb y \<longrightarrow> sb_Test sb1 y" by blast
  from Cons.IH [OF sb1(2)] sb1 show ?case by auto
qed simp

section \<open>How many items each sub-filter receives\<close>

text \<open>What \<open>sb_maxN\<close> is set to for the \<open>i\<close>-th filter, and the number of items it is given.\<close>

definition limit :: "'f Float \<Rightarrow> 'f ScalableBloom \<Rightarrow> nat \<Rightarrow> BloomFilter \<Rightarrow> int" where
  "limit F sb i f =
     (if i = 0 then MaxInsertions F f (sb_targetFPR sb)
      else case grown_size F sb i of (cap, fpr) \<Rightarrow>
        if MaxInsertions F f fpr \<le> 0 then sint cap else MaxInsertions F f fpr)"

definition filled :: "'f Float \<Rightarrow> 'f ScalableBloom \<Rightarrow> nat \<Rightarrow> BloomFilter \<Rightarrow> int" where
  "filled F sb i f = max (if i = 0 then 0 else 1) (limit F sb i f)"

abbreviation closed_sum :: "(nat \<Rightarrow> BloomFilter \<Rightarrow> int) \<Rightarrow> 'f ScalableBloom \<Rightarrow> int" where
  "closed_sum h sb \<equiv> (\<Sum>(i, f)\<leftarrow>enumerate 0 (butlast (sb_filters sb)). h i f)"

definition counted :: "'f Float \<Rightarrow> 'f ScalableBloom \<Rightarrow> nat \<Rightarrow> bool" where
  "counted F sb n \<longleftrightarrow> sb_filters sb \<noteq> []
     \<and> (let i = length (sb_filters sb) - 1; f = last (sb_filters sb) in
          sb_maxN sb = limit F sb i f \<and> (if i = 0 then 0 else 1) \<le> sb_currentN sb
          \<and> sb_currentN sb \<le> filled F sb i f)
     \<and> int n = closed_sum (filled F sb) sb + sb_currentN sb"

text \<open>The static fields decide all sizes.\<close>

definition same_plan :: "'f ScalableBloom \<Rightarrow> 'f ScalableBloom \<Rightarrow> bool" where
  "same_plan sb sb' \<longleftrightarrow> sb_targetFPR sb' = sb_targetFPR sb \<and> sb_fprScale sb' = sb_fprScale sb
     \<and> sb_growthFactor sb' = sb_growthFactor sb \<and> sb_initCap sb' = sb_initCap sb"

lemma grow_loop_plan: "same_plan sb sb' \<Longrightarrow> grow_loop F sb' n cap fpr = grow_loop F sb n cap fpr"
  by (induction n arbitrary: cap fpr) (simp_all add: same_plan_def)

lemma limit_plan:
  assumes "same_plan sb sb'"
  shows "limit F sb' i f = limit F sb i f" "filled F sb' = filled F sb"
proof -
  have fields: "sb_targetFPR sb' = sb_targetFPR sb" "sb_initCap sb' = sb_initCap sb"
    using assms by (simp_all add: same_plan_def)
  have size: "grown_size F sb' j = grown_size F sb j" for j
    unfolding grown_size_def fields grow_loop_plan [OF assms] ..
  have lim: "limit F sb' j g = limit F sb j g" for j g
    unfolding limit_def size fields ..
  show "limit F sb' i f = limit F sb i f" by (rule lim)
  show "filled F sb' = filled F sb" by (simp add: fun_eq_iff filled_def lim)
qed

lemma MaxInsertions_Add [simp]: "MaxInsertions F (bf_Add f x) p = MaxInsertions F f p"
  by (simp add: MaxInsertions_def Let_def)

lemma limit_add [simp]: "limit F sb i (bf_Add f x) = limit F sb i f" "filled F sb i (bf_Add f x) = filled F sb i f"
  by (simp_all add: limit_def filled_def split: prod.split)

lemma plan_upd: "same_plan sb (sb\<lparr>sb_filters := fs, sb_currentN := n\<rparr>)"
  "same_plan sb (sb\<lparr>sb_filters := fs, sb_currentN := n, sb_maxN := k\<rparr>)"
  by (simp_all add: same_plan_def)

lemma closed_sum_cong:
  "butlast (sb_filters sb') = butlast (sb_filters sb) \<Longrightarrow> closed_sum h sb' = closed_sum h sb"
  by (simp only:)

lemma closed_sum_grow:
  assumes "sb_filters sb \<noteq> []" "sb_filters sb' = sb_filters sb @ [f]"
  shows "closed_sum h sb' = closed_sum h sb + h (length (sb_filters sb) - 1) (last (sb_filters sb))"
proof -
  have "butlast (sb_filters sb') = butlast (sb_filters sb) @ [last (sb_filters sb)]"
    using assms by simp
  then show ?thesis
    by (simp only: enumerate_append_eq enumerate_simps map_append sum_list_append list.map prod.case
        sum_list.Cons sum_list.Nil length_butlast add_0 add_0_right)
qed

text \<open>Adding to a filter that is not full, and growing a full one.\<close>

lemma counted_add:
  assumes "counted F sb n" "sb_currentN sb < filled F sb (length (sb_filters sb) - 1) (last (sb_filters sb))"
  shows "counted F (sb\<lparr>sb_filters := butlast (sb_filters sb) @ [bf_Add (last (sb_filters sb)) x],
    sb_currentN := sb_currentN sb + 1\<rparr>) (Suc n)" (is "counted F ?sb' _")
proof -
  have len: "length (sb_filters ?sb') - 1 = length (sb_filters sb) - 1" by simp
  have last: "last (sb_filters ?sb') = bf_Add (last (sb_filters sb)) x" by simp
  have sum: "closed_sum (filled F sb) ?sb' = closed_sum (filled F sb) sb" by (rule closed_sum_cong) simp
  show ?thesis
    unfolding counted_def limit_plan [OF plan_upd(1)] len last sum Let_def
    using assms by (auto simp: counted_def Let_def)
qed

lemma counted_full:
  assumes "counted F sb n" "sb_maxN sb \<le> sb_currentN sb"
  shows "filled F sb (length (sb_filters sb) - 1) (last (sb_filters sb)) = sb_currentN sb"
  using assms by (auto simp: counted_def Let_def filled_def max_def split: if_splits)

lemma sb_grow_Ok:
  assumes "sb_grow F sb = Ok sb1" "sb_filters sb \<noteq> []"
  shows "\<exists>f. sb1 = sb\<lparr>sb_filters := sb_filters sb @ [f], sb_currentN := 0,
    sb_maxN := limit F sb (length (sb_filters sb)) f\<rparr>"
  using assms by (auto simp: sb_grow_def limit_def Let_def split: prod.splits option.splits)

lemma counted_grow_add:
  assumes "counted F sb n" "sb_maxN sb \<le> sb_currentN sb"
    and sb': "sb' = sb\<lparr>sb_filters := sb_filters sb @ [bf_Add f x], sb_currentN := 1,
      sb_maxN := limit F sb (length (sb_filters sb)) f\<rparr>"
  shows "counted F sb' (Suc n)"
proof -
  have ne: "sb_filters sb \<noteq> []" using assms(1) by (simp add: counted_def)
  have plan: "same_plan sb sb'" by (simp add: sb' same_plan_def)
  have len: "length (sb_filters sb') - 1 = length (sb_filters sb)"
    and last: "last (sb_filters sb') = bf_Add f x" by (simp_all add: sb')
  have sum: "closed_sum (filled F sb) sb' = closed_sum (filled F sb) sb + sb_currentN sb"
    using closed_sum_grow [OF ne, of sb' "bf_Add f x" "filled F sb"] counted_full [OF assms(1,2)]
    by (simp add: sb')
  have room: "1 \<le> filled F sb (length (sb_filters sb)) (bf_Add f x)"
    using ne by (simp add: filled_def)
  show ?thesis
    unfolding counted_def limit_plan [OF plan] len last sum Let_def
    using assms(1) ne room by (simp add: sb' counted_def)
qed

lemma counted_step:
  assumes "sb_Add F sb x = Ok sb'" "counted F sb n"
  shows "counted F sb' (Suc n)" "same_plan sb sb'"
proof -
  have ne: "sb_filters sb \<noteq> []" using assms(2) by (simp add: counted_def)
  have "counted F sb' (Suc n) \<and> same_plan sb sb'"
  proof (cases "sb_maxN sb \<le> sb_currentN sb")
    case True
    with assms(1) obtain sb1 where grow: "sb_grow F sb = Ok sb1"
      and sb': "sb' = sb1\<lparr>sb_filters := butlast (sb_filters sb1) @ [bf_Add (last (sb_filters sb1)) x],
                sb_currentN := sb_currentN sb1 + 1\<rparr>"
      by (auto simp: sb_Add_def and_then_Ok_iff split: if_splits)
    from sb_grow_Ok [OF grow ne] obtain f where sb1: "sb1 = sb\<lparr>sb_filters := sb_filters sb @ [f],
        sb_currentN := 0, sb_maxN := limit F sb (length (sb_filters sb)) f\<rparr>" by blast
    have "sb' = sb\<lparr>sb_filters := sb_filters sb @ [bf_Add f x], sb_currentN := 1,
      sb_maxN := limit F sb (length (sb_filters sb)) f\<rparr>"
      by (simp add: sb' sb1)
    from counted_grow_add [OF assms(2) True this] this show ?thesis by (simp add: same_plan_def)
  next
    case False
    with assms(1) ne have sb': "sb' = sb\<lparr>sb_filters := butlast (sb_filters sb) @ [bf_Add (last (sb_filters sb)) x],
        sb_currentN := sb_currentN sb + 1\<rparr>"
      by (simp add: sb_Add_def)
    have "sb_currentN sb < filled F sb (length (sb_filters sb) - 1) (last (sb_filters sb))"
      using assms(2) False by (auto simp: counted_def Let_def filled_def)
    from counted_add [OF assms(2) this] show ?thesis by (simp add: sb' plan_upd)
  qed
  then show "counted F sb' (Suc n)" "same_plan sb sb'" by simp_all
qed

lemma counted_adds:
  "sb_adds F sb xs = Ok sb' \<Longrightarrow> counted F sb n \<Longrightarrow> counted F sb' (n + length xs)"
proof (induction xs arbitrary: sb n)
  case (Cons x xs)
  then obtain sb1 where "sb_Add F sb x = Ok sb1" "sb_adds F sb1 xs = Ok sb'"
    by (auto simp: and_then_Ok_iff)
  with Cons.IH [of sb1 "Suc n"] counted_step(1) Cons.prems(2) show ?case by fastforce
qed simp

lemma counted_New:
  "NewScalableBloom F c p s g = Ok sb \<Longrightarrow> counted F sb 0"
  by (auto simp: NewScalableBloom_def counted_def limit_def filled_def Let_def and_then_Ok_iff
      split: if_splits)

lemma foldl_sum: "foldl (\<lambda>t f. t + h f) a fs = a + (\<Sum>f\<leftarrow>fs. h f :: int)"
  by (induction fs arbitrary: a) simp_all

lemma sum_enumerate: "(\<Sum>f\<leftarrow>fs. h f) = (\<Sum>(i, f)\<leftarrow>enumerate k fs. h f :: int)"
  by (induction fs arbitrary: k) simp_all

lemma sum_diff_enumerate:
  "(\<Sum>(i, f)\<leftarrow>enumerate k fs. h i f - g i f) = (\<Sum>(i, f)\<leftarrow>enumerate k fs. h i f) - (\<Sum>(i, f)\<leftarrow>enumerate k fs. g i f :: int)"
  by (induction fs arbitrary: k) simp_all

lemma Len_counted:
  assumes "counted F sb n"
  shows "sb_Len F sb = int n
    + closed_sum (\<lambda>i f. MaxInsertions F f (sb_targetFPR sb) - filled F sb i f) sb"
  using assms
  by (simp add: counted_def sb_Len_def foldl_sum sum_diff_enumerate
      sum_enumerate [of "\<lambda>f. MaxInsertions F f (sb_targetFPR sb)" _ 0])

section \<open>Properties\<close>


lemma New_exact: "\<exists>sb. NewScalableBloom exact 10 (1 / 2) (1 / 2) 2 = Ok sb"
  by (simp add: NewScalableBloom_def bad_rate_def NewFromCapacity_cases Let_def)


text \<open>C31: \<open>Len\<close> of the scalable filter against the number of items really added. Every closed
  filter has received exactly as many items as it was given room for; \<open>Len\<close> counts it as
  \<open>MaxInsertions(targetFPR)\<close> instead. So \<open>Len\<close> is exact as long as only the first filter has been
  closed, and from the third filter on it is off by the difference between the two numbers.\<close>

theorem scalable_Len:
  assumes "NewScalableBloom F initCap targetFPR fprScale growthFactor = Ok sb0"
    and "sb_adds F sb0 xs = Ok sb" "0 \<le> MaxInsertions F (hd (sb_filters sb)) (sb_targetFPR sb)"
  shows "sb_Len F sb = int (length xs)
      + (\<Sum>(i, f)\<leftarrow>enumerate 0 (butlast (sb_filters sb)). MaxInsertions F f (sb_targetFPR sb) - filled F sb i f)
    \<and> (NumFilters sb \<le> 2 \<longrightarrow> sb_Len F sb = int (length xs))"
proof -
  have len: "sb_Len F sb = int (length xs)
      + closed_sum (\<lambda>i f. MaxInsertions F f (sb_targetFPR sb) - filled F sb i f) sb"
    using Len_counted [OF counted_adds [OF assms(2) counted_New [OF assms(1)]]] by simp
  have "sb_Len F sb = int (length xs)" if "NumFilters sb \<le> 2"
  proof -
    have "butlast (sb_filters sb) = [] \<or> butlast (sb_filters sb) = [hd (sb_filters sb)]"
      using that by (cases "sb_filters sb" rule: list.exhaust; cases "tl (sb_filters sb)")
        (auto simp: NumFilters_def)
    then show ?thesis using len assms(3) by (auto simp: filled_def limit_def)
  qed
  with len show ?thesis by simp
qed

lemma loose_filter:
  "\<exists>f. NewFromCapacity exact 1000 (99 / 100) = Ok f \<and> 8 \<le> MaxInsertions exact f (99 / 100)"
proof -
  have raw: "raw_bits 1000 (99 / 100) \<le> 42" "0 \<le> raw_bits 1000 (99 / 100)"
    using raw_bits_range [of "99 / 100" 1000] by simp_all
  let ?M = "RequiredBits exact 1000 (99 / 100)"
  have M: "unat ?M \<le> 43" "8 \<le> unat ?M"
    using RequiredBits_exact(1) [of 1000 "99 / 100"] raw RequiredBits_min [of exact 1000 "99 / 100"] by simp_all
  have k: "OptimalK exact ?M 1000 = 1"
    using M(1) by (intro OptimalK_sparse RequiredBits_pos) simp_all
  obtain f where f: "NewFromCapacity exact 1000 (99 / 100) = Ok f" "bf_m f = ?M" "bf_k f = 1"
    using k by (simp add: NewFromCapacity_cases bad_rate_def)
  have sol: "solution f (99 / 100) = real (unat ?M) * ln 100"
    using f by (simp add: solution_def ln_div)
  have ln: "1 \<le> ln (100 :: real)" "ln (100 :: real) \<le> 99"
    using exp_le ln_le_minus_one [of "100 :: real"] by (simp_all add: ln_ge_iff)
  have "real (unat ?M) * ln 100 \<le> 43 * 99" using M(1) ln by (intro mult_mono) simp_all
  moreover have "8 * 1 \<le> real (unat ?M) * ln 100" using M(2) ln by (intro mult_mono) simp_all
  ultimately have "MaxInsertions exact f (99 / 100) = \<lfloor>solution f (99 / 100)\<rfloor>" "8 \<le> solution f (99 / 100)"
    using f RequiredBits_pos [of exact 1000 "99 / 100"]
    by (simp_all add: sol MaxInsertions_exact)
  then have "8 \<le> MaxInsertions exact f (99 / 100)" by (simp add: le_floor_iff)
  with f show ?thesis by blast
qed

theorem scalable_Len_witness:
  "\<exists>sb0 sb. NewScalableBloom exact 1000 (99 / 100) (1 / 2) 2 = Ok sb0 \<and> sb_adds exact sb0 [[65]] = Ok sb
     \<and> sb_Len exact sb = 1"
proof -
  from loose_filter obtain f where f: "NewFromCapacity exact 1000 (99 / 100) = Ok f"
    "8 \<le> MaxInsertions exact f (99 / 100)" by blast
  let ?sb = "\<lambda>fs n. \<lparr>sb_filters = fs, sb_targetFPR = 99 / 100, sb_fprScale = 1 / 2, sb_growthFactor = 2,
      sb_initCap = 1000, sb_currentN = n, sb_maxN = MaxInsertions exact f (99 / 100)\<rparr>"
  have new: "NewScalableBloom exact 1000 (99 / 100) (1 / 2) 2 = Ok (?sb [f] 0)"
    using f(1) by (simp add: NewScalableBloom_def bad_rate_def)
  have adds: "sb_adds exact (?sb [f] 0) [[65]] = Ok (?sb [bf_Add f [65]] 1)"
    using f(2) by (simp add: sb_Add_def)
  have "sb_Len exact (?sb [bf_Add f [65]] 1) = 1"
    using scalable_Len [OF new adds] f(2) by (simp add: NumFilters_def)
  with new adds show ?thesis by blast
qed

text \<open>\<open>Build\<close> returns a filter exactly when \<open>EstimateParams\<close> announces usable parameters; the
  filter has these parameters, is well-formed and contains the preloaded items.\<close>

lemma Build_agrees_with_EstimateParams:
  assumes "roomy F" "bd_useManual b \<longrightarrow> unat (bd_m b) < 2 ^ 64 - 7"
  shows "case EstimateParams F b of (m, k) \<Rightarrow>
     if m = 0 \<or> k = 0 then \<exists>e. Build F b = Err e
     else \<exists>f. Build F b = Ok f \<and> bf_m f = m \<and> bf_k f = k \<and> wf_bloom f
            \<and> list_all (bf_Test f) (bd_preload b)"
proof -
  have pre: "list_all (bf_Test (foldl bf_Add f xs)) xs" if "wf_bloom f" for f xs
    using bloom.no_false_negative [OF that] by (auto simp: list_all_iff)
  show ?thesis
  proof (cases "bd_useManual b")
    case True
    then show ?thesis
      using assms(2) pre bf_New_wf [of "bd_m b" "bd_k b"]
      by (auto simp: Build_def EstimateParams_def bf_New_def bf_adds_wf)
  next
    case False
    let ?n = "bd_expectedN b" and ?p = "bd_maxFPR b"
    show ?thesis
    proof (cases "?n = 0 \<or> bad_rate F ?p")
      case True
      with False show ?thesis by (auto simp: Build_def EstimateParams_def)
    next
      case ok: False
      then obtain f where f: "NewFromCapacity F ?n ?p = Ok f" by (simp add: NewFromCapacity_cases)
      note wf = NewFromCapacity_wf [OF f assms(1)]
      have "Build F b = Ok (foldl bf_Add f (bd_preload b))"
        using False ok f by (simp add: Build_def)
      with False ok wf pre [OF wf(1)] show ?thesis
        by (simp add: EstimateParams_def RequiredBits_pos OptimalK_pos bf_adds_wf Let_def)
    qed
  qed
qed

lemma Build_agrees_with_EstimateParams_witness:
  "\<exists>f. Build exact (WithPreload [[65]] (WithParams 64 3 (NewBuilder exact))) = Ok f \<and> bf_m f = 64 \<and> bf_k f = 3
     \<and> bf_Test f [65]"
  using Build_agrees_with_EstimateParams
    [OF roomy_exact, of "WithPreload [[65]] (WithParams 64 3 (NewBuilder exact))"]
  by (auto simp: EstimateParams_def WithPreload_def WithParams_def NewBuilder_def)

end
