(* ===== verification/Stats.thy ===== *)
theory Stats
  imports Float64
begin

text \<open>
  \<open>internal/stats/stats.go\<close>: the statistics collector. The methods are functions on the record
  \<open>Collector\<close>; a point in time is a number of nanoseconds, and what the clock says is an argument.
  The counters are updated by separate atomic operations and without a common lock, so the
  second part gives every method the list of its atomic actions and lets any number of running
  calls interleave (\<open>col_step\<close>); a section under the mutex is one action.
\<close>

section \<open>The collector\<close>

text \<open>An \<open>int64\<close> is a 64-bit word, read with \<open>sint\<close>.\<close>

record Metrics =
  mt_adds :: u64
  mt_tests :: u64
  mt_hits :: u64
  mt_misses :: u64
  mt_removes :: u64
  mt_overflows :: u64
  mt_underflows :: u64

definition HitRate :: "'f Float \<Rightarrow> Metrics \<Rightarrow> 'f" where
  "HitRate F m =
     (let total = mt_tests m
      in if total = 0 then fp_lit F 0
         else fp_div F (fp_of_int F (sint (mt_hits m))) (fp_of_int F (sint total)))"

definition MissRate :: "'f Float \<Rightarrow> Metrics \<Rightarrow> 'f" where
  "MissRate F m =
     (let total = mt_tests m
      in if total = 0 then fp_lit F 0
         else fp_div F (fp_of_int F (sint (mt_misses m))) (fp_of_int F (sint total)))"

record 'f Snapshot =
  sn_timestamp :: int
  sn_metrics :: Metrics
  sn_saturation :: 'f
  sn_elapsed :: int

record 'f Collector =
  co_counters :: Metrics
  co_history :: "'f Snapshot list"
  co_maxHist :: int
  co_created :: int

definition zero_metrics :: Metrics where
  "zero_metrics = \<lparr>mt_adds = 0, mt_tests = 0, mt_hits = 0, mt_misses = 0, mt_removes = 0,
     mt_overflows = 0, mt_underflows = 0\<rparr>"

definition NewCollector :: "int \<Rightarrow> int \<Rightarrow> 'f Collector" where
  "NewCollector now maxHistory =
     (let maxHistory = (if maxHistory \<le> 0 then 1000 else maxHistory)
      in \<lparr>co_counters = zero_metrics, co_history = [], co_maxHist = maxHistory, co_created = now\<rparr>)"

text \<open>\<open>atomic.Int64\<close>: \<open>Load\<close>, \<open>Store\<close> and \<open>Add(1)\<close>.\<close>

datatype counter = Adds | Tests | Hits | Misses | Removes | Overflows | Underflows

fun load :: "counter \<Rightarrow> Metrics \<Rightarrow> u64" where
  "load Adds m = mt_adds m"
| "load Tests m = mt_tests m"
| "load Hits m = mt_hits m"
| "load Misses m = mt_misses m"
| "load Removes m = mt_removes m"
| "load Overflows m = mt_overflows m"
| "load Underflows m = mt_underflows m"

fun store :: "counter \<Rightarrow> u64 \<Rightarrow> Metrics \<Rightarrow> Metrics" where
  "store Adds v m = m\<lparr>mt_adds := v\<rparr>"
| "store Tests v m = m\<lparr>mt_tests := v\<rparr>"
| "store Hits v m = m\<lparr>mt_hits := v\<rparr>"
| "store Misses v m = m\<lparr>mt_misses := v\<rparr>"
| "store Removes v m = m\<lparr>mt_removes := v\<rparr>"
| "store Overflows v m = m\<lparr>mt_overflows := v\<rparr>"
| "store Underflows v m = m\<lparr>mt_underflows := v\<rparr>"

definition add_one :: "counter \<Rightarrow> Metrics \<Rightarrow> Metrics" where
  "add_one k m = store k (load k m + 1) m"

definition on_counters :: "(Metrics \<Rightarrow> Metrics) \<Rightarrow> 'f Collector \<Rightarrow> 'f Collector" where
  "on_counters g c = c\<lparr>co_counters := g (co_counters c)\<rparr>"

definition RecordAdd :: "'f Collector \<Rightarrow> 'f Collector" where
  "RecordAdd c = on_counters (add_one Adds) c"

definition RecordTest :: "bool \<Rightarrow> 'f Collector \<Rightarrow> 'f Collector" where
  "RecordTest hit c =
     (let c = on_counters (add_one Tests) c
      in if hit then on_counters (add_one Hits) c else on_counters (add_one Misses) c)"

definition RecordRemove :: "'f Collector \<Rightarrow> 'f Collector" where
  "RecordRemove c = on_counters (add_one Removes) c"

definition RecordOverflow :: "'f Collector \<Rightarrow> 'f Collector" where
  "RecordOverflow c = on_counters (add_one Overflows) c"

definition RecordUnderflow :: "'f Collector \<Rightarrow> 'f Collector" where
  "RecordUnderflow c = on_counters (add_one Underflows) c"

definition co_Metrics :: "'f Collector \<Rightarrow> Metrics" where
  "co_Metrics c =
     \<lparr>mt_adds = load Adds (co_counters c), mt_tests = load Tests (co_counters c),
      mt_hits = load Hits (co_counters c), mt_misses = load Misses (co_counters c),
      mt_removes = load Removes (co_counters c), mt_overflows = load Overflows (co_counters c),
      mt_underflows = load Underflows (co_counters c)\<rparr>"

text \<open>The critical section of \<open>TakeSnapshot\<close>; \<open>/\<close> on positive \<open>int\<close>s is \<open>div\<close>.\<close>

definition record_snapshot :: "'f Snapshot \<Rightarrow> 'f Collector \<Rightarrow> 'f Collector" where
  "record_snapshot snap c =
     (let hist = (if co_maxHist c \<le> int (length (co_history c))
                  then (let evict = co_maxHist c div 10;
                            evict = (if evict < 1 then 1 else evict)
                        in drop (nat evict) (co_history c))
                  else co_history c)
      in c\<lparr>co_history := hist @ [snap]\<rparr>)"

definition TakeSnapshot :: "int \<Rightarrow> 'f \<Rightarrow> 'f Collector \<Rightarrow> 'f Collector \<times> 'f Snapshot" where
  "TakeSnapshot now saturation c =
     (let m = co_Metrics c;
          snap = \<lparr>sn_timestamp = now, sn_metrics = m, sn_saturation = saturation,
                  sn_elapsed = now - co_created c\<rparr>
      in (record_snapshot snap c, snap))"

definition History :: "'f Collector \<Rightarrow> 'f Snapshot list" where
  "History c = co_history c"

definition HistorySince :: "int \<Rightarrow> 'f Collector \<Rightarrow> 'f Snapshot list" where
  "HistorySince t c = filter (\<lambda>s. t < sn_timestamp s) (co_history c)"

definition clear_history :: "int \<Rightarrow> 'f Collector \<Rightarrow> 'f Collector" where
  "clear_history now c = c\<lparr>co_history := [], co_created := now\<rparr>"

definition co_Reset :: "int \<Rightarrow> 'f Collector \<Rightarrow> 'f Collector" where
  "co_Reset now c =
     clear_history now
       (on_counters (store Underflows 0) (on_counters (store Overflows 0) (on_counters (store Removes 0)
       (on_counters (store Misses 0) (on_counters (store Hits 0) (on_counters (store Tests 0)
       (on_counters (store Adds 0) c)))))))"

definition Uptime :: "int \<Rightarrow> 'f Collector \<Rightarrow> int" where
  "Uptime now c = now - co_created c"

section \<open>Interleaved calls\<close>

datatype 'f action = Inc counter | Load counter | Zero counter | Stamp | Push 'f | Clear

datatype 'f call = CallRecordAdd | CallRecordTest bool | CallRecordRemove | CallRecordOverflow
  | CallRecordUnderflow | CallMetrics | CallTakeSnapshot 'f | CallReset

definition all_counters :: "counter list" where
  "all_counters = [Adds, Tests, Hits, Misses, Removes, Overflows, Underflows]"

fun program :: "'f call \<Rightarrow> 'f action list" where
  "program CallRecordAdd = [Inc Adds]"
| "program (CallRecordTest hit) = [Inc Tests, Inc (if hit then Hits else Misses)]"
| "program CallRecordRemove = [Inc Removes]"
| "program CallRecordOverflow = [Inc Overflows]"
| "program CallRecordUnderflow = [Inc Underflows]"
| "program CallMetrics = map Load all_counters"
| "program (CallTakeSnapshot sat) = map Load all_counters @ [Stamp, Push sat]"
| "program CallReset = map Zero all_counters @ [Clear]"

text \<open>
  A running call: the actions it still has to do, and its local variables: the metrics loaded
  so far, the timestamp and the elapsed time of the snapshot it prepares.
\<close>

type_synonym locals = "Metrics \<times> int \<times> int"

record 'f Running =
  ru_todo :: "'f action list"
  ru_locals :: locals

fun exec :: "int \<Rightarrow> 'f action \<Rightarrow> 'f Collector \<Rightarrow> locals \<Rightarrow> 'f Collector \<times> locals" where
  "exec now (Inc k) c l = (on_counters (add_one k) c, l)"
| "exec now (Load k) c (m, t, e) = (c, store k (load k (co_counters c)) m, t, e)"
| "exec now (Zero k) c l = (on_counters (store k 0) c, l)"
| "exec now Stamp c (m, t, e) = (c, m, now, now - co_created c)"
| "exec now (Push sat) c (m, t, e) =
     (record_snapshot \<lparr>sn_timestamp = t, sn_metrics = m, sn_saturation = sat, sn_elapsed = e\<rparr> c, m, t, e)"
| "exec now Clear c l = (clear_history now c, l)"

text \<open>
  A state is the collector, the calls in progress and the list of all calls ever started. A step
  starts a call or performs the next action of some call.
\<close>

type_synonym 'f col_state = "'f Collector \<times> 'f Running list \<times> 'f call list"

inductive col_step :: "'f col_state \<Rightarrow> 'f col_state \<Rightarrow> bool" where
  start: "col_step (c, rs, cs) (c, rs @ [\<lparr>ru_todo = program p, ru_locals = (zero_metrics, 0, 0)\<rparr>], p # cs)"
| act: "i < length rs \<Longrightarrow> ru_todo (rs ! i) = a # rest \<Longrightarrow> exec now a c (ru_locals (rs ! i)) = (c', l) \<Longrightarrow>
     col_step (c, rs, cs) (c', rs[i := \<lparr>ru_todo = rest, ru_locals = l\<rparr>], cs)"

inductive col_reach :: "'f col_state \<Rightarrow> bool" where
  init: "col_reach (NewCollector now maxHistory, [], [])"
| step: "col_reach st \<Longrightarrow> col_step st st' \<Longrightarrow> col_reach st'"

text \<open>Performed without interruption, the actions of a call are the method.\<close>

fun exec_all :: "int \<Rightarrow> 'f action list \<Rightarrow> 'f Collector \<Rightarrow> locals \<Rightarrow> 'f Collector \<times> locals" where
  "exec_all now [] c l = (c, l)"
| "exec_all now (a # as) c l = (case exec now a c l of (c, l) \<Rightarrow> exec_all now as c l)"

lemma load_store [simp]: "load k (store j v m) = (if k = j then v else load k m)"
  by (cases k; cases j) simp_all

lemma uninterrupted:
  "fst (exec_all now (program CallRecordAdd) c l) = RecordAdd c"
  "fst (exec_all now (program (CallRecordTest hit)) c l) = RecordTest hit c"
  "fst (exec_all now (program CallRecordRemove) c l) = RecordRemove c"
  "fst (exec_all now (program CallRecordOverflow) c l) = RecordOverflow c"
  "fst (exec_all now (program CallRecordUnderflow) c l) = RecordUnderflow c"
  "fst (snd (exec_all now (program CallMetrics) c l)) = co_Metrics c"
  "fst (exec_all now (program (CallTakeSnapshot sat)) c l) = fst (TakeSnapshot now sat c)"
  "fst (exec_all now (program CallReset) c l) = co_Reset now c"
  by (cases l; cases "fst l"; simp add: all_counters_def RecordAdd_def RecordTest_def RecordRemove_def
      RecordOverflow_def RecordUnderflow_def co_Metrics_def TakeSnapshot_def co_Reset_def Let_def)+

section \<open>Counting\<close>

definition pending :: "counter \<Rightarrow> 'f Running list \<Rightarrow> nat" where
  "pending k rs = (\<Sum>r\<leftarrow>rs. count_list (ru_todo r) (Inc k))"

text \<open>What the started calls are meant to count: additions, tests, hits, misses and so on.\<close>

definition meant :: "counter \<Rightarrow> 'f call \<Rightarrow> nat" where
  "meant k p = (case p of
       CallRecordAdd \<Rightarrow> of_bool (k = Adds)
     | CallRecordTest hit \<Rightarrow> of_bool (k = Tests \<or> k = Hits \<and> hit \<or> k = Misses \<and> \<not> hit)
     | CallRecordRemove \<Rightarrow> of_bool (k = Removes)
     | CallRecordOverflow \<Rightarrow> of_bool (k = Overflows)
     | CallRecordUnderflow \<Rightarrow> of_bool (k = Underflows)
     | _ \<Rightarrow> 0)"

definition due :: "counter \<Rightarrow> 'f call list \<Rightarrow> nat" where
  "due k cs = (\<Sum>p\<leftarrow>cs. meant k p)"

lemma program_meant: "count_list (program p) (Inc k) = meant k p"
  by (cases p) (auto simp: meant_def all_counters_def)

lemma pending_start: "pending k (rs @ [r]) = pending k rs + count_list (ru_todo r) (Inc k)"
  by (simp add: pending_def)

lemma pending_act:
  assumes "i < length rs" "ru_todo (rs ! i) = a # rest"
  shows "pending k rs = pending k (rs[i := \<lparr>ru_todo = rest, ru_locals = l\<rparr>]) + (if a = Inc k then 1 else 0)"
proof -
  have "rs = take i rs @ rs ! i # drop (Suc i) rs" using assms(1) by (rule id_take_nth_drop)
  then have "pending k rs = pending k (take i rs) + count_list (a # rest) (Inc k) + pending k (drop (Suc i) rs)"
    using assms(2) by (metis (no_types, lifting) ab_semigroup_add_class.add_ac(1) list.simps(9) map_append
        pending_def sum_list.Cons sum_list_append)
  moreover have "pending k (rs[i := \<lparr>ru_todo = rest, ru_locals = l\<rparr>])
      = pending k (take i rs) + count_list rest (Inc k) + pending k (drop (Suc i) rs)"
    using assms(1) by (simp add: upd_conv_take_nth_drop pending_def)
  ultimately show ?thesis by simp
qed

text \<open>As long as no call of \<open>Reset\<close> has started.\<close>

definition no_zero :: "'f Running list \<Rightarrow> bool" where
  "no_zero rs \<longleftrightarrow> (\<forall>r \<in> set rs. \<forall>a \<in> set (ru_todo r). \<forall>k. a \<noteq> Zero k)"

lemma no_zero_update:
  assumes "no_zero rs" "\<And>a k. a \<in> set (ru_todo x) \<Longrightarrow> a \<noteq> Zero k"
  shows "no_zero (rs[i := x])"
  using assms set_update_subset_insert [of rs i x] by (fastforce simp: no_zero_def)

lemma no_zero_program: "p \<noteq> CallReset \<Longrightarrow> a \<in> set (program p) \<Longrightarrow> a \<noteq> Zero k"
  by (cases p) (auto simp: all_counters_def)

lemma load_exec:
  assumes "exec now a c l = (c', l')" "\<forall>j. a \<noteq> Zero j"
  shows "load k (co_counters c') = load k (co_counters c) + (if a = Inc k then 1 else 0)"
  using assms by (cases a; cases l)
    (auto simp: on_counters_def add_one_def record_snapshot_def clear_history_def Let_def)

definition counted_up :: "'f col_state \<Rightarrow> bool" where
  "counted_up st \<longleftrightarrow> (case st of (c, rs, cs) \<Rightarrow>
     CallReset \<notin> set cs \<longrightarrow> no_zero rs \<and>
       (\<forall>k. load k (co_counters c) + of_nat (pending k rs) = of_nat (due k cs)))"

lemma counted_up_step:
  assumes "col_step st st'" "counted_up st"
  shows "counted_up st'"
  using assms
proof cases
  case (start c rs cs p)
  show ?thesis
    using assms(2) no_zero_program [of p]
    by (auto simp: start counted_up_def pending_start program_meant due_def no_zero_def add.assoc [symmetric])
next
  case (act i rs a rest now c c' l cs)
  show ?thesis
  proof (cases "CallReset \<in> set cs")
    case False
    with assms(2) act have old: "no_zero rs"
        "\<And>k. load k (co_counters c) + of_nat (pending k rs) = of_nat (due k cs)"
      by (auto simp: counted_up_def)
    have nz: "\<forall>j. a \<noteq> Zero j" using old(1) act(3,4) nth_mem by (fastforce simp: no_zero_def)
    have "no_zero (rs[i := \<lparr>ru_todo = rest, ru_locals = l\<rparr>])"
      by (rule no_zero_update [OF old(1)]) (use old(1) act(3,4) nth_mem in \<open>fastforce simp: no_zero_def\<close>)
    moreover have "load k (co_counters c') + of_nat (pending k (rs[i := \<lparr>ru_todo = rest, ru_locals = l\<rparr>]))
        = of_nat (due k cs)" for k
      using old(2) [of k] pending_act [OF act(3,4), of k l] load_exec [OF act(5) nz, of k]
      by (simp add: algebra_simps split: if_splits)
    ultimately show ?thesis by (simp add: act counted_up_def)
  qed (simp add: act counted_up_def)
qed

lemma reach_counted_up: "col_reach st \<Longrightarrow> counted_up st"
proof (induction rule: col_reach.induct)
  case (init now maxHistory)
  have "load k zero_metrics = 0" for k by (cases k) (simp_all add: zero_metrics_def)
  then show ?case by (simp add: counted_up_def NewCollector_def Let_def no_zero_def pending_def due_def)
qed (rule counted_up_step)

section \<open>History\<close>

definition bounded_history :: "'f Collector \<Rightarrow> bool" where
  "bounded_history c \<longleftrightarrow> 0 < co_maxHist c \<and> int (length (co_history c)) \<le> co_maxHist c"

lemma record_snapshot_bounded:
  assumes "bounded_history c"
  shows "bounded_history (record_snapshot snap c)"
  using assms by (auto simp: bounded_history_def record_snapshot_def Let_def)

lemma other_bounded:
  "bounded_history (on_counters g c) = bounded_history c" "bounded_history c \<Longrightarrow> bounded_history (clear_history now c)"
  by (simp_all add: bounded_history_def on_counters_def clear_history_def)

lemma exec_bounded: "exec now a c l = (c', l') \<Longrightarrow> bounded_history c \<Longrightarrow> bounded_history c'"
  by (cases a; cases l) (auto simp: record_snapshot_bounded other_bounded)

lemma reach_bounded: "col_reach st \<Longrightarrow> bounded_history (fst st)"
proof (induction rule: col_reach.induct)
  case (step st st')
  from step(2) show ?case
  proof cases
    case (act i rs a rest now c c' l cs)
    with step.IH exec_bounded [OF act(5)] show ?thesis by simp
  qed (use step.IH in simp)
qed (simp add: bounded_history_def NewCollector_def Let_def)

text \<open>The history is what remains of all snapshots after dropping old ones.\<close>

lemma record_snapshot_suffix:
  "suffix (co_history c) all \<Longrightarrow> suffix (co_history (record_snapshot snap c)) (all @ [snap])"
  by (auto simp: record_snapshot_def Let_def suffix_def) (metis append.assoc append_take_drop_id)+

fun take_all :: "'f Collector \<Rightarrow> (int \<times> 'f) list \<Rightarrow> 'f Collector \<times> 'f Snapshot list" where
  "take_all c [] = (c, [])"
| "take_all c ((now, sat) # xs) =
     (case TakeSnapshot now sat c of (c, snap) \<Rightarrow> case take_all c xs of (c, snaps) \<Rightarrow> (c, snap # snaps))"

definition evicted :: "'f Collector \<Rightarrow> int" where
  "evicted c = max 1 (co_maxHist c div 10)"

lemma record_snapshot_length:
  assumes "bounded_history c"
  shows "min (int (length (co_history c)) + 1) (co_maxHist c - evicted c + 1)
    \<le> int (length (co_history (record_snapshot snap c)))"
  using assms by (auto simp: bounded_history_def record_snapshot_def evicted_def Let_def)

lemma record_snapshot_last: "last (co_history (record_snapshot snap c)) = snap"
    "co_history (record_snapshot snap c) \<noteq> []" "co_maxHist (record_snapshot snap c) = co_maxHist c"
  by (simp_all add: record_snapshot_def Let_def)

lemma TakeSnapshot_record:
  "TakeSnapshot now sat c = (c', snap) \<Longrightarrow> c' = record_snapshot snap c"
  by (auto simp: TakeSnapshot_def Let_def)

lemma take_all_history:
  assumes "take_all c xs = (c', snaps)" "bounded_history c"
  shows "bounded_history c' \<and> suffix (co_history c') (co_history c @ snaps) \<and> co_maxHist c' = co_maxHist c
    \<and> length snaps = length xs
    \<and> min (int (length (co_history c)) + int (length xs)) (co_maxHist c - evicted c + 1) \<le> int (length (co_history c'))"
  using assms
proof (induction xs arbitrary: c snaps)
  case Nil
  then show ?case by auto
next
  case (Cons x xs)
  obtain c1 snap where one: "TakeSnapshot (fst x) (snd x) c = (c1, snap)" by fastforce
  with Cons.prems(1) obtain snaps1 where rest: "take_all c1 xs = (c', snaps1)" "snaps = snap # snaps1"
    by (cases x) (auto split: prod.splits)
  note c1 = TakeSnapshot_record [OF one]
  have "bounded_history c1" unfolding c1 by (rule record_snapshot_bounded [OF Cons.prems(2)])
  note IH = Cons.IH [OF rest(1) this]
  have "suffix (co_history c1) (co_history c @ [snap])"
    unfolding c1 by (rule record_snapshot_suffix) simp
  then obtain zs where "co_history c @ [snap] = zs @ co_history c1" by (auto simp: suffix_def)
  then have "co_history c @ snap # snaps1 = zs @ co_history c1 @ snaps1"
    by (metis append.assoc append_Cons append_Nil)
  then have "suffix (co_history c1 @ snaps1) (co_history c @ snaps)" using rest(2) by (auto simp: suffix_def)
  moreover have "evicted c1 = evicted c" "co_maxHist c1 = co_maxHist c"
    by (simp_all add: c1 evicted_def record_snapshot_last)
  ultimately show ?case
    using IH record_snapshot_length [OF Cons.prems(2), of snap] rest(2)
    by (auto simp: c1 [symmetric] intro: suffix_order.trans)
qed

section \<open>Schedules\<close>

text \<open>A scheduler that starts calls and lets them act, for concrete runs.\<close>

datatype 'f sched = Start "'f call" | Act nat

fun sched_step :: "'f col_state \<Rightarrow> 'f sched \<Rightarrow> 'f col_state" where
  "sched_step (c, rs, cs) (Start p) = (c, rs @ [\<lparr>ru_todo = program p, ru_locals = (zero_metrics, 0, 0)\<rparr>], p # cs)"
| "sched_step (c, rs, cs) (Act i) =
     (if length rs \<le> i then (c, rs, cs)
      else case ru_todo (rs ! i) of
             [] \<Rightarrow> (c, rs, cs)
           | a # rest \<Rightarrow> (case exec 0 a c (ru_locals (rs ! i)) of
               (c, l) \<Rightarrow> (c, rs[i := \<lparr>ru_todo = rest, ru_locals = l\<rparr>], cs)))"

lemma sched_reach: "col_reach st \<Longrightarrow> col_reach (sched_step st e)"
proof (cases st; cases e)
  fix c rs cs p
  assume "col_reach st" "st = (c, rs, cs)" "e = Start p"
  then show ?thesis using col_reach.step [OF _ col_step.start] by auto
next
  fix c rs cs i
  assume st: "col_reach st" "st = (c, rs, cs)" "e = Act i"
  show ?thesis
  proof (cases "i < length rs \<and> ru_todo (rs ! i) \<noteq> []")
    case True
    then obtain a rest where "ru_todo (rs ! i) = a # rest" by (cases "ru_todo (rs ! i)") auto
    with True st show ?thesis
      by (auto split: prod.splits intro: col_reach.step [OF _ col_step.act])
  qed (use st in \<open>auto split: list.splits\<close>)
qed

definition sched_run :: "'f sched list \<Rightarrow> 'f col_state" where
  "sched_run es = foldl sched_step (NewCollector 0 10, [], []) es"

lemma sched_run_reach: "col_reach (sched_run es)"
proof -
  have "col_reach (foldl sched_step st es)" if "col_reach st" for st
    using that by (induction es arbitrary: st) (simp_all add: sched_reach)
  then show ?thesis by (simp add: sched_run_def col_reach.init)
qed

section \<open>Properties\<close>

lemma due_tests: "due Tests cs = due Hits cs + due Misses cs"
proof (induction cs)
  case (Cons p cs)
  then show ?case by (cases p) (auto simp: due_def meant_def)
qed (simp add: due_def)

lemma pending_none: "\<forall>r \<in> set rs. ru_todo r = [] \<Longrightarrow> pending k rs = 0"
  by (simp add: pending_def sum_list_eq_0_iff)

text \<open>C14: No update of the collector is lost, however calls interleave: while no \<open>Reset\<close> has been
  called, every counter plus the increments still to be done by running calls is the number of
  additions, tests, hits, misses and so on that the calls started so far stand for. In particular, whenever no call is running,
  the counters are exact and tests = hits + misses.\<close>

theorem collector_loses_no_update:
  assumes "col_reach (c, rs, cs)" "CallReset \<notin> set cs"
  shows "(\<forall>k. load k (co_counters c) + of_nat (pending k rs) = of_nat (due k cs))
    \<and> ((\<forall>r \<in> set rs. ru_todo r = []) \<longrightarrow>
         (\<forall>k. load k (co_counters c) = of_nat (due k cs))
         \<and> mt_tests (co_Metrics c) = mt_hits (co_Metrics c) + mt_misses (co_Metrics c))"
proof -
  have all: "load k (co_counters c) + of_nat (pending k rs) = of_nat (due k cs)" for k
    using reach_counted_up [OF assms(1)] assms(2) by (simp add: counted_up_def)
  show ?thesis
  proof (intro conjI impI allI all)
    assume idle: "\<forall>r \<in> set rs. ru_todo r = []"
    show done_all: "load k (co_counters c) = of_nat (due k cs)" for k
      using all [of k] pending_none [OF idle] by simp
    show "mt_tests (co_Metrics c) = mt_hits (co_Metrics c) + mt_misses (co_Metrics c)"
      by (simp only: co_Metrics_def Metrics.simps done_all due_tests of_nat_add)
  qed
qed

theorem collector_loses_no_update_witness:
  "case sched_run [Start (CallRecordTest True), Start (CallRecordTest False), Act 0, Act 1, Act 1, Act 0 :: real sched] of
     (c, rs, cs) \<Rightarrow> load Tests (co_counters c) = 2 \<and> load Tests (co_counters c) = of_nat (due Tests cs)
   \<and> mt_tests (co_Metrics c) = mt_hits (co_Metrics c) + mt_misses (co_Metrics c)"
proof -
  let ?es = "[Start (CallRecordTest True), Start (CallRecordTest False), Act 0, Act 1, Act 1, Act 0 :: real sched]"
  obtain c rs cs where run: "sched_run ?es = (c, rs, cs)" by (rule prod_cases3)
  then have reach: "col_reach (c, rs, cs)" using sched_run_reach [of ?es] by simp
  have facts: "CallReset \<notin> set cs" "\<forall>r \<in> set rs. ru_todo r = []" "load Tests (co_counters c) = 2"
    using run by (auto simp: sched_run_def NewCollector_def on_counters_def add_one_def zero_metrics_def)
  show ?thesis
    unfolding run prod.case using collector_loses_no_update [OF reach facts(1)] facts(2,3) by metis
qed

text \<open>C33: The history never outgrows its bound, in any interleaving; and snapshots taken one after
  the other leave in it exactly the most recent ones, at least the bound less one tenth.\<close>

theorem history_keeps_latest:
  assumes "col_reach (c, rs, cs)" "take_all c xs = (c', snaps)"
  shows "int (length (History c)) \<le> co_maxHist c
    \<and> suffix (History c') (History c @ snaps) \<and> length snaps = length xs
    \<and> int (length (History c')) \<le> co_maxHist c'
    \<and> min (int (length (History c)) + int (length xs)) (co_maxHist c - evicted c + 1) \<le> int (length (History c'))"
  using reach_bounded [OF assms(1)] take_all_history [OF assms(2)]
  by (simp add: bounded_history_def History_def)

theorem history_keeps_latest_witness:
  "case take_all (NewCollector 0 2) [(1, True), (2, False), (3, True)] of (c', snaps) \<Rightarrow>
     length (History c') = 2 \<and> suffix (History c') snaps"
proof -
  have new: "col_reach (NewCollector 0 2, [], [])" by (rule col_reach.init)
  obtain c' snaps where run: "take_all (NewCollector 0 2) [(1, True), (2, False), (3, True)] = (c', snaps)"
    by (rule prod.exhaust)
  have "co_maxHist c' = 2"
    using run by (auto simp: TakeSnapshot_def record_snapshot_def Let_def NewCollector_def)
  then show ?thesis
    unfolding run using history_keeps_latest [OF new run]
    by (simp add: evicted_def History_def NewCollector_def)
qed

text \<open>C39: What goes wrong between the atomic operations. A call of \<open>Metrics\<close> that loads the test
  counter before the hit counter can report more hits than tests, a hit rate of 2; and a
  \<open>Reset\<close> between the two increments of \<open>RecordTest\<close> leaves, with no call running any more, one
  hit and no test, from where the difference never goes away.\<close>

theorem metrics_not_atomic:
  "(\<exists>(c :: real Collector) rs cs r. col_reach (c, rs, cs) \<and> CallReset \<notin> set cs \<and> r \<in> set rs \<and> ru_todo r = []
      \<and> mt_tests (fst (ru_locals r)) = 1 \<and> mt_hits (fst (ru_locals r)) = 2
      \<and> HitRate exact (fst (ru_locals r)) = 2)
   \<and> (\<exists>(c :: real Collector) rs cs. col_reach (c, rs, cs) \<and> list_all (\<lambda>r. ru_todo r = []) rs
      \<and> mt_tests (co_Metrics c) = 0 \<and> mt_hits (co_Metrics c) = 1)"
proof
  let ?es = "[Start CallMetrics, Act 0, Start (CallRecordTest True), Act 1, Act 1, Act 0,
      Start (CallRecordTest True), Act 2, Act 2, Act 0, Act 0, Act 0, Act 0, Act 0] :: real sched list"
  obtain c rs cs where run: "sched_run ?es = (c, rs, cs)" by (rule prod_cases3)
  then have reach: "col_reach (c, rs, cs)" using sched_run_reach [of ?es] by simp
  have "CallReset \<notin> set cs" "rs ! 0 \<in> set rs" "ru_todo (rs ! 0) = []"
      "mt_tests (fst (ru_locals (rs ! 0))) = 1" "mt_hits (fst (ru_locals (rs ! 0))) = 2"
    using run by (auto simp: sched_run_def NewCollector_def on_counters_def add_one_def zero_metrics_def
        all_counters_def)
  moreover from this have "HitRate exact (fst (ru_locals (rs ! 0))) = 2" by (simp add: HitRate_def)
  ultimately show "\<exists>(c :: real Collector) rs cs r. col_reach (c, rs, cs) \<and> CallReset \<notin> set cs \<and> r \<in> set rs \<and> ru_todo r = []
      \<and> mt_tests (fst (ru_locals r)) = 1 \<and> mt_hits (fst (ru_locals r)) = 2
      \<and> HitRate exact (fst (ru_locals r)) = 2"
    using reach by blast
next
  let ?es = "[Start (CallRecordTest True), Act 0, Start CallReset, Act 1, Act 1, Act 1, Act 1, Act 1, Act 1,
      Act 1, Act 1, Act 0] :: real sched list"
  obtain c rs cs where run: "sched_run ?es = (c, rs, cs)" by (rule prod_cases3)
  then have reach: "col_reach (c, rs, cs)" using sched_run_reach [of ?es] by simp
  have "list_all (\<lambda>r. ru_todo r = []) rs" "mt_tests (co_Metrics c) = 0" "mt_hits (co_Metrics c) = 1"
    using run by (auto simp: sched_run_def NewCollector_def on_counters_def add_one_def zero_metrics_def
        all_counters_def clear_history_def co_Metrics_def)
  with reach show "\<exists>(c :: real Collector) rs cs. col_reach (c, rs, cs) \<and> list_all (\<lambda>r. ru_todo r = []) rs
      \<and> mt_tests (co_Metrics c) = 0 \<and> mt_hits (co_Metrics c) = 1"
    by blast
qed

end
