(* ===== verification/Rate.thy ===== *)
theory Rate
  imports Float64
begin

text \<open>
  \<open>internal/stats/rate.go\<close>: events per sliding window, counted in a ring of buckets. A point in
  time is its \<open>UnixNano\<close>, a duration a number of nanoseconds, and what \<open>time.Now\<close> returns is an
  argument. \<open>Truncate\<close> rounds down to a multiple of the bucket size since the zero time, the year
  1, while the bucket index divides the time since 1970. An \<open>int64\<close> counter is a 64-bit word.
\<close>

record bucket =
  bk_start :: int
  bk_count :: u64

record RateTracker =
  rt_buckets :: "bucket list"
  rt_bucketSize :: int
  rt_window :: int
  rt_numBuckets :: int

abbreviation (input) second :: int where "second \<equiv> 1000000000"

definition zero_time :: int where
  "zero_time = - 62135596800 * second"

definition truncate_to :: "int \<Rightarrow> int \<Rightarrow> int" where
  "truncate_to t d = t - (t - zero_time) mod d"

section \<open>Operations\<close>

definition NewRateTracker :: "int \<Rightarrow> int \<Rightarrow> int \<Rightarrow> RateTracker" where
  "NewRateTracker now window bucketSize =
     (let window = (if window \<le> 0 then 60 * second else window);
          bucketSize = (if bucketSize \<le> 0 \<or> window < bucketSize then second else bucketSize);
          numBuckets = window sdiv bucketSize;
          numBuckets = (if numBuckets < 1 then 1 else numBuckets)
      in \<lparr>rt_buckets = replicate (nat numBuckets) \<lparr>bk_start = now, bk_count = 0\<rparr>,
          rt_bucketSize = bucketSize, rt_window = window, rt_numBuckets = numBuckets\<rparr>)"

definition bucketIndex :: "RateTracker \<Rightarrow> int \<Rightarrow> int" where
  "bucketIndex rt t =
     (let idx = (t sdiv rt_bucketSize rt) smod rt_numBuckets rt
      in if idx < 0 then idx + rt_numBuckets rt else idx)"

text \<open>\<open>None\<close> stands for the panic of an index out of range.\<close>

definition rt_Record :: "int \<Rightarrow> u64 \<Rightarrow> RateTracker \<Rightarrow> RateTracker option" where
  "rt_Record now n rt =
     (let idx = bucketIndex rt now
      in if idx < 0 \<or> length (rt_buckets rt) \<le> nat idx then None
         else let b = rt_buckets rt ! nat idx;
                  b = (if rt_bucketSize rt \<le> now - bk_start b
                       then \<lparr>bk_start = truncate_to now (rt_bucketSize rt), bk_count = n\<rparr>
                       else b\<lparr>bk_count := bk_count b + n\<rparr>)
              in Some (rt\<lparr>rt_buckets := (rt_buckets rt)[nat idx := b]\<rparr>))"

definition Total :: "int \<Rightarrow> RateTracker \<Rightarrow> u64" where
  "Total now rt =
     (let cutoff = now - rt_window rt
      in foldl (\<lambda>total b. if cutoff \<le> bk_start b then total + bk_count b else total) 0 (rt_buckets rt))"

text \<open>\<open>Duration.Seconds\<close> adds the whole seconds and the rest separately.\<close>

definition Seconds :: "'f Float \<Rightarrow> int \<Rightarrow> 'f" where
  "Seconds F d =
     fp_add F (fp_of_int F (d sdiv second)) (fp_div F (fp_of_int F (d smod second)) (fp_of_int F second))"

definition rt_Rate :: "'f Float \<Rightarrow> int \<Rightarrow> RateTracker \<Rightarrow> 'f" where
  "rt_Rate F now rt =
     (let cutoff = now - rt_window rt;
          (total, activeDuration) = foldl (\<lambda>(total, active) b.
            if cutoff \<le> bk_start b
            then let elapsed = now - bk_start b;
                     elapsed = (if rt_bucketSize rt < elapsed then rt_bucketSize rt else elapsed)
                 in (total + bk_count b, active + elapsed)
            else (total, active)) (0, 0) (rt_buckets rt)
      in if activeDuration \<le> 0 then fp_lit F 0
         else fp_div F (fp_of_int F (sint total)) (Seconds F activeDuration))"

definition rt_Reset :: "int \<Rightarrow> RateTracker \<Rightarrow> RateTracker" where
  "rt_Reset now rt = rt\<lparr>rt_buckets := map (\<lambda>_. \<lparr>bk_start = now, bk_count = 0\<rparr>) (rt_buckets rt)\<rparr>"

record 'f WindowSummary =
  ws_Window :: int
  ws_BucketSize :: int
  ws_NumBuckets :: int
  ws_ActiveTotal :: u64
  ws_RatePerSec :: 'f

text \<open>\<open>Summary\<close> reads the clock twice, once in \<open>Total\<close> and once in \<open>Rate\<close>.\<close>

definition Summary :: "'f Float \<Rightarrow> int \<Rightarrow> int \<Rightarrow> RateTracker \<Rightarrow> 'f WindowSummary" where
  "Summary F now1 now2 rt =
     \<lparr>ws_Window = rt_window rt, ws_BucketSize = rt_bucketSize rt, ws_NumBuckets = rt_numBuckets rt,
      ws_ActiveTotal = Total now1 rt, ws_RatePerSec = rt_Rate F now2 rt\<rparr>"

fun rt_records :: "(int \<times> u64) list \<Rightarrow> RateTracker \<Rightarrow> RateTracker option" where
  "rt_records [] rt = Some rt"
| "rt_records ((t, n) # es) rt = (case rt_Record t n rt of None \<Rightarrow> None | Some rt \<Rightarrow> rt_records es rt)"

section \<open>Shape\<close>

definition wf_rt :: "RateTracker \<Rightarrow> bool" where
  "wf_rt rt \<longleftrightarrow> 0 < rt_bucketSize rt \<and> rt_bucketSize rt \<le> rt_window rt
     \<and> rt_numBuckets rt = rt_window rt div rt_bucketSize rt
     \<and> length (rt_buckets rt) = nat (rt_numBuckets rt) \<and> 0 < rt_numBuckets rt"

text \<open>The defaults make every tracker usable, except for a window below one second with a bad bucket size.\<close>

lemma New_wf_rt:
  assumes "0 < bucketSize" "bucketSize \<le> window"
  shows "wf_rt (NewRateTracker now window bucketSize)"
    "rt_window (NewRateTracker now window bucketSize) = window"
    "rt_bucketSize (NewRateTracker now window bucketSize) = bucketSize"
proof -
  have "1 \<le> window div bucketSize"
    using assms zdiv_mono1 [of bucketSize window bucketSize] by simp
  then show "wf_rt (NewRateTracker now window bucketSize)"
    "rt_window (NewRateTracker now window bucketSize) = window"
    "rt_bucketSize (NewRateTracker now window bucketSize) = bucketSize"
    using assms by (simp_all add: NewRateTracker_def wf_rt_def Let_def sdiv_pos)
qed

lemma bucketIndex_pos:
  assumes "wf_rt rt" "0 \<le> t"
  shows "bucketIndex rt t = t div rt_bucketSize rt mod rt_numBuckets rt"
    "0 \<le> bucketIndex rt t" "nat (bucketIndex rt t) < length (rt_buckets rt)"
proof -
  have pos: "0 < rt_bucketSize rt" "0 < rt_numBuckets rt" using assms(1) by (simp_all add: wf_rt_def)
  have "0 \<le> t div rt_bucketSize rt" using assms(2) pos(1) by (simp add: pos_imp_zdiv_nonneg_iff)
  then show eq: "bucketIndex rt t = t div rt_bucketSize rt mod rt_numBuckets rt"
    using assms(2) pos by (simp add: bucketIndex_def Let_def sdiv_pos smod_pos not_less)
  show "0 \<le> bucketIndex rt t" using pos by (simp add: eq)
  show "nat (bucketIndex rt t) < length (rt_buckets rt)"
    using pos assms(1) by (simp add: eq wf_rt_def nat_less_eq_zless)
qed

lemma Record_wf:
  assumes "wf_rt rt" "0 \<le> t"
  shows "\<exists>rt'. rt_Record t n rt = Some rt' \<and> wf_rt rt' \<and> rt_window rt' = rt_window rt
    \<and> rt_bucketSize rt' = rt_bucketSize rt \<and> rt_numBuckets rt' = rt_numBuckets rt"
  using assms(1) bucketIndex_pos(2,3) [OF assms]
  by (simp add: rt_Record_def Let_def wf_rt_def)

section \<open>What the ring holds\<close>

text \<open>The events of a time slot, and the latest slot of a residue class that had an event.\<close>

definition count_at :: "int \<Rightarrow> (int \<times> u64) list \<Rightarrow> int \<Rightarrow> u64" where
  "count_at B es s = (\<Sum>(t, n)\<leftarrow>es. if t div B = s then n else 0)"

definition latest :: "int \<Rightarrow> int \<Rightarrow> int \<Rightarrow> (int \<times> u64) list \<Rightarrow> int \<Rightarrow> int" where
  "latest B N s0 es i = foldl (\<lambda>s (t, n). if t div B mod N = i then t div B else s) s0 es"

lemma count_at_snoc: "count_at B (es @ [(t, n)]) s = count_at B es s + (if t div B = s then n else 0)"
  by (simp add: count_at_def)

lemma latest_Nil [simp]: "latest B N base [] i = base"
  by (simp add: latest_def)

lemma latest_snoc [simp]:
  "latest B N base (es @ [(t, n)]) i = (if t div B mod N = i then t div B else latest B N base es i)"
  by (simp add: latest_def)

lemma latest_le:
  assumes "0 < B" "base \<le> now div B" "\<forall>e \<in> set es. fst e \<le> now"
  shows "latest B N base es i \<le> now div B"
  using assms(3)
proof (induction es rule: rev_induct)
  case (snoc e es)
  then show ?case using assms(1) by (cases e) (simp add: zdiv_mono1)
qed (simp add: assms(2))

lemma latest_ge:
  assumes "0 < B" "sorted (map fst es)" "(t, n) \<in> set es"
  shows "t div B \<le> latest B N base es (t div B mod N)
    \<and> latest B N base es (t div B mod N) mod N = t div B mod N"
  using assms(2,3)
proof (induction es rule: rev_induct)
  case (snoc e es)
  obtain t' n' where e: "e = (t', n')" by (cases e)
  show ?case
  proof (cases "(t, n) \<in> set es")
    case True
    with snoc.prems(1) have "t \<le> t'" by (force simp: e sorted_append)
    then have "t div B \<le> t' div B" by (rule zdiv_mono1 [OF _ assms(1)])
    with snoc.IH snoc.prems(1) True show ?thesis by (simp add: e sorted_append)
  next
    case False
    with snoc.prems(2) show ?thesis by (simp add: e)
  qed
qed simp

lemma count_at_none:
  "\<forall>e \<in> set es. fst e div B \<noteq> s \<Longrightarrow> count_at B es s = 0"
  by (induction es) (auto simp: count_at_def)

definition ring :: "int \<Rightarrow> (int \<times> u64) list \<Rightarrow> RateTracker \<Rightarrow> bool" where
  "ring t0 es rt \<longleftrightarrow> wf_rt rt \<and> (\<forall>i < nat (rt_numBuckets rt).
     let s = latest (rt_bucketSize rt) (rt_numBuckets rt) (t0 div rt_bucketSize rt) es (int i)
     in rt_buckets rt ! i = \<lparr>bk_start = s * rt_bucketSize rt,
          bk_count = (if s mod rt_numBuckets rt = int i then count_at (rt_bucketSize rt) es s else 0)\<rparr>)"

lemma truncate_slot: "B dvd zero_time \<Longrightarrow> truncate_to t B = t div B * B"
proof -
  assume "B dvd zero_time"
  then have "(t - zero_time) mod B = t mod B" by (metis mod_diff_right_eq diff_zero dvd_eq_mod_eq_0)
  then show ?thesis by (simp add: truncate_to_def minus_mod_eq_div_mult)
qed

lemma ring_New:
  assumes "0 < B" "B \<le> W" "B dvd t0"
  shows "ring t0 [] (NewRateTracker t0 W B)"
proof -
  note wf = New_wf_rt [OF assms(1,2), of t0]
  have n: "nat (rt_numBuckets (NewRateTracker t0 W B)) = length (rt_buckets (NewRateTracker t0 W B))"
    using wf(1) by (simp add: wf_rt_def)
  have "rt_buckets (NewRateTracker t0 W B) ! i = \<lparr>bk_start = t0, bk_count = 0\<rparr>"
    if "i < length (rt_buckets (NewRateTracker t0 W B))" for i
    using that by (simp add: NewRateTracker_def Let_def)
  then show ?thesis
    using wf assms(3) by (auto simp: ring_def n count_at_def Let_def)
qed

lemma slot_expired:
  assumes "0 < (B :: int)" "s \<le> t div B"
  shows "B \<le> t - s * B \<longleftrightarrow> s < t div B"
proof (cases "s < t div B")
  case True
  then have "(s + 1) * B \<le> t div B * B" using assms(1) by (intro mult_right_mono) simp_all
  also have "\<dots> \<le> t" using assms(1) minus_mod_eq_div_mult [of t B] pos_mod_sign [of B t] by linarith
  finally show ?thesis using True by (simp add: algebra_simps)
next
  case False
  then have "s = t div B" using assms(2) by simp
  then have "t - s * B = t mod B" by (simp add: minus_div_mult_eq_mod)
  then show ?thesis using False pos_mod_bound [OF assms(1), of t] by simp
qed

lemma ring_step:
  assumes "ring t0 es rt" "rt_bucketSize rt dvd zero_time" "0 \<le> t0" "sorted (t0 # map fst es @ [t])"
  shows "\<exists>rt'. rt_Record t n rt = Some rt' \<and> ring t0 (es @ [(t, n)]) rt'"
proof -
  let ?B = "rt_bucketSize rt" and ?N = "rt_numBuckets rt"
  let ?base = "t0 div ?B" and ?q = "t div ?B"
  let ?s = "\<lambda>i. latest ?B ?N ?base es i"
  have wf: "wf_rt rt" and B: "0 < ?B" and N: "0 < ?N" and len: "length (rt_buckets rt) = nat ?N"
    using assms(1) by (simp_all add: ring_def wf_rt_def)
  have t: "0 \<le> t" "t0 \<le> t" "\<forall>e \<in> set es. fst e \<le> t" "sorted (map fst es)"
    using assms(3,4) by (auto simp: sorted_append)
  let ?i = "?q mod ?N"
  have i: "0 \<le> ?i" "nat ?i < nat ?N" using N by simp_all
  have idx: "bucketIndex rt t = ?i" by (rule bucketIndex_pos(1) [OF wf t(1)])
  let ?b = "rt_buckets rt ! nat ?i"
  have b: "?b = \<lparr>bk_start = ?s ?i * ?B, bk_count = (if ?s ?i mod ?N = ?i then count_at ?B es (?s ?i) else 0)\<rparr>"
    using assms(1) i by (auto simp: ring_def Let_def)
  have le: "?s ?i \<le> ?q" by (rule latest_le [OF B zdiv_mono1 [OF t(2) B] t(3)])
  let ?b' = "if ?B \<le> t - bk_start ?b then \<lparr>bk_start = truncate_to t ?B, bk_count = n\<rparr>
      else ?b\<lparr>bk_count := bk_count ?b + n\<rparr>"
  have "?b' = \<lparr>bk_start = ?q * ?B, bk_count = count_at ?B es ?q + n\<rparr>"
  proof (cases "?s ?i < ?q")
    case True
    have "fst e div ?B \<noteq> ?q" if "e \<in> set es" for e
      using latest_ge [OF B t(4), where t = "fst e" and n = "snd e" and N = ?N and base = ?base] that True by auto
    then have "count_at ?B es ?q = 0" by (intro count_at_none) blast
    then show ?thesis
      using True slot_expired [OF B le] by (simp add: b truncate_slot [OF assms(2)])
  next
    case False
    then have "?s ?i = ?q" using le by simp
    then show ?thesis using slot_expired [OF B le] by (simp add: b)
  qed
  then have step: "rt_Record t n rt = Some (rt\<lparr>rt_buckets := (rt_buckets rt)[nat ?i :=
      \<lparr>bk_start = ?q * ?B, bk_count = count_at ?B es ?q + n\<rparr>]\<rparr>)"
    using i(1) i(2) [unfolded not_le [symmetric]] len
    by (simp only: rt_Record_def idx Let_def not_less [symmetric] simp_thms if_False)
  show ?thesis
  proof (intro exI conjI)
    show "rt_Record t n rt = Some (rt\<lparr>rt_buckets := (rt_buckets rt)[nat ?i :=
      \<lparr>bk_start = ?q * ?B, bk_count = count_at ?B es ?q + n\<rparr>]\<rparr>)" by (rule step)
    show "ring t0 (es @ [(t, n)]) (rt\<lparr>rt_buckets := (rt_buckets rt)[nat ?i :=
      \<lparr>bk_start = ?q * ?B, bk_count = count_at ?B es ?q + n\<rparr>]\<rparr>)"
      using assms(1) wf len i
      by (auto simp: ring_def Let_def wf_rt_def nth_list_update count_at_snoc nat_eq_iff)
  qed
qed

lemma ring_run:
  assumes "0 < B" "B \<le> W" "B dvd t0" "B dvd zero_time" "0 \<le> t0" "sorted (t0 # map fst es)"
  shows "\<exists>rt. rt_records es (NewRateTracker t0 W B) = Some rt \<and> ring t0 es rt
    \<and> rt_bucketSize rt = B \<and> rt_window rt = W"
  using assms(6)
proof (induction es rule: rev_induct)
  case Nil
  then show ?case using ring_New [OF assms(1-3)] New_wf_rt [OF assms(1,2)] by simp
next
  case (snoc e es)
  obtain t n where e: "e = (t, n)" by (cases e)
  from snoc e obtain rt where rt: "rt_records es (NewRateTracker t0 W B) = Some rt" "ring t0 es rt"
      "rt_bucketSize rt = B" "rt_window rt = W"
    by (auto simp: sorted_append)
  have run: "rt_records (es @ [(t, n)]) r = (case rt_records es r of None \<Rightarrow> None | Some r \<Rightarrow> rt_Record t n r)" for r
    by (induction es arbitrary: r) (auto split: option.splits)
  have wf: "wf_rt rt" and t: "0 \<le> t" using rt(2) snoc.prems assms(5) e by (auto simp: ring_def)
  have "sorted (t0 # map fst es @ [t])" using snoc.prems e by simp
  from ring_step [OF rt(2) _ assms(5) this] rt(3) assms(4) obtain rt'
    where "rt_Record t n rt = Some rt'" "ring t0 (es @ [(t, n)]) rt'" by blast
  with run [of "NewRateTracker t0 W B"] rt Record_wf [OF wf t, of n] show ?case by (auto simp: e)
qed

section \<open>Totals\<close>

lemma Total_sum:
  "Total now rt = (\<Sum>i<length (rt_buckets rt). if now - rt_window rt \<le> bk_start (rt_buckets rt ! i)
     then bk_count (rt_buckets rt ! i) else 0)"
proof -
  have "foldl (\<lambda>total b. if c \<le> bk_start b then total + bk_count b else total) a bs
      = a + (\<Sum>b\<leftarrow>bs. if c \<le> bk_start b then bk_count b else 0)" for c a and bs :: "bucket list"
    by (induction bs arbitrary: a) simp_all
  then have "Total now rt = (\<Sum>b\<leftarrow>rt_buckets rt. if now - rt_window rt \<le> bk_start b then bk_count b else 0)"
    by (simp add: Total_def Let_def)
  then show ?thesis by (simp add: sum_list_sum_nth atLeast0LessThan)
qed

lemma sum_of_sum_list:
  "(\<Sum>i \<in> A. \<Sum>e\<leftarrow>es. g i e :: u64) = (\<Sum>e\<leftarrow>es. \<Sum>i \<in> A. g i e)"
  by (induction es) (simp_all add: sum.distrib)

lemma ring_Total:
  assumes "ring t0 es rt"
  shows "Total now rt = (\<Sum>(t, n)\<leftarrow>es. let q = t div rt_bucketSize rt in
     if now - rt_window rt \<le> q * rt_bucketSize rt
        \<and> latest (rt_bucketSize rt) (rt_numBuckets rt) (t0 div rt_bucketSize rt) es (q mod rt_numBuckets rt) = q
     then n else 0)"
proof -
  let ?B = "rt_bucketSize rt" and ?N = "rt_numBuckets rt" and ?c = "now - rt_window rt"
  let ?l = "\<lambda>i. latest ?B ?N (t0 div ?B) es i"
  have len: "length (rt_buckets rt) = nat ?N" and N: "0 < ?N"
    using assms by (simp_all add: ring_def wf_rt_def)
  let ?g = "\<lambda>i e. if ?c \<le> ?l (int i) * ?B \<and> ?l (int i) mod ?N = int i \<and> fst e div ?B = ?l (int i)
      then snd e else (0 :: u64)"
  have "(if ?c \<le> bk_start (rt_buckets rt ! i) then bk_count (rt_buckets rt ! i) else 0) = (\<Sum>e\<leftarrow>es. ?g i e)"
    if "i < nat ?N" for i
  proof -
    have bi: "rt_buckets rt ! i = \<lparr>bk_start = ?l (int i) * ?B,
        bk_count = (if ?l (int i) mod ?N = int i then count_at ?B es (?l (int i)) else 0)\<rparr>"
      using assms that by (simp add: ring_def Let_def)
    show ?thesis by (simp add: bi count_at_def case_prod_unfold)
  qed
  then have "Total now rt = (\<Sum>i<nat ?N. \<Sum>e\<leftarrow>es. ?g i e)"
    unfolding Total_sum len by (intro sum.cong) auto
  also have "\<dots> = (\<Sum>e\<leftarrow>es. \<Sum>i<nat ?N. ?g i e)" by (rule sum_of_sum_list)
  also have "(\<lambda>e. \<Sum>i<nat ?N. ?g i e) = (\<lambda>e. let q = fst e div ?B in
      if ?c \<le> q * ?B \<and> ?l (q mod ?N) = q then snd e else 0)"
  proof
    fix e :: "int \<times> u64"
    let ?q = "fst e div ?B"
    have g: "?g i e = (if i = nat (?q mod ?N) then (if ?c \<le> ?q * ?B \<and> ?l (?q mod ?N) = ?q then snd e else 0) else 0)"
      for i using N by auto
    show "(\<Sum>i<nat ?N. ?g i e) = (let q = ?q in if ?c \<le> q * ?B \<and> ?l (q mod ?N) = q then snd e else 0)"
      unfolding g using N by (simp add: sum.delta Let_def)
  qed
  finally show ?thesis by (simp add: case_prod_unfold)
qed

lemma slot_survives:
  assumes "0 < (B :: int)" "B dvd W" "\<not> B dvd now" "q \<le> l" "l \<le> now div B" "l mod (W div B) = q mod (W div B)"
    and "now - W \<le> q * B"
  shows "l = q"
proof (rule ccontr)
  assume "l \<noteq> q"
  have "(W div B) dvd (l - q)" using assms(6) by (rule mod_eq_dvd_iff [THEN iffD1])
  then have "W div B \<le> l - q" using \<open>l \<noteq> q\<close> assms(4) by (intro zdvd_imp_le) simp_all
  then have "W div B * B \<le> (l - q) * B" using assms(1) by (intro mult_right_mono) simp_all
  then have "W \<le> l * B - q * B" using assms(2) by (simp add: algebra_simps)
  moreover have "l * B \<le> now div B * B" using assms(1,5) by (intro mult_right_mono) simp_all
  moreover have "now div B * B < now"
  proof -
    have "0 < now mod B" using assms(1,3) pos_mod_sign [OF assms(1), of now]
      by (simp add: dvd_eq_mod_eq_0 order_less_le)
    then show ?thesis using minus_mod_eq_div_mult [of now B] by linarith
  qed
  ultimately show False using assms(7) by linarith
qed

section \<open>Events the ring still holds\<close>

text \<open>Every event carries a flag that says whether its bucket still counts it.\<close>

type_synonym flagged = "(int \<times> u64 \<times> bool) list"

definition slot_of :: "RateTracker \<Rightarrow> int \<Rightarrow> nat" where
  "slot_of rt t = nat (t div rt_bucketSize rt mod rt_numBuckets rt)"

definition held_sum :: "RateTracker \<Rightarrow> flagged \<Rightarrow> nat \<Rightarrow> u64" where
  "held_sum rt fs i = (\<Sum>(t, n, k)\<leftarrow>fs. if k \<and> slot_of rt t = i then n else 0)"

definition held :: "RateTracker \<Rightarrow> flagged \<Rightarrow> int \<Rightarrow> bool" where
  "held rt fs now \<longleftrightarrow> wf_rt rt
     \<and> (\<forall>i < length (rt_buckets rt). bk_count (rt_buckets rt ! i) = held_sum rt fs i
          \<and> bk_start (rt_buckets rt ! i) \<le> now)
     \<and> (\<forall>(t, n, k) \<in> set fs. k \<longrightarrow> bk_start (rt_buckets rt ! slot_of rt t) \<le> t)"

lemma slot_less: "wf_rt rt \<Longrightarrow> slot_of rt t < length (rt_buckets rt)"
  by (simp add: slot_of_def wf_rt_def nat_less_eq_zless)

lemma Record_slot:
  assumes "wf_rt rt" "0 \<le> t"
  shows "rt_Record t n rt = Some (rt\<lparr>rt_buckets := (rt_buckets rt)[slot_of rt t :=
     (let b = rt_buckets rt ! slot_of rt t
      in if rt_bucketSize rt \<le> t - bk_start b
         then \<lparr>bk_start = truncate_to t (rt_bucketSize rt), bk_count = n\<rparr>
         else b\<lparr>bk_count := bk_count b + n\<rparr>)]\<rparr>)"
proof -
  have idx: "nat (bucketIndex rt t) = slot_of rt t" "\<not> bucketIndex rt t < 0"
    using bucketIndex_pos(1,2) [OF assms] by (simp_all add: slot_of_def)
  show ?thesis
    using slot_less [OF assms(1), of t] idx(2) by (simp add: rt_Record_def Let_def idx(1))
qed

definition drop_slot :: "RateTracker \<Rightarrow> nat \<Rightarrow> flagged \<Rightarrow> flagged" where
  "drop_slot rt i fs = map (\<lambda>(t, n, k). (t, n, k \<and> slot_of rt t \<noteq> i)) fs"

lemma held_sum_drop: "held_sum rt (drop_slot rt i fs) j = (if j = i then 0 else held_sum rt fs j)"
  by (induction fs) (auto simp: held_sum_def drop_slot_def)

lemma in_drop_slot:
  "(t, n, k) \<in> set (drop_slot rt i fs) \<longleftrightarrow> (\<exists>k'. (t, n, k') \<in> set fs \<and> k = (k' \<and> slot_of rt t \<noteq> i))"
  by (force simp: drop_slot_def)

lemma held_sum_snoc:
  "held_sum rt (fs @ [(t, n, k)]) j = held_sum rt fs j + (if k \<and> slot_of rt t = j then n else 0)"
  by (simp add: held_sum_def)

lemma slot_of_upd [simp]: "slot_of (rt\<lparr>rt_buckets := bs\<rparr>) = slot_of rt"
    "held_sum (rt\<lparr>rt_buckets := bs\<rparr>) = held_sum rt"
  by (simp_all add: fun_eq_iff slot_of_def held_sum_def)

lemma truncate_le: "0 < B \<Longrightarrow> truncate_to t B \<le> t"
  by (simp add: truncate_to_def)

lemma held_update:
  assumes "held rt fs now" "now \<le> t" "bk_start b \<le> t"
    and "held_sum rt fs' i = bk_count b" "\<And>j. j \<noteq> i \<Longrightarrow> held_sum rt fs' j = held_sum rt fs j"
    and "\<And>t' n'. (t', n', True) \<in> set fs' \<Longrightarrow>
        (slot_of rt t' = i \<and> bk_start b \<le> t') \<or> (slot_of rt t' \<noteq> i \<and> (t', n', True) \<in> set fs)"
  shows "held (rt\<lparr>rt_buckets := (rt_buckets rt)[i := b]\<rparr>) fs' t"
proof -
  let ?rt = "rt\<lparr>rt_buckets := (rt_buckets rt)[i := b]\<rparr>"
  have wf: "wf_rt rt" using assms(1) by (simp add: held_def)
  have "bk_count (rt_buckets ?rt ! j) = held_sum ?rt fs' j \<and> bk_start (rt_buckets ?rt ! j) \<le> t"
    if "j < length (rt_buckets ?rt)" for j
    using that assms(1-5) by (cases "j = i") (auto simp: held_def nth_list_update intro: order_trans)
  moreover have "bk_start (rt_buckets ?rt ! slot_of ?rt t') \<le> t'" if "(t', n', True) \<in> set fs'" for t' n'
    using assms(6) [OF that] assms(1) slot_less [OF wf, of t'] by (auto simp: held_def nth_list_update)
  moreover have "wf_rt ?rt" using wf by (simp add: wf_rt_def)
  ultimately show ?thesis by (auto simp: held_def)
qed

lemma held_step:
  assumes "held rt fs now" "0 \<le> t" "now \<le> t"
  shows "\<exists>rt' fs'. rt_Record t n rt = Some rt' \<and> held rt' (fs' @ [(t, n, True)]) t
    \<and> map (\<lambda>(t, n, k). (t, n)) fs' = map (\<lambda>(t, n, k). (t, n)) fs
    \<and> rt_window rt' = rt_window rt \<and> rt_bucketSize rt' = rt_bucketSize rt
    \<and> t - rt_bucketSize rt' < bk_start (rt_buckets rt' ! slot_of rt' t)"
proof -
  let ?i = "slot_of rt t" and ?B = "rt_bucketSize rt"
  let ?b = "rt_buckets rt ! ?i"
  have wf: "wf_rt rt" and B: "0 < ?B" using assms(1) by (simp_all add: held_def wf_rt_def)
  have i: "?i < length (rt_buckets rt)" by (rule slot_less [OF wf])
  show ?thesis
  proof (cases "?B \<le> t - bk_start ?b")
    case True
    let ?rt = "rt\<lparr>rt_buckets := (rt_buckets rt)[?i := \<lparr>bk_start = truncate_to t ?B, bk_count = n\<rparr>]\<rparr>"
    have "held ?rt (drop_slot rt ?i fs @ [(t, n, True)]) t"
      by (rule held_update [OF assms(1,3)])
        (auto simp: held_sum_drop held_sum_snoc in_drop_slot truncate_le [OF B])
    moreover have "t - ?B < truncate_to t ?B"
      using pos_mod_bound [OF B, of "t - zero_time"] by (simp add: truncate_to_def)
    moreover have "map (\<lambda>(t, n, k). (t, n)) (drop_slot rt ?i fs) = map (\<lambda>(t, n, k). (t, n)) fs"
      by (simp add: drop_slot_def case_prod_unfold comp_def)
    ultimately show ?thesis using True i by (simp add: Record_slot [OF wf assms(2)] Let_def) blast
  next
    case False
    let ?rt = "rt\<lparr>rt_buckets := (rt_buckets rt)[?i := ?b\<lparr>bk_count := bk_count ?b + n\<rparr>]\<rparr>"
    have "held ?rt (fs @ [(t, n, True)]) t"
      using assms(1,3) i
      by (intro held_update [OF assms(1,3)]) (auto simp: held_sum_snoc held_def)
    then show ?thesis using False i by (simp add: Record_slot [OF wf assms(2)] Let_def) blast
  qed
qed

lemma held_Total:
  assumes "held rt fs now'"
  shows "Total now rt = (\<Sum>(t, n, k)\<leftarrow>filter (\<lambda>(t, n, k). k
    \<and> now - rt_window rt \<le> bk_start (rt_buckets rt ! slot_of rt t)) fs. n)"
proof -
  let ?c = "now - rt_window rt" and ?start = "\<lambda>i. bk_start (rt_buckets rt ! i)"
  let ?len = "length (rt_buckets rt)"
  let ?g = "\<lambda>i (t, n, k). if ?c \<le> ?start i \<and> k \<and> slot_of rt t = i then n else (0 :: u64)"
  have "Total now rt = (\<Sum>i<?len. \<Sum>e\<leftarrow>fs. ?g i e)"
    unfolding Total_sum using assms
    by (intro sum.cong) (auto simp: held_def held_sum_def case_prod_unfold)
  also have "\<dots> = (\<Sum>e\<leftarrow>fs. \<Sum>i<?len. ?g i e)" by (rule sum_of_sum_list)
  also have "(\<lambda>e. \<Sum>i<?len. ?g i e) = (\<lambda>(t, n, k). if k \<and> ?c \<le> ?start (slot_of rt t) then n else 0)"
  proof
    fix e :: "int \<times> u64 \<times> bool"
    obtain t n k where e: "e = (t, n, k)" by (cases e)
    have g: "?g i e = (if i = slot_of rt t then (if k \<and> ?c \<le> ?start (slot_of rt t) then n else 0) else 0)" for i
      by (auto simp: e)
    have "slot_of rt t < ?len" using assms slot_less [of rt t] by (simp add: held_def)
    then show "(\<Sum>i<?len. ?g i e) = (case e of (t, n, k) \<Rightarrow> if k \<and> ?c \<le> ?start (slot_of rt t) then n else 0)"
      unfolding g by (simp add: e)
  qed
  also have "(\<Sum>e\<leftarrow>fs. case e of (t, n, k) \<Rightarrow> if k \<and> ?c \<le> ?start (slot_of rt t) then n else 0)
      = (\<Sum>(t, n, k)\<leftarrow>filter (\<lambda>(t, n, k). k \<and> ?c \<le> ?start (slot_of rt t)) fs. n)"
    by (induction fs) (simp_all add: case_prod_unfold)
  finally show ?thesis .
qed

section \<open>Properties\<close>

text \<open>C19: When everything is aligned, the tracker is exact: if the bucket size divides the window,
  the distance from the year 1 to 1970 and the time of creation, then after any chronological
  sequence of records, \<open>Total\<close> between two bucket boundaries is the sum of all events whose
  bucket began within the window. Overwriting a bucket never loses an event that still counts.\<close>

theorem rate_total_exact:
  assumes "0 < B" "B dvd W" "0 < W" "B dvd t0" "B dvd zero_time" "0 \<le> t0"
    and "sorted (t0 # map fst es @ [now])" "\<not> B dvd now"
  shows "\<exists>rt. rt_records es (NewRateTracker t0 W B) = Some rt
    \<and> Total now rt = (\<Sum>(t, n)\<leftarrow>es. if now - W \<le> t div B * B then n else 0)"
proof -
  have BW: "B \<le> W" using assms(2,3) by (rule zdvd_imp_le)
  have sorted: "sorted (t0 # map fst es)" "\<forall>e \<in> set es. fst e \<le> now" "t0 \<le> now"
    using assms(7) by (auto simp: sorted_append)
  from ring_run [OF assms(1) BW assms(4,5,6) sorted(1)] obtain rt where
    rt: "rt_records es (NewRateTracker t0 W B) = Some rt" "ring t0 es rt" "rt_bucketSize rt = B" "rt_window rt = W"
    by blast
  have N: "rt_numBuckets rt = W div B" using rt(2-4) by (simp add: ring_def wf_rt_def)
  let ?l = "\<lambda>q. latest B (W div B) (t0 div B) es (q mod (W div B))"
  have "(if now - W \<le> t div B * B \<and> ?l (t div B) = t div B then n else 0)
      = (if now - W \<le> t div B * B then n else 0)" if "(t, n) \<in> set es" for t n
  proof -
    have "?l (t div B) \<le> now div B" by (rule latest_le [OF assms(1) zdiv_mono1 [OF sorted(3) assms(1)] sorted(2)])
    with latest_ge [OF assms(1) _ that, of "W div B" "t0 div B"] sorted(1)
      slot_survives [OF assms(1,2,8), of "t div B" "?l (t div B)"]
    show ?thesis by auto
  qed
  then have "Total now rt = (\<Sum>(t, n)\<leftarrow>es. if now - W \<le> t div B * B then n else 0)"
    unfolding ring_Total [OF rt(2)] rt(3,4) N Let_def by (intro arg_cong [where f = sum_list] map_cong) auto
  with rt(1) show ?thesis by blast
qed

theorem rate_total_exact_witness:
  "\<exists>rt. rt_records [(second, 5), (second + 7, 2), (4 * second, 1)] (NewRateTracker 0 (2 * second) second) = Some rt
     \<and> Total (4 * second + 1) rt = 1"
  using rate_total_exact [of second "2 * second" 0 "[(second, 5), (second + 7, 2), (4 * second, 1)]" "4 * second + 1"]
  by (simp add: zero_time_def)


lemma held_New:
  assumes "0 < B" "B \<le> W"
  shows "held (NewRateTracker t0 W B) [] t0"
proof -
  note wf = New_wf_rt [OF assms, of t0]
  have "rt_buckets (NewRateTracker t0 W B) ! i = \<lparr>bk_start = t0, bk_count = 0\<rparr>"
    if "i < length (rt_buckets (NewRateTracker t0 W B))" for i
    using that by (simp add: NewRateTracker_def Let_def)
  with wf(1) show ?thesis by (simp add: held_def held_sum_def)
qed

lemma rt_records_snoc:
  "rt_records (es @ [(t, n)]) r = (case rt_records es r of None \<Rightarrow> None | Some r \<Rightarrow> rt_Record t n r)"
  by (induction es arbitrary: r) (auto split: option.splits)

lemma held_run:
  assumes "0 < B" "B \<le> W" "0 \<le> t0" "sorted (t0 # map fst es)"
  shows "\<exists>rt fs. rt_records es (NewRateTracker t0 W B) = Some rt \<and> held rt fs (last (t0 # map fst es))
    \<and> map (\<lambda>(t, n, k). (t, n)) fs = es \<and> rt_window rt = W \<and> rt_bucketSize rt = B
    \<and> (\<forall>t n es'. es = es' @ [(t, n)] \<longrightarrow> (\<exists>fs'. fs = fs' @ [(t, n, True)])
         \<and> t - B < bk_start (rt_buckets rt ! slot_of rt t))"
  using assms(4)
proof (induction es rule: rev_induct)
  case Nil
  then show ?case using held_New [OF assms(1,2)] New_wf_rt [OF assms(1,2)] by auto
next
  case (snoc e es)
  obtain t n where e: "e = (t, n)" by (cases e)
  have "sorted (t0 # map fst es)" using snoc.prems by (simp add: sorted_append)
  from snoc.IH [OF this] obtain rt fs where rt: "rt_records es (NewRateTracker t0 W B) = Some rt"
      "held rt fs (last (t0 # map fst es))" "map (\<lambda>(t, n, k). (t, n)) fs = es" "rt_window rt = W"
      "rt_bucketSize rt = B" by blast
  have "last (t0 # map fst es) \<in> set (t0 # map fst es)" by (rule last_in_set) simp
  then have "last (t0 # map fst es) \<le> t" "0 \<le> t"
    using snoc.prems assms(3) by (auto simp: e sorted_append)
  from held_step [OF rt(2) this(2,1), of n] rt obtain rt' fs' where
    "rt_Record t n rt = Some rt'" "held rt' (fs' @ [(t, n, True)]) t" "map (\<lambda>(t, n, k). (t, n)) fs' = es"
    "rt_window rt' = W" "rt_bucketSize rt' = B" "t - B < bk_start (rt_buckets rt' ! slot_of rt' t)"
    by auto
  with rt(1) show ?case
    by (intro exI [of _ rt'] exI [of _ "fs' @ [(t, n, True)]"]) (auto simp: e rt_records_snoc)
qed

lemma subseq_filter: "subseq (map h (filter P xs)) (map h xs)"
  by (intro subseq_map) simp

text \<open>C21: \<open>Total\<close> never counts an event from outside the window or twice: whatever the bucket size,
  the creation time and the times of the calls, it is the sum of a subsequence of the recorded
  events, all of them from within the window, and an event recorded at this very moment is the
  last of them.\<close>

theorem rate_total_sound:
  assumes "0 < B" "B \<le> W" "0 \<le> t0" "sorted (t0 # map fst es)"
  shows "\<exists>rt kept. rt_records es (NewRateTracker t0 W B) = Some rt \<and> subseq kept es
    \<and> Total now rt = (\<Sum>(t, n)\<leftarrow>kept. n)
    \<and> list_all (\<lambda>(t, n). now - W \<le> t) kept
    \<and> (\<forall>n es'. es = es' @ [(now, n)] \<longrightarrow> kept \<noteq> [] \<and> last kept = (now, n))"
proof -
  let ?pair = "\<lambda>(t, n, k). (t, n)"
  from held_run [OF assms] obtain rt fs where rt: "rt_records es (NewRateTracker t0 W B) = Some rt"
      "held rt fs (last (t0 # map fst es))" "map ?pair fs = es" "rt_window rt = W"
    and last: "\<forall>t n es'. es = es' @ [(t, n)] \<longrightarrow> (\<exists>fs'. fs = fs' @ [(t, n, True)])
         \<and> t - B < bk_start (rt_buckets rt ! slot_of rt t)"
    by blast
  let ?P = "\<lambda>(t, n, k). k \<and> now - W \<le> bk_start (rt_buckets rt ! slot_of rt t)"
  let ?kept = "map ?pair (filter ?P fs)"
  have "subseq ?kept es" using subseq_filter [of ?pair ?P fs] rt(3) by simp
  moreover have "Total now rt = (\<Sum>(t, n)\<leftarrow>?kept. n)"
    using held_Total [OF rt(2), of now] rt(4) by (simp add: comp_def case_prod_unfold)
  moreover have "list_all (\<lambda>(t, n). now - W \<le> t) ?kept"
    using rt(2) by (fastforce simp: held_def list_all_iff)
  moreover have "?kept \<noteq> [] \<and> List.last ?kept = (now, n)" if "es = es' @ [(now, n)]" for n es'
    using last that assms(2) by fastforce
  ultimately show ?thesis using rt(1) by blast
qed

theorem rate_total_sound_witness:
  "\<exists>rt kept. rt_records [(1, 4), (9, 2)] (NewRateTracker 0 10 4) = Some rt
    \<and> Total 9 rt = (\<Sum>(t, n)\<leftarrow>kept. n) \<and> last kept = (9 :: int, 2 :: u64)"
proof -
  let ?es = "[(1, 4), (9, 2)] :: (int \<times> u64) list"
  have sorted: "sorted (0 # map fst ?es)" by simp
  have "\<exists>rt kept. rt_records ?es (NewRateTracker 0 10 4) = Some rt \<and> subseq kept ?es
    \<and> Total 9 rt = (\<Sum>(t, n)\<leftarrow>kept. n) \<and> list_all (\<lambda>(t, n). 9 - 10 \<le> t) kept
    \<and> (\<forall>n es'. ?es = es' @ [(9, n)] \<longrightarrow> kept \<noteq> [] \<and> last kept = (9, n))"
    by (rule rate_total_sound [OF _ _ _ sorted]) simp_all
  then obtain rt kept where run: "rt_records ?es (NewRateTracker 0 10 4) = Some rt"
      "Total 9 rt = (\<Sum>(t, n)\<leftarrow>kept. n)"
    and ends: "\<forall>n es'. ?es = es' @ [(9, n)] \<longrightarrow> kept \<noteq> [] \<and> last kept = (9 :: int, n)"
    by (elim exE conjE)
  have "last kept = (9, 2)" using ends [THEN spec [of _ 2], THEN spec [of _ "[(1, 4)]"]] by simp
  with run show ?thesis by (intro exI conjI)
qed

end
