(* ===== verification/Capacity.thy ===== *)
theory Capacity
  imports Sizing
begin

text \<open>
  \<open>internal/capacity\<close>: parameter recommendation, saturation monitoring, scaling advice
  (\<open>capacity.go\<close>) and the multi-tier, budget and growth plans (\<open>advisor.go\<close>), over any
  floating-point arithmetic. The sentence \<open>Reason\<close> that \<open>Advise\<close> formats is left out; a returned
  \<open>Params{}\<close> beside an error is not part of an \<open>Err\<close> outcome.
\<close>

datatype capacity_error = CapInvalidFPR | CapInvalidCount | CapNilFilter | CapNoTiers

record 'f Params =
  pa_M :: u64
  pa_K :: u64
  pa_Bytes :: u64
  pa_ExpectedN :: u64
  pa_TargetFPR :: 'f
  pa_ActualFPR :: 'f
  pa_BitsPerItem :: 'f

section \<open>Recommendation and monitoring (capacity.go)\<close>

text \<open>The filter is only built for its rate; a failure of \<open>New\<close> would leave a nil pointer.\<close>

definition Recommend :: "'f Float \<Rightarrow> u64 \<Rightarrow> 'f \<Rightarrow> (capacity_error, 'f Params) outcome" where
  "Recommend F expectedN targetFPR =
     (if expectedN = 0 then Err CapInvalidCount
      else if bad_rate F targetFPR then Err CapInvalidFPR
      else let m = RequiredBits F expectedN targetFPR;
               k = OptimalK F m expectedN
           in case bf_New m k of
                Ok f \<Rightarrow>
                  let actualFPR = FalsePositiveRate F f (sint expectedN)
                  in Ok \<lparr>pa_M = m, pa_K = k, pa_Bytes = (m + 7) div 8, pa_ExpectedN = expectedN,
                         pa_TargetFPR = targetFPR, pa_ActualFPR = actualFPR,
                         pa_BitsPerItem = fp_div F (fp_of_uint F m) (fp_of_uint F expectedN)\<rparr>
              | _ \<Rightarrow> Panic)"

datatype Status = StatusHealthy | StatusWarning | StatusCritical

fun Status_String :: "Status \<Rightarrow> string" where
  "Status_String StatusHealthy = ''healthy''"
| "Status_String StatusWarning = ''warning''"
| "Status_String StatusCritical = ''critical''"

record 'f Report =
  rp_M :: u64
  rp_K :: u64
  rp_InsertedN :: int
  rp_CurrentFPR :: 'f
  rp_Saturation :: 'f
  rp_BitsSet :: nat
  rp_BitsTotal :: int
  rp_MaxN :: int
  rp_RemainingN :: int
  rp_WarningFPR :: 'f
  rp_CriticalFPR :: 'f
  rp_Status :: Status
  rp_StatusLabel :: string

record 'f MonitorConfig =
  mc_WarningFPR :: 'f
  mc_CriticalFPR :: 'f

definition DefaultMonitorConfig :: "'f Float \<Rightarrow> 'f MonitorConfig" where
  "DefaultMonitorConfig F =
     \<lparr>mc_WarningFPR = fp_lit F (5 / 100), mc_CriticalFPR = fp_lit F (10 / 100)\<rparr>"

definition countBitsSet :: "bytes \<Rightarrow> nat" where
  "countBitsSet bits = foldl (\<lambda>count b. count + popcount b) 0 bits"

definition Monitor ::
  "'f Float \<Rightarrow> BloomFilter option \<Rightarrow> int \<Rightarrow> 'f MonitorConfig \<Rightarrow> (capacity_error, 'f Report) outcome" where
  "Monitor F f insertedN cfg =
     (case f of
        None \<Rightarrow> Err CapNilFilter
      | Some f \<Rightarrow>
          if bad_rate F (mc_WarningFPR cfg) then Err CapInvalidFPR
          else if bad_rate F (mc_CriticalFPR cfg) then Err CapInvalidFPR
          else let bitsSet = countBitsSet (bf_bits f);
                   saturation = fp_div F (fp_of_int F (int bitsSet)) (fp_of_uint F (bf_m f));
                   currentFPR = FalsePositiveRate F f insertedN;
                   maxN = MaxInsertions F f (mc_WarningFPR cfg);
                   remaining = maxN - insertedN;
                   remaining = (if remaining < 0 then 0 else remaining);
                   status = (if fp_le F (mc_CriticalFPR cfg) currentFPR then StatusCritical
                             else if fp_le F (mc_WarningFPR cfg) currentFPR then StatusWarning
                             else StatusHealthy)
               in Ok \<lparr>rp_M = bf_m f, rp_K = bf_k f, rp_InsertedN = insertedN, rp_CurrentFPR = currentFPR,
                      rp_Saturation = saturation, rp_BitsSet = bitsSet, rp_BitsTotal = sint (bf_m f),
                      rp_MaxN = maxN, rp_RemainingN = remaining, rp_WarningFPR = mc_WarningFPR cfg,
                      rp_CriticalFPR = mc_CriticalFPR cfg, rp_Status = status,
                      rp_StatusLabel = Status_String status\<rparr>)"

record 'f ScaleAdvice =
  sa_CurrentM :: u64
  sa_CurrentK :: u64
  sa_CurrentN :: int
  sa_CurrentFPR :: 'f
  sa_ShouldScale :: bool
  sa_NewParams :: "'f Params option"
  sa_GrowthFactor :: "'f option"

text \<open>\<open>None\<close> is the zero value of a field that is not set.\<close>

definition Advise ::
  "'f Float \<Rightarrow> BloomFilter option \<Rightarrow> int \<Rightarrow> 'f \<Rightarrow> (capacity_error, 'f ScaleAdvice) outcome" where
  "Advise F f insertedN targetFPR =
     (case f of
        None \<Rightarrow> Err CapNilFilter
      | Some f \<Rightarrow>
          if bad_rate F targetFPR then Err CapInvalidFPR
          else let currentFPR = FalsePositiveRate F f insertedN;
                   maxN = MaxInsertions F f targetFPR;
                   advice = \<lparr>sa_CurrentM = bf_m f, sa_CurrentK = bf_k f, sa_CurrentN = insertedN,
                             sa_CurrentFPR = currentFPR, sa_ShouldScale = False,
                             sa_NewParams = None, sa_GrowthFactor = None\<rparr>;
                   threshold = fp_to_int F (fp_mul F (fp_of_int F maxN) (fp_lit F (8 / 10)))
               in if threshold \<le> insertedN \<and> 0 < insertedN then
                    let advice = advice\<lparr>sa_ShouldScale := True\<rparr>;
                        newN = word_of_int insertedN * 2;
                        newN = (if newN < 100 then 100 else newN)
                    in case Recommend F newN targetFPR of
                         Ok newParams \<Rightarrow>
                           Ok (advice\<lparr>sa_NewParams := Some newParams,
                               sa_GrowthFactor := Some (fp_div F (fp_of_uint F (pa_M newParams)) (fp_of_uint F (bf_m f)))\<rparr>)
                       | Err e \<Rightarrow> Ok advice
                       | Panic \<Rightarrow> Panic
                  else Ok advice)"

definition EstimateFPR :: "'f Float \<Rightarrow> u64 \<Rightarrow> u64 \<Rightarrow> u64 \<Rightarrow> 'f" where
  "EstimateFPR F m k n =
     (if m = 0 then fp_lit F 1
      else let exponent = fp_div F (fp_mul F (fp_neg F (fp_of_uint F k)) (fp_of_uint F n)) (fp_of_uint F m)
           in fp_Pow F (fp_sub F (fp_lit F 1) (fp_Exp F exponent)) (fp_of_uint F k))"

definition EstimateInserted :: "'f Float \<Rightarrow> BloomFilter option \<Rightarrow> (capacity_error, int) outcome" where
  "EstimateInserted F f =
     (case f of
        None \<Rightarrow> Err CapNilFilter
      | Some f \<Rightarrow>
          let bitsSet = countBitsSet (bf_bits f)
          in if bitsSet = 0 then Ok 0
             else let m = fp_of_uint F (bf_m f); k = fp_of_uint F (bf_k f); x = fp_of_int F (int bitsSet)
                  in if fp_le F m x then Ok (fp_to_int F (fp_div F m k))
                     else let n = fp_mul F (fp_neg F (fp_div F m k))
                                    (fp_Log F (fp_sub F (fp_lit F 1) (fp_div F x m)))
                          in if fp_lt F n (fp_lit F 0) then Ok 0 else Ok (fp_to_int F (fp_Round F n)))"

record 'f Comparison =
  cm_ParamA :: "'f Params"
  cm_ParamB :: "'f Params"
  cm_MemoryRatio :: 'f
  cm_FPRRatio :: 'f
  cm_CapacityGain :: 'f

definition Compare :: "'f Float \<Rightarrow> 'f Params \<Rightarrow> 'f Params \<Rightarrow> 'f Comparison" where
  "Compare F a b =
     \<lparr>cm_ParamA = a, cm_ParamB = b,
      cm_MemoryRatio = (if 0 < pa_Bytes a then fp_div F (fp_of_uint F (pa_Bytes b)) (fp_of_uint F (pa_Bytes a))
                        else fp_lit F 1),
      cm_FPRRatio = (if fp_lt F (fp_lit F 0) (pa_ActualFPR a) then fp_div F (pa_ActualFPR b) (pa_ActualFPR a)
                     else fp_lit F 1),
      cm_CapacityGain = (if 0 < pa_ExpectedN a
                         then fp_div F (fp_of_uint F (pa_ExpectedN b)) (fp_of_uint F (pa_ExpectedN a))
                         else fp_lit F 1)\<rparr>"

section \<open>Plans (advisor.go)\<close>

record 'f TierConfig =
  tc_Name :: string
  tc_ExpectedN :: u64
  tc_TargetFPR :: 'f

record 'f TierPlan =
  tp_Config :: "'f TierConfig"
  tp_Params :: "'f Params"
  tp_MemoryMB :: 'f

definition memory_mb :: "'f Float \<Rightarrow> 'f Params \<Rightarrow> 'f" where
  "memory_mb F params = fp_div F (fp_of_uint F (pa_Bytes params)) (fp_lit F (1024 * 1024))"

fun tier_loop :: "'f Float \<Rightarrow> 'f TierConfig list \<Rightarrow> (capacity_error, 'f TierPlan list) outcome" where
  "tier_loop F [] = Ok []"
| "tier_loop F (tc # tiers) =
     (if tc_ExpectedN tc = 0 then Err CapInvalidCount
      else if bad_rate F (tc_TargetFPR tc) then Err CapInvalidFPR
      else and_then (Recommend F (tc_ExpectedN tc) (tc_TargetFPR tc)) (\<lambda>params.
           and_then (tier_loop F tiers) (\<lambda>plans.
             Ok (\<lparr>tp_Config = tc, tp_Params = params, tp_MemoryMB = memory_mb F params\<rparr> # plans))))"

definition MultiTierPlan :: "'f Float \<Rightarrow> 'f TierConfig list \<Rightarrow> (capacity_error, 'f TierPlan list) outcome" where
  "MultiTierPlan F tiers = (if tiers = [] then Err CapNoTiers else tier_loop F tiers)"

definition CombinedFPR :: "'f Float \<Rightarrow> 'f list \<Rightarrow> 'f" where
  "CombinedFPR F rates = foldl (fp_mul F) (fp_lit F 1) rates"

definition ParallelFPR :: "'f Float \<Rightarrow> 'f list \<Rightarrow> 'f" where
  "ParallelFPR F rates =
     fp_sub F (fp_lit F 1) (foldl (\<lambda>product r. fp_mul F product (fp_sub F (fp_lit F 1) r)) (fp_lit F 1) rates)"

definition optimalKForM :: "'f Float \<Rightarrow> u64 \<Rightarrow> u64 \<Rightarrow> u64" where
  "optimalKForM F m n =
     (if n = 0 \<or> m = 0 then 1
      else let k = fp_mul F (fp_div F (fp_of_uint F m) (fp_of_uint F n)) (fp_ln2 F);
               ki = fp_to_uint F (fp_Round F k)
           in if ki < 1 then 1 else ki)"

definition computeFPR :: "'f Float \<Rightarrow> u64 \<Rightarrow> u64 \<Rightarrow> u64 \<Rightarrow> 'f" where
  "computeFPR F m k n =
     (if m = 0 then fp_lit F 1
      else let exponent = fp_div F (fp_mul F (fp_neg F (fp_of_uint F k)) (fp_of_uint F n)) (fp_of_uint F m)
           in fp_Pow F (fp_sub F (fp_lit F 1) (fp_Exp F exponent)) (fp_of_uint F k))"

definition MemoryBudgetPlan :: "'f Float \<Rightarrow> u64 \<Rightarrow> u64 \<Rightarrow> (capacity_error, 'f Params) outcome" where
  "MemoryBudgetPlan F budgetBytes expectedN =
     (if budgetBytes = 0 \<or> expectedN = 0 then Err CapInvalidCount
      else let m = budgetBytes * 8; k = optimalKForM F m expectedN; actualFPR = computeFPR F m k expectedN
           in Ok \<lparr>pa_M = m, pa_K = k, pa_Bytes = budgetBytes, pa_ExpectedN = expectedN,
                  pa_TargetFPR = actualFPR, pa_ActualFPR = actualFPR,
                  pa_BitsPerItem = fp_div F (fp_of_uint F m) (fp_of_uint F expectedN)\<rparr>)"

record 'f GrowthProjection =
  gp_CurrentN :: u64
  gp_Multiplier :: u64
  gp_ProjectedN :: u64
  gp_Params :: "'f Params"
  gp_MemoryMB :: 'f

fun growth_loop :: "'f Float \<Rightarrow> u64 \<Rightarrow> 'f \<Rightarrow> u64 list \<Rightarrow> (capacity_error, 'f GrowthProjection list) outcome" where
  "growth_loop F currentN targetFPR [] = Ok []"
| "growth_loop F currentN targetFPR (multiplier # multipliers) =
     (let projected = currentN * multiplier
      in and_then (Recommend F projected targetFPR) (\<lambda>params.
         and_then (growth_loop F currentN targetFPR multipliers) (\<lambda>projections.
           Ok (\<lparr>gp_CurrentN = currentN, gp_Multiplier = multiplier, gp_ProjectedN = projected,
                gp_Params = params, gp_MemoryMB = memory_mb F params\<rparr> # projections))))"

definition ProjectGrowth ::
  "'f Float \<Rightarrow> u64 \<Rightarrow> 'f \<Rightarrow> u64 list \<Rightarrow> (capacity_error, 'f GrowthProjection list) outcome" where
  "ProjectGrowth F currentN targetFPR multipliers =
     (if currentN = 0 then Err CapInvalidCount
      else if bad_rate F targetFPR then Err CapInvalidFPR
      else growth_loop F currentN targetFPR multipliers)"

definition BitsPerItemForFPR :: "'f Float \<Rightarrow> 'f \<Rightarrow> 'f" where
  "BitsPerItemForFPR F targetFPR =
     (if bad_rate F targetFPR then fp_lit F 0
      else fp_div F (fp_neg F (fp_Log F targetFPR)) (fp_ln2_sq F))"

section \<open>Severity\<close>

text \<open>The statuses are numbered by severity (\<open>iota\<close> in the source), which orders them.\<close>

fun severity :: "Status \<Rightarrow> nat" where
  "severity StatusHealthy = 0"
| "severity StatusWarning = 1"
| "severity StatusCritical = 2"

lemma severity_inj [simp]: "severity s = severity t \<longleftrightarrow> s = t"
  by (cases s; cases t) simp_all

instantiation Status :: linorder
begin

definition "(s :: Status) \<le> t \<longleftrightarrow> severity s \<le> severity t"
definition "(s :: Status) < t \<longleftrightarrow> severity s < severity t"

instance
  by standard (auto simp: less_eq_Status_def less_Status_def)

end

text \<open>In exact arithmetic, a report at a higher predicted rate is never milder.\<close>

lemma Monitor_monotone:
  assumes "Monitor exact f n cfg = Ok r" "Monitor exact f n' cfg = Ok r'"
    and "rp_CurrentFPR r \<le> rp_CurrentFPR r'" "mc_WarningFPR cfg \<le> mc_CriticalFPR cfg"
  shows "rp_Status r \<le> rp_Status r'"
  using assms
  by (auto simp: Monitor_def Let_def less_eq_Status_def split: option.splits if_splits)

section \<open>The packages agree\<close>

lemma one_formula:
  "computeFPR F m k n = EstimateFPR F m k n" "optimalKForM F m n = OptimalK F m n"
  by (simp_all add: computeFPR_def EstimateFPR_def optimalKForM_def OptimalK_def)

lemma EstimateFPR_filter:
  "unat n < 2 ^ 63 \<Longrightarrow> FalsePositiveRate F f (sint n) = EstimateFPR F (bf_m f) (bf_k f) n"
  by (simp add: FalsePositiveRate_def EstimateFPR_def sint_of_small fp_of_uint_def of_nat_unat)

lemma countBitsSet_card: "countBitsSet bs = card (bits_of bs)"
  by (simp add: countBitsSet_def foldl_popcount)

section \<open>Properties\<close>



text \<open>What \<open>Monitor\<close> reports is consistent, in exact arithmetic: the bit count is the number of
  set positions, \<open>RemainingN\<close> is exactly the number of insertions that can follow before the rate
  passes the warning threshold, a healthy filter has not reached its maximum, and a filter
  beyond its maximum is not reported as healthy.\<close>

lemma Monitor_consistent:
  assumes "bf_m f \<noteq> 0" "bf_k f \<noteq> 0" "0 < mc_WarningFPR cfg" "mc_WarningFPR cfg < 1"
    and "0 < mc_CriticalFPR cfg" "mc_CriticalFPR cfg < 1" "0 \<le> n" "solution f (mc_WarningFPR cfg) < 2 ^ 63"
  shows "\<exists>r. Monitor exact (Some f) n cfg = Ok r \<and> rp_BitsSet r = card (bits_of (bf_bits f))
    \<and> (if rp_MaxN r < n
        then rp_RemainingN r = 0 \<and> rp_Status r \<noteq> StatusHealthy
        else FalsePositiveRate exact f (n + rp_RemainingN r) \<le> mc_WarningFPR cfg
          \<and> mc_WarningFPR cfg < FalsePositiveRate exact f (n + rp_RemainingN r + 1))
    \<and> (rp_Status r = StatusHealthy \<longrightarrow>
        FalsePositiveRate exact f n < mc_WarningFPR cfg \<and> FalsePositiveRate exact f n < mc_CriticalFPR cfg)"
proof -
  note largest = MaxInsertions_largest [OF assms(1-4,8)]
  let ?W = "mc_WarningFPR cfg" and ?max = "MaxInsertions exact f (mc_WarningFPR cfg)"
  obtain r where r: "Monitor exact (Some f) n cfg = Ok r"
      "rp_BitsSet r = countBitsSet (bf_bits f)" "rp_MaxN r = ?max"
      "rp_RemainingN r = (if ?max - n < 0 then 0 else ?max - n)"
      "rp_Status r = (if mc_CriticalFPR cfg \<le> FalsePositiveRate exact f n then StatusCritical
         else if ?W \<le> FalsePositiveRate exact f n then StatusWarning else StatusHealthy)"
    using assms(3-6) by (auto simp: Monitor_def bad_rate_def Let_def)
  have "?W < FalsePositiveRate exact f n" if "?max < n"
    using that largest(2) [OF assms(7)] by linarith
  moreover have "FalsePositiveRate exact f ?max \<le> ?W" "?W < FalsePositiveRate exact f (?max + 1)"
    using largest(1) largest(2) [of ?max] largest(2) [of "?max + 1"] by simp_all
  ultimately show ?thesis
    using r by (intro exI [of _ r]) (auto simp: countBitsSet_card)
qed

lemma Monitor_consistent_witness:
  "\<exists>r. Monitor exact (Some \<lparr>bf_m = 8, bf_k = 1, bf_bits = [3]\<rparr>) 100
      \<lparr>mc_WarningFPR = 1 / 2, mc_CriticalFPR = 3 / 4\<rparr> = Ok r \<and> rp_BitsSet r = card (bits_of [3])"
proof -
  let ?f = "\<lparr>bf_m = 8, bf_k = 1, bf_bits = [3]\<rparr>"
  let ?cfg = "\<lparr>mc_WarningFPR = 1 / 2, mc_CriticalFPR = 3 / 4\<rparr> :: real MonitorConfig"
  have "solution ?f (1 / 2) = 8 * ln 2" by (simp add: solution_def ln_div)
  also have "\<dots> < 2 ^ 63" using ln_2_less_1 by simp
  finally have "solution ?f (mc_WarningFPR ?cfg) < 2 ^ 63" by simp
  from Monitor_consistent [OF _ _ _ _ _ _ _ this, of 100] show ?thesis by auto
qed

definition valid_tier :: "'f Float \<Rightarrow> 'f TierConfig \<Rightarrow> bool" where
  "valid_tier F tc \<longleftrightarrow> tc_ExpectedN tc \<noteq> 0 \<and> \<not> bad_rate F (tc_TargetFPR tc)"

lemma Recommend_valid: "n \<noteq> 0 \<Longrightarrow> \<not> bad_rate F p \<Longrightarrow> \<exists>r. Recommend F n p = Ok r"
  using RequiredBits_pos [of F n p] OptimalK_pos [of F "RequiredBits F n p" n]
  by (simp add: Recommend_def Let_def bf_New_def)

text \<open>The first invalid tier and the error it stands for.\<close>

definition first_invalid :: "'f Float \<Rightarrow> 'f TierConfig list \<Rightarrow> capacity_error \<Rightarrow> bool" where
  "first_invalid F tiers e \<longleftrightarrow> (\<exists>pre tc post. tiers = pre @ tc # post \<and> list_all (valid_tier F) pre
     \<and> \<not> valid_tier F tc \<and> e = (if tc_ExpectedN tc = 0 then CapInvalidCount else CapInvalidFPR))"

lemma first_invalid_skip:
  assumes "valid_tier F tc" "first_invalid F tiers e"
  shows "first_invalid F (tc # tiers) e"
proof -
  from assms(2) obtain pre bad post where "tiers = pre @ bad # post" "list_all (valid_tier F) pre"
    "\<not> valid_tier F bad" "e = (if tc_ExpectedN bad = 0 then CapInvalidCount else CapInvalidFPR)"
    unfolding first_invalid_def by blast
  with assms(1) show ?thesis
    unfolding first_invalid_def
    by (intro exI [of _ "tc # pre"] exI [of _ bad] exI [of _ post]) simp
qed

lemma first_invalid_here:
  "\<not> valid_tier F tc \<Longrightarrow> first_invalid F (tc # tiers) (if tc_ExpectedN tc = 0 then CapInvalidCount else CapInvalidFPR)"
  unfolding first_invalid_def by (rule exI [of _ "[]"], rule exI [of _ tc], rule exI [of _ tiers]) simp

definition plans_for :: "'f Float \<Rightarrow> 'f TierConfig list \<Rightarrow> 'f TierPlan list \<Rightarrow> bool" where
  "plans_for F tiers plans \<longleftrightarrow> list_all2 (\<lambda>tc pl. tp_Config pl = tc
     \<and> Recommend F (tc_ExpectedN tc) (tc_TargetFPR tc) = Ok (tp_Params pl)) tiers plans"

lemma tier_loop_cases:
  "case tier_loop F tiers of
     Ok plans \<Rightarrow> plans_for F tiers plans
   | Err e \<Rightarrow> first_invalid F tiers e
   | Panic \<Rightarrow> False"
proof (induction tiers)
  case (Cons tc tiers)
  show ?case
  proof (cases "valid_tier F tc")
    case True
    then obtain r where "Recommend F (tc_ExpectedN tc) (tc_TargetFPR tc) = Ok r"
      using Recommend_valid [of "tc_ExpectedN tc" F "tc_TargetFPR tc"] by (auto simp: valid_tier_def)
    with True Cons first_invalid_skip [OF True] show ?thesis
      by (auto simp: valid_tier_def plans_for_def split: outcome.splits)
  next
    case False
    then show ?thesis
      using first_invalid_here [OF False, of tiers] by (auto simp: valid_tier_def split: if_splits)
  qed
qed (simp add: plans_for_def)

text \<open>\<open>MultiTierPlan\<close> is all or nothing and never panics: it returns one plan per tier, in
  order, with the recommendation for that tier; or the error of the first invalid tier, or the
  error for an empty list.\<close>

lemma MultiTierPlan_all_or_first_error:
  "case MultiTierPlan F tiers of
     Ok plans \<Rightarrow> tiers \<noteq> [] \<and> length plans = length tiers \<and> plans_for F tiers plans
   | Err e \<Rightarrow> (if tiers = [] then e = CapNoTiers else first_invalid F tiers e)
   | Panic \<Rightarrow> False"
  using tier_loop_cases [of F tiers]
  by (auto simp: MultiTierPlan_def plans_for_def split: outcome.splits dest: list_all2_lengthD)

text \<open>The budget in bits wraps: a budget of $2^{61}$ bytes gives zero bits and the rate 1.\<close>

lemma MemoryBudgetPlan_bits:
  assumes "b \<noteq> 0" "n \<noteq> 0"
  shows "\<exists>r. MemoryBudgetPlan F b n = Ok r \<and> pa_K r = OptimalK F (pa_M r) n
    \<and> pa_ActualFPR r = EstimateFPR F (pa_M r) (pa_K r) n
    \<and> unat (pa_M r) = unat b * 8 mod 2 ^ 64 \<and> (unat b < 2 ^ 61 \<longrightarrow> unat (pa_M r) = 8 * unat (pa_Bytes r))"
  using assms by (simp add: MemoryBudgetPlan_def Let_def one_formula unat_word_ariths)

end
