(* ===== verification/Estimates.thy ===== *)
theory Estimates
  imports Merge Hashing Sizing Counting
begin

text \<open>
  The floating-point results of the other packages, over any arithmetic: \<open>Similarity\<close> and the
  cardinality estimates of \<open>merge.go\<close>, \<open>Dispersion\<close> of \<open>enhanced.go\<close> with its own square root,
  and \<open>Saturation\<close> of \<open>counting.go\<close>.
\<close>

section \<open>Estimates from bit counts (merge.go)\<close>

definition Similarity ::
  "'f Float \<Rightarrow> BloomFilter option \<Rightarrow> BloomFilter option \<Rightarrow> (merge_error, 'f) outcome" where
  "Similarity F a b =
     and_then (similarity_counts a b) (\<lambda>(andCount, orCount).
       if orCount = 0 then Ok (fp_lit F 0)
       else Ok (fp_div F (fp_of_int F (int andCount)) (fp_of_int F (int orCount))))"

definition estimateN :: "'f Float \<Rightarrow> u64 \<Rightarrow> u64 \<Rightarrow> nat \<Rightarrow> int" where
  "estimateN F m k bitsSet =
     (if bitsSet = 0 then 0
      else let mf = fp_of_uint F m; kf = fp_of_uint F k; x = fp_of_int F (int bitsSet)
           in if fp_le F mf x then fp_to_int F (fp_div F mf kf)
              else let n = fp_mul F (fp_neg F (fp_div F mf kf))
                             (fp_Log F (fp_sub F (fp_lit F 1) (fp_div F x mf)))
                   in if fp_lt F n (fp_lit F 0) then 0 else fp_to_int F n)"

definition count_set :: "bytes \<Rightarrow> nat" where
  "count_set bs = foldl (\<lambda>n v. n + popcount v) 0 bs"

definition countAndEstimate :: "'f Float \<Rightarrow> BloomFilter \<Rightarrow> int" where
  "countAndEstimate F f = estimateN F (bf_m f) (bf_k f) (count_set (bf_bits f))"

definition EstimateUnionCardinality ::
  "'f Float \<Rightarrow> BloomFilter option \<Rightarrow> BloomFilter option \<Rightarrow> (merge_error, int) outcome" where
  "EstimateUnionCardinality F a b =
     and_then (merge_Union a b) (\<lambda>u. Ok (estimateN F (bf_m u) (bf_k u) (count_set (bf_bits u))))"

fun EstimateIntersectionCardinality ::
  "'f Float \<Rightarrow> BloomFilter option \<Rightarrow> BloomFilter option \<Rightarrow> (merge_error, int) outcome" where
  "EstimateIntersectionCardinality F (Some a) (Some b) =
     (if bf_m a \<noteq> bf_m b \<or> bf_k a \<noteq> bf_k b then Err MergeErrParamMismatch
      else let nA = countAndEstimate F a; nB = countAndEstimate F b
           in and_then (EstimateUnionCardinality F (Some a) (Some b)) (\<lambda>nUnion.
                let nIntersect = nA + nB - nUnion
                in Ok (if nIntersect < 0 then 0 else nIntersect)))"
| "EstimateIntersectionCardinality F _ _ = Err MergeErrNilFilter"

section \<open>Saturation of a counting filter (counting.go)\<close>

definition cf_Saturation :: "'f Float \<Rightarrow> CountingFilter \<Rightarrow> 'f" where
  "cf_Saturation F cf =
     (let nonZero = foldl (\<lambda>n i. if getCounter cf i > 0 then n + 1 else n) (0 :: nat) (u64_range (cf_m cf))
      in fp_div F (fp_of_int F (int nonZero)) (fp_of_uint F (cf_m cf)))"

section \<open>Dispersion (enhanced.go)\<close>

text \<open>The literal 2 and the twenty steps of \<open>sqrt\<close>.\<close>

fun newton :: "'f Float \<Rightarrow> 'f \<Rightarrow> nat \<Rightarrow> 'f \<Rightarrow> 'f" where
  "newton F x 0 guess = guess"
| "newton F x (Suc i) guess =
     newton F x i (fp_div F (fp_add F guess (fp_div F x guess)) (fp_lit F 2))"

definition hash_sqrt :: "'f Float \<Rightarrow> 'f \<Rightarrow> 'f" where
  "hash_sqrt F x = (if fp_le F x (fp_lit F 0) then fp_lit F 0 else newton F x 20 (fp_div F x (fp_lit F 2)))"

definition gaps_of :: "'f Float \<Rightarrow> u64 \<Rightarrow> u64 list \<Rightarrow> 'f list" where
  "gaps_of F m ps =
     map (\<lambda>i. fp_of_uint F (ps ! (i + 1) - ps ! i)) [0..<length ps - 1]
     @ [fp_add F (fp_of_uint F (m - ps ! (length ps - 1))) (fp_of_uint F (ps ! 0))]"

definition gap_variance :: "'f Float \<Rightarrow> u64 \<Rightarrow> 'f \<Rightarrow> 'f list \<Rightarrow> 'f" where
  "gap_variance F k idealGap gaps =
     (let sumSqDiff = foldl (\<lambda>s g. let diff = fp_sub F g idealGap
                                   in fp_add F s (fp_mul F diff diff)) (fp_lit F 0) gaps
      in fp_div F sumSqDiff (fp_of_uint F k))"

definition Dispersion :: "'f Float \<Rightarrow> bytes \<Rightarrow> u64 \<Rightarrow> u64 \<Rightarrow> Strategy \<Rightarrow> 'f" where
  "Dispersion F data k m s =
     (if k \<le> 1 \<or> m = 0 then fp_lit F 1
      else let positions = sort_positions (MultiHash data k m s);
               gaps = gaps_of F m positions;
               idealGap = fp_div F (fp_of_uint F m) (fp_of_uint F k)
           in if fp_le F idealGap (fp_lit F 0) \<and> fp_le F (fp_lit F 0) idealGap then fp_lit F 1
              else let variance = gap_variance F k idealGap gaps;
                       stddev = hash_sqrt F variance;
                       cv = fp_div F stddev idealGap
                   in fp_div F (fp_lit F 1) (fp_add F (fp_lit F 1) cv))"

section \<open>The square root in exact arithmetic\<close>

lemma newton_step_pos:
  assumes "0 < x" "0 < (g :: real)"
  shows "0 < (g + x / g) / 2" "sqrt x \<le> (g + x / g) / 2" "g / 2 \<le> (g + x / g) / 2"
proof -
  have q: "0 < x / g" using assms by simp
  have "0 < g + x / g" by (rule add_pos_pos [OF assms(2) q])
  then show "0 < (g + x / g) / 2" "g / 2 \<le> (g + x / g) / 2" using q by simp_all
  show "sqrt x \<le> (g + x / g) / 2"
    using arith_geo_mean_sqrt [of g "x / g"] assms q by simp
qed

lemma newton_bounds:
  assumes "0 < x" "0 < g"
  shows "0 < newton exact x n g \<and> g / 2 ^ n \<le> newton exact x n g \<and> (0 < n \<longrightarrow> sqrt x \<le> newton exact x n g)"
  using assms(2)
proof (induction n arbitrary: g)
  case (Suc n)
  let ?g = "(g + x / g) / 2"
  note step = newton_step_pos [OF assms(1) Suc.prems]
  have "g / 2 / 2 ^ n \<le> ?g / 2 ^ n" using step(3) by (rule divide_right_mono) simp
  then have "g / 2 ^ Suc n \<le> newton exact x n ?g" using Suc.IH [OF step(1)] by simp
  moreover have "sqrt x \<le> newton exact x n ?g"
    using Suc.IH [OF step(1)] step(2) by (cases n) auto
  ultimately show ?case using Suc.IH [OF step(1)] by simp
qed simp

text \<open>\<open>Dispersion\<close> always lies in the interval from 0 (exclusive) to 1. Its square root is
  never too small, but twenty steps from \<open>x / 2\<close> are not enough for a large \<open>x\<close>: the result is at
  least \<open>x\<close> divided by $2^{21}$, so from $2^{44}$ on it is at least twice the square root, and the
  score of filters with more than a few million bits is too low.\<close>

lemma Dispersion_range_and_sqrt:
  "0 < Dispersion exact data k m s \<and> Dispersion exact data k m s \<le> 1
   \<and> (0 < x \<longrightarrow> sqrt x \<le> hash_sqrt exact x \<and> x / 2 ^ 21 \<le> hash_sqrt exact x)
   \<and> (2 ^ 44 \<le> x \<longrightarrow> 2 * sqrt x \<le> hash_sqrt exact x)"
proof -
  have root: "0 < hash_sqrt exact y \<and> sqrt y \<le> hash_sqrt exact y \<and> y / 2 ^ 21 \<le> hash_sqrt exact y" if "0 < y" for y
    using newton_bounds [OF that, of "y / 2" 20] that by (simp add: hash_sqrt_def)
  have nonneg: "0 \<le> hash_sqrt exact y" for y
    using root [of y] by (cases "0 < y") (auto simp: hash_sqrt_def)
  have score: "0 < 1 / (1 + hash_sqrt exact v / (real (unat m) / real (unat k)))
      \<and> 1 / (1 + hash_sqrt exact v / (real (unat m) / real (unat k))) \<le> 1" for v
  proof -
    have "0 \<le> hash_sqrt exact v / (real (unat m) / real (unat k))"
      using nonneg [of v] by (intro divide_nonneg_nonneg) simp_all
    then show ?thesis by simp
  qed
  have "0 < Dispersion exact data k m s \<and> Dispersion exact data k m s \<le> 1"
    using score by (simp add: Dispersion_def Let_def del: divide_divide_eq_right times_divide_eq_left)
  moreover have "2 * sqrt x \<le> hash_sqrt exact x" if "2 ^ 44 \<le> x"
  proof -
    have "sqrt (2 ^ 44) \<le> sqrt x" by (rule real_sqrt_le_mono [OF that])
    moreover have "sqrt (2 ^ 44 :: real) = 2 ^ 22" by (rule real_sqrt_unique) simp_all
    ultimately have "2 ^ 22 \<le> sqrt x" by simp
    moreover have pos: "0 \<le> x" using that by simp
    ultimately have "2 ^ 22 * sqrt x \<le> sqrt x * sqrt x" by (intro mult_right_mono) simp_all
    then have "2 * sqrt x \<le> x / 2 ^ 21" using pos by simp
    with root [of x] that show ?thesis by simp
  qed
  ultimately show ?thesis using root [of x] by blast
qed

lemma Dispersion_range_and_sqrt_witness:
  "2 * sqrt (2 ^ 44) \<le> hash_sqrt exact (2 ^ 44)"
  using Dispersion_range_and_sqrt [of "[]" 0 0 undefined "2 ^ 44"] by simp

section \<open>Similarity\<close>

text \<open>\<open>Similarity\<close> is the Jaccard index of the sets of positions, in exact arithmetic: a number
  between 0 and 1, symmetric, and 1 exactly for equal non-empty filters.\<close>

lemma Similarity_is_Jaccard:
  assumes "wf_bloom a" "wf_bloom b" "bf_m a = bf_m b" "bf_k a = bf_k b"
  shows "\<exists>s. Similarity exact (Some a) (Some b) = Ok s \<and> Similarity exact (Some b) (Some a) = Ok s
    \<and> s = real (card (bits_of (bf_bits a) \<inter> bits_of (bf_bits b))) / real (card (bits_of (bf_bits a) \<union> bits_of (bf_bits b)))
    \<and> 0 \<le> s \<and> s \<le> 1 \<and> (s = 1 \<longleftrightarrow> a = b \<and> \<not> bf_IsEmpty a)"
proof -
  let ?A = "bits_of (bf_bits a)" and ?B = "bits_of (bf_bits b)"
  have len: "length (bf_bits a) = length (bf_bits b)" by (rule same_length [OF assms(1-3)])
  have counts: "similarity_counts (Some a) (Some b) = Ok (card (?A \<inter> ?B), card (?A \<union> ?B))"
    "similarity_counts (Some b) (Some a) = Ok (card (?A \<inter> ?B), card (?A \<union> ?B))"
    using assms(3,4) len
    by (simp_all add: bytewise_def foldl_popcount bits_of_or bits_of_and Int_commute Un_commute)
  have fin: "finite (?A \<union> ?B)" by simp
  have le: "card (?A \<inter> ?B) \<le> card (?A \<union> ?B)" by (rule card_mono [OF fin]) auto
  have eq: "?A = ?B \<longleftrightarrow> a = b"
    using abs_bloom_inject [OF assms(1,2)] assms(3,4) by (simp add: abs_bloom_def)
  have full: "card (?A \<inter> ?B) = card (?A \<union> ?B) \<longleftrightarrow> ?A = ?B"
    using card_subset_eq [OF fin, of "?A \<inter> ?B"] by auto
  have empty: "card (?A \<union> ?B) = 0 \<longleftrightarrow> ?A = {} \<and> ?B = {}" by simp
  let ?s = "real (card (?A \<inter> ?B)) / real (card (?A \<union> ?B))"
  have "real i / real n \<le> 1" if "i \<le> n" for i n :: nat
    using that by (cases n) (simp_all add: divide_le_eq_1)
  then have "?s \<le> 1" using le by blast
  moreover have "?s = 1 \<longleftrightarrow> a = b \<and> \<not> bf_IsEmpty a"
    using full empty eq by (auto simp: bf_IsEmpty_iff)
  moreover have "Similarity exact (Some a) (Some b) = Ok ?s" "Similarity exact (Some b) (Some a) = Ok ?s"
    unfolding Similarity_def counts by simp_all
  ultimately show ?thesis by simp
qed

lemma Similarity_is_Jaccard_witness:
  "\<exists>s. Similarity exact (Some \<lparr>bf_m = 8, bf_k = 1, bf_bits = [3]\<rparr>)
       (Some \<lparr>bf_m = 8, bf_k = 1, bf_bits = [6]\<rparr>) = Ok s \<and> s \<le> 1 \<and> s \<noteq> 1"
  using Similarity_is_Jaccard [of "\<lparr>bf_m = 8, bf_k = 1, bf_bits = [3]\<rparr>" "\<lparr>bf_m = 8, bf_k = 1, bf_bits = [6]\<rparr>"]
  by (auto simp: wf_bloom_def)

end
