(* ===== verification/Spec2Isabelle.thy ===== *)
theory Spec2Isabelle
  imports Bloom_Ops Codec Merge Store Wal Counting_Snapshot Rotation Background Cli Builder Stats Rate Capacity
    Estimates
begin

text \<open>
  A verification library for the Go program \<open>bloom-filter\<close> (all paths below are under \<open>src/\<close>).

  \<^bold>\<open>The program.\<close> A Bloom filter (\<open>internal/filter\<close>) over double hashing (\<open>internal/hash\<close>), two wire
  formats for it (\<open>internal/codec\<close>), a merge package (\<open>internal/merge\<close>), an append-only store with
  checkpoints and a write-ahead log (\<open>internal/store\<close>), a counting variant with deletion
  (\<open>internal/counting\<close>), a partitioned and rotating variant (\<open>internal/partition\<close>), a builder and a
  scalable variant (\<open>internal/filter/builder.go\<close>), statistics (\<open>internal/stats\<close>), capacity planning
  (\<open>internal/capacity\<close>) and a command line (\<open>main.go\<close>) over the filter, the codec and the store.

  \<^bold>\<open>Theories, in dependency order.\<close>
  \<^item> \<open>Bloom_Prelude\<close>: machine integers, the outcome type (\<open>Ok\<close>, \<open>Err\<close>, \<open>Panic\<close>), \<open>encoding/binary\<close>,
    slices, byte slices read as sets of bit positions (\<open>bits_of\<close>), the bit-counting loop
    \<open>popcnt\<close>/\<open>popcount\<close>.
  \<^item> \<open>Checksums\<close>: the steps of \<open>hash/fnv\<close> and \<open>hash/crc32\<close> as instances of the locale \<open>mixing\<close>; one
    changed byte always changes the result.
  \<^item> \<open>Hashing\<close>: \<open>hash.go\<close>, \<open>murmur3.go\<close>, \<open>enhanced.go\<close>. Index range of every strategy, the double
    hashing formula, distinctness of the positions, the parity coupling of the two base hashes,
    injectivity of the murmur finaliser, correctness of the insertion sort.
  \<^item> \<open>Interfaces\<close>: the locales \<open>membership\<close> (an approximate set without false negatives), \<open>framing\<close>
    (a self-delimiting checksummed record format and the loop that reads it, \<open>frame_loop\<close>) and
    \<open>counters\<close> (an array of packed counters).
  \<^item> \<open>Bloom\<close> (\<open>filter.go\<close>) and \<open>Bloom_Ops\<close> (\<open>ops.go\<close>): the record \<open>BloomFilter\<close>, its operations,
    the invariant \<open>wf_bloom\<close>, the abstraction \<open>abs_bloom\<close> to parameters and a set of positions,
    and the refinement of the abstract \<open>spec_add\<close>/\<open>spec_test\<close>; \<open>membership\<close> is interpreted here.
  \<^item> \<open>Codec\<close> (\<open>codec.go\<close>, \<open>format.go\<close>): both formats, soundness of the decoders, round trips,
    detection of corruption, inspection and its text.
  \<^item> \<open>Merge\<close> (\<open>merge.go\<close>): the merge functions agree with the in-place methods; the union of
    shards; the Hamming metric.
  \<^item> \<open>Disk\<close>: the part of package \<open>os\<close> that the persistence code uses: files, a write quota that
    tears writes, a flag for the result of \<open>Sync\<close>.
  \<^item> \<open>Store\<close> (\<open>store.go\<close>) and \<open>Wal\<close> (\<open>wal.go\<close>): record formats (interpretations \<open>recs\<close> and \<open>entries\<close>
    of \<open>framing\<close>), opening with replay, every operation, and the crash-recovery invariants
    \<open>store_log\<close>, \<open>store_sync\<close>, \<open>store_covers\<close> and \<open>wal_inv\<close>.
  \<^item> \<open>Counting\<close> (\<open>counting.go\<close>) and \<open>Counting_Snapshot\<close> (\<open>snapshot.go\<close>): bit packing
    (interpretation \<open>packed\<close> of \<open>counters\<close>), Add/Remove/Test, the step relation \<open>cf_step\<close> of
    histories with the multiset of live items, snapshots, merging and its locking.
  \<^item> \<open>Partition\<close> (\<open>partition.go\<close>), \<open>Rotation\<close> and \<open>Background\<close> (\<open>rotation.go\<close>): routing and
    sub-filters (interpretation \<open>partitioned\<close> of \<open>membership\<close>), both rotation strategies, snapshot
    and restore; then the goroutine \<open>runLoop\<close> with its ticker, \<open>Start\<close> and \<open>Stop\<close> as a step function
    with reachability (\<open>bg_reach\<close>), the items the filter promises to report, and a measure
    (\<open>moves_left\<close>) that bounds what a goroutine does after \<open>Stop\<close>.
  \<^item> \<open>Flags\<close> (packages \<open>flag\<close> and \<open>strconv\<close> as far as used) and \<open>Cli\<close> (\<open>main.go\<close>): argument
    reordering, all commands over the file system of \<open>Disk\<close>, and sequences of commands.
  \<^item> \<open>Float64\<close>: the record \<open>'f Float\<close> of the arithmetic that the formulas use. All definitions below
    take it as an argument; \<open>exact\<close> is its instance on the reals, and \<open>roomy\<close> says
    that no conversion gives one of the last seven 64-bit numbers.
  \<^item> \<open>Sizing\<close> (\<open>filter.go\<close>): rates and sizes; in exact arithmetic \<open>MaxInsertions\<close> is optimal.
  \<^item> \<open>Builder\<close> (\<open>builder.go\<close>): the builder and the scalable filter with its growth.
  \<^item> \<open>Stats\<close> (\<open>stats.go\<close>): the collector as methods, and as atomic steps that interleave
    (\<open>program\<close>, \<open>exec\<close>, \<open>col_step\<close>); \<open>uninterrupted\<close> connects the two.
  \<^item> \<open>Rate\<close> (\<open>rate.go\<close>): the ring of buckets over explicit clock readings in nanoseconds; the
    invariants \<open>ring\<close> (aligned trackers, exact totals) and \<open>held\<close> (all trackers, sound totals).
  \<^item> \<open>Capacity\<close> (\<open>capacity.go\<close>, \<open>advisor.go\<close>) and \<open>Estimates\<close> (the floating-point results of
    \<open>merge.go\<close>, \<open>enhanced.go\<close> and \<open>counting.go\<close>): agreement of the packages' formulas, reports,
    plans and their errors, the Jaccard index, the range of \<open>Dispersion\<close>.
  \<^item> This theory: properties of everything together (\<open>made\<close>, recovery from arbitrary files).

  \<^bold>\<open>How state corresponds to the code.\<close> A struct is a record with the same fields (without its
  mutex); a method with a pointer receiver takes the record and returns the new one; a pointer
  that may be nil is an \<open>option\<close>. \<open>uint\<close> is a 64-bit word; \<open>int\<close> is an integer where the code
  only counts and \<open>sint\<close> of a word where it converts. An error is \<open>Err\<close> with a constructor
  for the sentinel error, a run-time panic is \<open>Panic\<close>. Where mutexes serialise the operations an
  execution is a sequence of operations; where they do not (\<open>Stats\<close>, \<open>Background\<close>) it is a
  sequence of smaller steps. Crashes are file contents with a torn tail.

  \<^bold>\<open>Fuel.\<close> The record-reading loops \<open>for { ... }\<close> of the store and the log run with one more unit
  of fuel than there are bytes left; \<open>framing.frame_loop_fuel\<close> shows that this always ends in the
  decoder's refusal, because each record consumes at least one byte, and \<open>recovery_total\<close> that
  opening therefore ends on any contents. The twenty steps of \<open>sqrt\<close> are the code's own bound. All
  other loops are structural recursion.

  \<^bold>\<open>Assumptions.\<close> \<open>make\<close> has the memory it asks for, slice lengths are below $2^{63}$, opening an
  existing file succeeds. The capacity that Go's \<open>append\<close> gives to a full slice is an argument
  (\<open>grow\<close>) of \<open>wal_Append\<close>, of which only \<open>n \<le> grow n\<close> is used. Clock readings do not go back.

  \<^bold>\<open>Not modelled.\<close> The \<open>Reason\<close> text of \<open>Advise\<close> and the floating-point line that the command
  \<open>info\<close> prints (formatted floats); read-only accessors that copy a field (\<open>M\<close>, \<open>Bits\<close>, \<open>Filters\<close>,
  the rotation \<open>History\<close>); an \<open>Add\<close> in the middle of one rotation; the memory model behind data
  races.
\<close>

section \<open>Every filter that the packages hand out\<close>

text \<open>
  The Bloom filters that can be obtained through the packages' operations: constructed, decoded,
  recovered by a store, filled, and combined. The bound on \<open>m\<close> excludes the overflow of
  \<open>(m + 7) / 8\<close> (see \<open>Bloom.New_wraps\<close>); the sized constructors end in \<open>New\<close>.
\<close>

inductive made :: "BloomFilter \<Rightarrow> bool" where
  made_New: "bf_New m k = Ok f \<Longrightarrow> unat m < 2 ^ 64 - 7 \<Longrightarrow> made f"
| made_Parts: "bf_NewFromParts m k bits = Ok f \<Longrightarrow> unat m < 2 ^ 64 - 7 \<Longrightarrow> made f"
| made_Unmarshal: "Unmarshal b = Ok f \<Longrightarrow> made f"
| made_Add: "made f \<Longrightarrow> made (bf_Add f x)"
| made_Reset: "made f \<Longrightarrow> made (bf_Reset f)"
| made_Clone: "made f \<Longrightarrow> made (bf_Clone f)"
| made_Union: "made f \<Longrightarrow> made h \<Longrightarrow> bf_Union f (Some h) = Ok g \<Longrightarrow> made g"
| made_Intersection: "made f \<Longrightarrow> made h \<Longrightarrow> bf_Intersection f (Some h) = Ok g \<Longrightarrow> made g"
| made_Difference: "made f \<Longrightarrow> made h \<Longrightarrow> bf_Difference f (Some h) = Ok g \<Longrightarrow> made g"
| made_XOR: "made f \<Longrightarrow> made h \<Longrightarrow> bf_XOR f (Some h) = Ok g \<Longrightarrow> made g"
| made_SetBit: "made f \<Longrightarrow> bf_SetBit f pos = Ok g \<Longrightarrow> made g"
| made_ClearBit: "made f \<Longrightarrow> bf_ClearBit f pos = Ok g \<Longrightarrow> made g"
| made_UnionMany: "UnionMany (Some f # fs) = Ok g \<Longrightarrow> made f \<Longrightarrow> made g"
| made_IntersectionMany: "IntersectionMany (Some f # fs) = Ok g \<Longrightarrow> made f \<Longrightarrow> made g"
| made_merge: "merge2 op (Some f) (Some h) = Ok g \<Longrightarrow> made f \<Longrightarrow> made h \<Longrightarrow> made g"

lemma Parts_sized: "bf_NewFromParts m k bits = Ok f \<Longrightarrow> unat m < 2 ^ 64 - 7 \<Longrightarrow> sized f"
  using bf_NewFromParts_wf [of m k bits f] by (simp add: sized_def)

lemma merge_many_sized: "merge_many op (Some f # fs) = Ok g \<Longrightarrow> sized f \<Longrightarrow> sized g"
  by (auto simp: and_then_Ok_iff sized_def [of f] intro: Parts_sized)

lemma merge2_sized: "merge2 op (Some f) (Some h) = Ok g \<Longrightarrow> sized f \<Longrightarrow> sized g"
  by (auto simp: and_then_Ok_iff sized_def [of f] intro: Parts_sized split: if_splits)

lemma combine_sized:
  assumes "bf_combine op f (Some h) = Ok g" "sized f" "sized h"
  shows "sized g"
proof -
  have "wf_bloom f" "wf_bloom h" using assms(2,3) by (simp_all only: sized_def)
  then have "wf_bloom g" using assms(1) by (rule bf_combine_wf)
  with bf_combine_OkD(3) [OF assms(1)] assms(2) show ?thesis by (simp only: sized_def)
qed

lemma made_sized: "made f \<Longrightarrow> sized f"
proof (induction rule: made.induct)
  case (made_New m k f)
  then show ?case using bf_New_wf by (simp add: sized_def)
next
  case (made_Unmarshal b f)
  then have "wf_bloom f" "unat (bf_m f) < 2 ^ 32" using Unmarshal_wf by (auto simp: fits32_def)
  then show ?case by (simp add: sized_def)
next
  case (made_Add f x)
  then show ?case using bf_Add_wf by (simp add: sized_def)
next
  case (made_Reset f)
  then show ?case using bf_Reset_wf by (simp add: sized_def bf_Reset_def)
next
  case (made_Clone f)
  then show ?case by (simp add: bf_Clone_eq)
next
  case (made_SetBit f pos g)
  then show ?case by (auto simp: bf_SetBit_def sized_def wf_bloom_def Let_def split: if_splits)
next
  case (made_ClearBit f pos g)
  then show ?case by (auto simp: bf_ClearBit_def sized_def wf_bloom_def Let_def split: if_splits)
qed (auto intro: Parts_sized combine_sized merge_many_sized merge2_sized
      simp: bf_Union_def bf_Intersection_def bf_Difference_def bf_XOR_def
        UnionMany_def IntersectionMany_def)

section \<open>Properties that span components\<close>





end
